(* ===== verification/Prelude.thy ===== *)
theory Prelude
  imports Main "HOL-Library.Word" "HOL-Library.Code_Target_Nat"
begin

text \<open>
  Shared material of the prana-os development: the faults a C++ operation can end in
  (a failed \<open>VERIFY\<close>, an access outside a memory block), the result type every fallible
  operation returns, the 32-bit \<open>size_t\<close> arithmetic of the default i686 build, and generic
  lemmas on lists, words and natural numbers that several components use.
\<close>

unbundle bit_operations_syntax

type_synonym u8 = "8 word"
type_synonym u16 = "16 word"
type_synonym u32 = "32 word"
type_synonym u64 = "64 word"

subsection \<open>Faults and results\<close>

text \<open>
  \<open>VERIFY(c)\<close> stops the kernel when \<open>c\<close> is false. \<open>OutOfBounds\<close> is a read or write outside
  the block of memory the model gives the object, \<open>Undefined\<close> any other undefined behaviour
  (\<open>__builtin_ctz(0)\<close>, a division by zero), \<open>Diverges\<close> a loop that never ends.
\<close>

datatype fault = VerifyFailed | NotReached | OutOfBounds | Undefined | Diverges

type_synonym 'a result = "fault + 'a"

fun and_then :: "'e + 'a \<Rightarrow> ('a \<Rightarrow> 'e + 'b) \<Rightarrow> 'e + 'b" where
  "and_then (Inl e) f = Inl e"
| "and_then (Inr x) f = f x"

lemma and_then_Inr_iff: "and_then m f = Inr y \<longleftrightarrow> (\<exists>x. m = Inr x \<and> f x = Inr y)"
  by (cases m) auto

lemma and_then_case: "and_then m f = (case m of Inl e \<Rightarrow> Inl e | Inr x \<Rightarrow> f x)"
  by (cases m) simp_all

lemma and_then_assoc: "and_then (and_then m f) g = and_then m (\<lambda>x. and_then (f x) g)"
  by (cases m) auto

lemma and_then_cong [fundef_cong]:
  "m = m' \<Longrightarrow> (\<And>x. m' = Inr x \<Longrightarrow> f x = f' x) \<Longrightarrow> and_then m f = and_then m' f'"
  by (cases m') auto

definition verify :: "bool \<Rightarrow> unit result" where
  "verify c = (if c then Inr () else Inl VerifyFailed)"

lemma verify_True [simp]: "verify True = Inr ()"
  by (simp add: verify_def)

lemma verify_Inr_iff [simp]: "verify c = Inr u \<longleftrightarrow> c"
  by (cases u) (simp add: verify_def)

lemma and_then_verify [simp]:
  "and_then (verify c) f = (if c then f () else Inl VerifyFailed)"
  by (simp add: verify_def)

text \<open>The result of a loop that is defined as a partial function.\<close>

definition returned :: "'a result option \<Rightarrow> 'a result" where
  "returned r = (case r of None \<Rightarrow> Inl Diverges | Some x \<Rightarrow> x)"

lemma returned_Some [simp]: "returned (Some x) = x"
  by (simp add: returned_def)

text \<open>A read and a write of one element of a memory block.\<close>

definition read_at :: "'a list \<Rightarrow> nat \<Rightarrow> 'a result" where
  "read_at xs i = (if i < length xs then Inr (xs ! i) else Inl OutOfBounds)"

definition write_at :: "'a list \<Rightarrow> nat \<Rightarrow> 'a \<Rightarrow> 'a list result" where
  "write_at xs i v = (if i < length xs then Inr (xs[i := v]) else Inl OutOfBounds)"

lemma read_at_in [simp]: "i < length xs \<Longrightarrow> read_at xs i = Inr (xs ! i)"
  by (simp add: read_at_def)

lemma write_at_in [simp]: "i < length xs \<Longrightarrow> write_at xs i v = Inr (xs[i := v])"
  by (simp add: write_at_def)

subsection \<open>size_t on the i686 build\<close>

definition usize :: "nat \<Rightarrow> nat" where
  "usize n = n mod 2 ^ 32"

text \<open>Unsigned subtraction wraps below zero.\<close>

definition usub :: "nat \<Rightarrow> nat \<Rightarrow> nat" where
  "usub a b = (a + (2 ^ 32 - b mod 2 ^ 32)) mod 2 ^ 32"

lemma usub_ge [simp]: "b \<le> a \<Longrightarrow> a < 2 ^ 32 \<Longrightarrow> usub a b = a - b"
proof -
  assume "b \<le> a" "a < 2 ^ 32"
  then have "a + (2 ^ 32 - b mod 2 ^ 32) = (a - b) + 2 ^ 32" by simp
  then show ?thesis unfolding usub_def using \<open>a < 2 ^ 32\<close> by simp
qed

lemma usize_small [simp]: "n < 2 ^ 32 \<Longrightarrow> usize n = n"
  by (simp add: usize_def)

lemma usize_less [simp]: "usize n < 2 ^ 32"
  by (simp add: usize_def)

subsection \<open>Bytes\<close>

lemma unat_of_char: "unat (of_char c :: u8) = of_char c"
proof -
  have "(of_char c :: u8) = of_nat (of_char c)" by (rule of_nat_of_char[symmetric])
  moreover have "of_char c < (2 ^ 8 :: nat)" using nat_of_char_less_256[of c] by simp
  ultimately show ?thesis by (simp add: unsigned_of_nat take_bit_nat_eq_self)
qed

lemma byte_eqI: "(\<And>n. n \<in> set [0, 1, 2, 3, 4, 5, 6, 7] \<Longrightarrow> bit a n = bit b n) \<Longrightarrow> a = (b :: u8)"
proof (rule bit_eqI)
  fix n :: nat
  assume *: "\<And>n. n \<in> set [0, 1, 2, 3, 4, 5, 6, 7] \<Longrightarrow> bit a n = bit b n" and "possible_bit TYPE(u8) n"
  then have "n < 8" by (simp add: possible_bit_word)
  then have "n \<in> set [0, 1, 2, 3, 4, 5, 6, 7]" by auto
  then show "bit a n = bit b n" by (rule *)
qed

end
