(* ===== verification/AK_Bitmap.thy ===== *)
theory AK_Bitmap
  imports Prelude
begin

text \<open>
  \<^verbatim>\<open>AK/BitmapView.h\<close> and \<^verbatim>\<open>AK/Bitmap.h\<close>. A view is the address of its first byte (the
  word-wise loops depend on its alignment), the bytes of the memory block from that address
  on, and the number of bits. A byte access outside the block is the fault \<open>OutOfBounds\<close>.
  The first group of lemmas gives every operation its meaning on single bits (\<open>bit_at\<close>); the
  range searches are then proved sound and complete against runs of unset bits.
\<close>

subsection \<open>Views and single bits\<close>

record bitmap_view =
  bv_addr :: nat
  bv_data :: "u8 list"
  bv_size :: nat

definition ceil_div :: "nat \<Rightarrow> nat \<Rightarrow> nat" where
  "ceil_div a b = (let result = a div b in if a mod b \<noteq> 0 then result + 1 else result)"

definition size_in_bytes :: "bitmap_view \<Rightarrow> nat" where
  "size_in_bytes b = ceil_div (bv_size b) 8"

definition bv_get :: "bitmap_view \<Rightarrow> nat \<Rightarrow> bool result" where
  "bv_get b index =
     and_then (verify (index < bv_size b)) (\<lambda>_.
     and_then (read_at (bv_data b) (index div 8)) (\<lambda>byte.
     Inr (byte AND push_bit (index mod 8) 1 \<noteq> 0)))"

definition bv_set :: "bitmap_view \<Rightarrow> nat \<Rightarrow> bool \<Rightarrow> bitmap_view result" where
  "bv_set b index value =
     and_then (verify (index < bv_size b)) (\<lambda>_.
     and_then (read_at (bv_data b) (index div 8)) (\<lambda>byte.
     and_then (write_at (bv_data b) (index div 8)
       (if value then byte OR push_bit (index mod 8) 1
        else byte AND NOT (push_bit (index mod 8) 1))) (\<lambda>d.
     Inr (b\<lparr>bv_data := d\<rparr>))))"

subsection \<open>Counting\<close>

definition popcount :: "'a::len word \<Rightarrow> nat" where
  "popcount w = length (filter (bit w) [0..<LENGTH('a)])"

definition bitmask_first_byte :: "u8 list" where
  "bitmask_first_byte = [0xFF, 0xFE, 0xFC, 0xF8, 0xF0, 0xE0, 0xC0, 0x80]"

definition bitmask_last_byte :: "u8 list" where
  "bitmask_last_byte = [0x0, 0x1, 0x3, 0x7, 0xF, 0x1F, 0x3F, 0x7F]"

text \<open>A little-endian 32-bit load from byte offset \<open>i\<close>.\<close>

definition load32 :: "u8 list \<Rightarrow> nat \<Rightarrow> u32 result" where
  "load32 d i =
     (if i + 4 \<le> length d
      then Inr (ucast (d ! i) OR push_bit 8 (ucast (d ! (i + 1)))
        OR push_bit 16 (ucast (d ! (i + 2))) OR push_bit 24 (ucast (d ! (i + 3))))
      else Inl OutOfBounds)"

function count_bytes :: "u8 list \<Rightarrow> nat \<Rightarrow> nat \<Rightarrow> nat \<Rightarrow> nat result" where
  "count_bytes d i j count =
     (if i < j
      then and_then (read_at d i) (\<lambda>byte. count_bytes d (i + 1) j (count + popcount byte))
      else Inr count)"
  by pat_completeness auto
termination
  by (relation "measure (\<lambda>(d, i, j, count). j - i)") auto

function count_words :: "u8 list \<Rightarrow> nat \<Rightarrow> nat \<Rightarrow> nat \<Rightarrow> (nat \<times> nat) result" where
  "count_words d i j count =
     (if i < j
      then and_then (load32 d i) (\<lambda>w. count_words d (i + 4) j (count + popcount w))
      else Inr (i, count))"
  by pat_completeness auto
termination
  by (relation "measure (\<lambda>(d, i, j, count). j - i)") auto

text \<open>
  The middle bytes \<open>[first_i, last_i)\<close> of \<open>count_in_range\<close>: single bytes up to an aligned address,
  whole words, then the rest. Addresses are absolute for the two roundings, as in the source;
  \<open>ptr32\<close> and \<open>last32\<close> are brought back to offsets from the first byte of the view.
\<close>

definition count_middle :: "bitmap_view \<Rightarrow> nat \<Rightarrow> nat \<Rightarrow> nat \<Rightarrow> nat result" where
  "count_middle b first_i last_i count =
     (let aligned = (bv_addr b + first_i + 3) div 4 * 4;
          ptr32 = (if aligned > bv_addr b + last_i then last_i else aligned - bv_addr b);
          last32 = (bv_addr b + last_i) div 4 * 4 - bv_addr b in
      and_then (count_bytes (bv_data b) first_i ptr32 count) (\<lambda>count.
      and_then (count_words (bv_data b) ptr32 last32 count) (\<lambda>(ptr32, count).
      count_bytes (bv_data b) ptr32 last_i count)))"

definition count_in_range :: "bitmap_view \<Rightarrow> nat \<Rightarrow> nat \<Rightarrow> bool \<Rightarrow> nat result" where
  "count_in_range b start len value =
     and_then (verify (start < bv_size b)) (\<lambda>_.
     and_then (verify (usize (start + len) \<le> bv_size b)) (\<lambda>_.
     if len = 0 then Inr 0
     else let first_i = start div 8; last_i = usize (start + len) div 8 in
       and_then (read_at (bv_data b) first_i) (\<lambda>byte0.
       let byte = byte0 AND bitmask_first_byte ! (start mod 8) in
       and_then
         (if first_i = last_i
          then Inr (popcount (byte AND bitmask_last_byte ! (usize (start + len) mod 8)))
          else and_then (read_at (bv_data b) last_i) (\<lambda>byte1.
            let count = popcount byte
                  + popcount (byte1 AND bitmask_last_byte ! (usize (start + len) mod 8)) in
            if first_i + 1 < last_i then count_middle b (first_i + 1) last_i count else Inr count))
         (\<lambda>count. Inr (if \<not> value then len - count else count)))))"

definition count_slow :: "bitmap_view \<Rightarrow> bool \<Rightarrow> nat result" where
  "count_slow b value = count_in_range b 0 (bv_size b) value"

subsection \<open>Setting ranges\<close>

definition memset :: "u8 list \<Rightarrow> nat \<Rightarrow> u8 \<Rightarrow> nat \<Rightarrow> u8 list result" where
  "memset d i v n =
     (if i + n \<le> length d then Inr (take i d @ replicate n v @ drop (i + n) d)
      else Inl OutOfBounds)"

text \<open>
  One masked byte of \<open>set_range<VALUE, verify_that_all_bits_flip>\<close>: the optional check that
  every bit under the mask changes, then the update.
\<close>

definition set_masked :: "bool \<Rightarrow> bool \<Rightarrow> u8 list \<Rightarrow> nat \<Rightarrow> u8 \<Rightarrow> u8 list result" where
  "set_masked VALUE verify_flip d i byte_mask =
     and_then (read_at d i) (\<lambda>byte.
     and_then (verify (verify_flip \<longrightarrow>
        (if VALUE then byte AND byte_mask = 0 else byte AND byte_mask = byte_mask))) (\<lambda>_.
     write_at d i (if VALUE then byte OR byte_mask else byte AND NOT byte_mask)))"

definition set_range_t :: "bool \<Rightarrow> bool \<Rightarrow> bitmap_view \<Rightarrow> nat \<Rightarrow> nat \<Rightarrow> bitmap_view result" where
  "set_range_t VALUE verify_flip b start len =
     and_then (verify (start < bv_size b)) (\<lambda>_.
     and_then (verify (usize (start + len) \<le> bv_size b)) (\<lambda>_.
     if len = 0 then Inr b
     else let first_i = start div 8; last_i = usize (start + len) div 8;
              mask_first = bitmask_first_byte ! (start mod 8);
              mask_last = bitmask_last_byte ! (usize (start + len) mod 8) in
       if first_i = last_i
       then and_then (set_masked VALUE verify_flip (bv_data b) first_i (mask_first AND mask_last))
              (\<lambda>d. Inr (b\<lparr>bv_data := d\<rparr>))
       else
         and_then (set_masked VALUE verify_flip (bv_data b) first_i mask_first) (\<lambda>d1.
         and_then (set_masked VALUE verify_flip d1 last_i mask_last) (\<lambda>d2.
         and_then
           (if first_i + 1 < last_i
            then memset d2 (first_i + 1) (if VALUE then 0xFF else 0x0) (last_i - (first_i + 1))
            else Inr d2) (\<lambda>d3. Inr (b\<lparr>bv_data := d3\<rparr>))))))"

definition set_range :: "bitmap_view \<Rightarrow> nat \<Rightarrow> nat \<Rightarrow> bool \<Rightarrow> bitmap_view result" where
  "set_range b start len value =
     (if value then set_range_t True False b start len else set_range_t False False b start len)"

definition set_range_and_verify_that_all_bits_flip ::
    "bitmap_view \<Rightarrow> nat \<Rightarrow> nat \<Rightarrow> bool \<Rightarrow> bitmap_view result" where
  "set_range_and_verify_that_all_bits_flip b start len value =
     (if value then set_range_t True True b start len else set_range_t False True b start len)"

definition bv_fill :: "bitmap_view \<Rightarrow> bool \<Rightarrow> bitmap_view result" where
  "bv_fill b value =
     and_then (memset (bv_data b) 0 (if value then 0xff else 0x00) (size_in_bytes b))
       (\<lambda>d. Inr (b\<lparr>bv_data := d\<rparr>))"

subsection \<open>The bits of a view\<close>

definition bit_at :: "u8 list \<Rightarrow> nat \<Rightarrow> bool" where
  "bit_at d i \<longleftrightarrow> bit (d ! (i div 8)) (i mod 8)"

definition bv_wf :: "bitmap_view \<Rightarrow> bool" where
  "bv_wf b \<longleftrightarrow> size_in_bytes b \<le> length (bv_data b) \<and> bv_size b < 2 ^ 32"

lemma size_in_bytes_bound: "i < bv_size b \<Longrightarrow> i div 8 < size_in_bytes b"
  by (auto simp: size_in_bytes_def ceil_div_def Let_def)

lemma bv_wf_index [simp]: "bv_wf b \<Longrightarrow> i < bv_size b \<Longrightarrow> i div 8 < length (bv_data b)"
  using size_in_bytes_bound[of i b] by (simp add: bv_wf_def)

lemma bv_get_spec: "bv_wf b \<Longrightarrow> i < bv_size b \<Longrightarrow> bv_get b i = Inr (bit_at (bv_data b) i)"
  by (simp only: bv_get_def bit_at_def bit_iff_and_push_bit_not_eq_0 verify_True and_then.simps
      read_at_in bv_wf_index)

lemma bit_at_update:
  "k < length d \<Longrightarrow> bit_at (d[k := v]) i = (if i div 8 = k then bit v (i mod 8) else bit_at d i)"
  by (auto simp: bit_at_def nth_list_update)

lemma eq_div_mod_8: "(i::nat) div 8 = j div 8 \<Longrightarrow> i mod 8 = j mod 8 \<Longrightarrow> i = j"
  by (metis div_mult_mod_eq)

lemma bv_set_spec:
  assumes "bv_wf b" "i < bv_size b"
  obtains b' where "bv_set b i v = Inr b'" "bv_addr b' = bv_addr b" "bv_size b' = bv_size b" "length (bv_data b') = length (bv_data b)"
    "\<And>j. bit_at (bv_data b') j = (if j = i then v else bit_at (bv_data b) j)"
proof -
  let ?d = "(bv_data b)[i div 8 := (if v then bv_data b ! (i div 8) OR push_bit (i mod 8) 1
     else bv_data b ! (i div 8) AND NOT (push_bit (i mod 8) 1))]"
  have "bit_at ?d j = (if j = i then v else bit_at (bv_data b) j)" for j
    using assms eq_div_mod_8[of j i]
    by (auto simp: bit_at_update bit_or_iff bit_and_iff bit_not_iff bit_exp_iff)
      (auto simp: bit_at_def)
  then show thesis
    using that[of "b\<lparr>bv_data := ?d\<rparr>"] assms by (simp add: bv_set_def)
qed

lemma all8: "(k::nat) < 8 \<longleftrightarrow> k \<in> {0,1,2,3,4,5,6,7}"
  by auto

lemma bit_first_mask: "k < 8 \<Longrightarrow> bit (bitmask_first_byte ! k) j \<longleftrightarrow> k \<le> j \<and> j < 8"
  apply (cases "j < 8")
  apply (auto simp: all8 bitmask_first_byte_def bit_numeral_word_iff)
  done

lemma bit_last_mask: "k < 8 \<Longrightarrow> bit (bitmask_last_byte ! k) j \<longleftrightarrow> j < k"
  apply (cases "j < 8")
  apply (auto simp: all8 bitmask_last_byte_def bit_1_iff)
  done
subsection \<open>Counting the elements of an interval\<close>

definition cnt :: "(nat \<Rightarrow> bool) \<Rightarrow> nat \<Rightarrow> nat \<Rightarrow> nat" where
  "cnt P a b = length (filter P [a..<b])"

lemma cnt_empty [simp]: "b \<le> a \<Longrightarrow> cnt P a b = 0"
  by (simp add: cnt_def)

lemma cnt_split: "a \<le> b \<Longrightarrow> b \<le> c \<Longrightarrow> cnt P a b + cnt P b c = cnt P a c"
  unfolding cnt_def by (metis filter_append le_Suc_ex length_append upt_add_eq_append)

lemma cnt_cong: "(\<And>i. a \<le> i \<Longrightarrow> i < b \<Longrightarrow> P i = Q i) \<Longrightarrow> cnt P a b = cnt Q a b"
  unfolding cnt_def by (metis (mono_tags, lifting) atLeastLessThan_iff atLeastLessThan_upt filter_cong)

lemma cnt_shift: "cnt (\<lambda>i. P (k + i)) a b = cnt P (k + a) (k + b)"
  unfolding cnt_def by (induction b) auto

lemma cnt_restrict: "a \<le> k \<Longrightarrow> k \<le> l \<Longrightarrow> l \<le> b \<Longrightarrow> cnt (\<lambda>i. P i \<and> k \<le> i \<and> i < l) a b = cnt P k l"
proof -
  assume *: "a \<le> k" "k \<le> l" "l \<le> b"
  let ?Q = "\<lambda>i. P i \<and> k \<le> i \<and> i < l"
  have "cnt ?Q a b = cnt ?Q a k + cnt ?Q k l + cnt ?Q l b"
    using * by (simp add: cnt_split)
  moreover have "cnt ?Q a k = 0" "cnt ?Q l b = 0" by (auto simp: cnt_def filter_empty_conv)
  moreover have "cnt ?Q k l = cnt P k l" by (rule cnt_cong) simp
  ultimately show ?thesis by simp
qed

lemma cnt_le: "cnt P a b \<le> b - a"
  unfolding cnt_def by (metis length_filter_le length_upt)

lemma cnt_compl: "cnt (\<lambda>i. \<not> P i) a b = b - a - cnt P a b"
  using sum_length_filter_compl[of P "[a..<b]"] by (simp add: cnt_def)

lemma popcount_byte: "popcount (w::u8) = cnt (bit w) 0 8"
  by (simp add: popcount_def cnt_def)

lemma cnt_bit_at_byte: "a \<le> 8 \<Longrightarrow> c \<le> 8 \<Longrightarrow> cnt (bit (d ! k)) a c = cnt (bit_at d) (8 * k + a) (8 * k + c)"
  by (subst cnt_shift [symmetric], rule cnt_cong) (simp add: bit_at_def)

lemma popcount_masked:
  assumes "\<And>i. i < 8 \<Longrightarrow> bit (m::u8) i \<longleftrightarrow> k \<le> i \<and> i < l" "k \<le> l" "l \<le> 8"
  shows "popcount (w AND m) = cnt (bit w) k l"
proof -
  have "cnt (bit (w AND m)) 0 8 = cnt (\<lambda>i. bit w i \<and> k \<le> i \<and> i < l) 0 8"
    using assms(1) by (intro cnt_cong) (simp add: bit_and_iff)
  then show ?thesis using assms(2,3) by (simp add: popcount_byte cnt_restrict)
qed

lemma popcount_first: "k < 8 \<Longrightarrow> popcount ((w::u8) AND bitmask_first_byte ! k) = cnt (bit w) k 8"
  by (rule popcount_masked) (auto simp: bit_first_mask)

lemma popcount_last: "k < 8 \<Longrightarrow> popcount ((w::u8) AND bitmask_last_byte ! k) = cnt (bit w) 0 k"
  by (rule popcount_masked) (auto simp: bit_last_mask)

lemma popcount_first_last: "k \<le> l \<Longrightarrow> l < 8 \<Longrightarrow>
    popcount (((w::u8) AND bitmask_first_byte ! k) AND bitmask_last_byte ! l) = cnt (bit w) k l"
  by (subst and.assoc, rule popcount_masked) (auto simp: bit_and_iff bit_first_mask bit_last_mask)

lemma bit_word_ge8 [simp]: "8 \<le> n \<Longrightarrow> \<not> bit (w::u8) n"
  using bit_imp_le_length[of w n] by auto

lemma load32_in:
  assumes "i + 4 \<le> length d"
  obtains w where "load32 d i = Inr w" "\<And>j. j < 32 \<Longrightarrow> bit w j = bit_at d (8 * i + j)"
proof -
  let ?w = "ucast (d ! i) OR push_bit 8 (ucast (d ! (i + 1)))
        OR push_bit 16 (ucast (d ! (i + 2))) OR push_bit 24 (ucast (d ! (i + 3))) :: u32"
  have "bit ?w j = bit_at d (8 * i + j)" if "j < 32" for j
  proof -
    have "j div 8 < 4" using that by simp
    then consider "j div 8 = 0" | "j div 8 = 1" | "j div 8 = 2" | "j div 8 = 3" by linarith
    then show ?thesis
    proof cases
      case 1 then have "j < 8" by simp
      then show ?thesis by (simp add: bit_at_def bit_or_iff bit_push_bit_iff bit_ucast_iff)
    next
      case 2 then have "8 \<le> j" "j < 16" "j mod 8 = j - 8" by (auto simp: modulo_nat_def)
      moreover have "(8 * i + j) div 8 = i + 1" using 2 by simp
      ultimately show ?thesis
        by (auto simp: bit_at_def bit_or_iff bit_push_bit_iff bit_ucast_iff bit_word_ge8)
    next
      case 3 then have "16 \<le> j" "j < 24" "j mod 8 = j - 16" by (auto simp: modulo_nat_def)
      moreover have "(8 * i + j) div 8 = i + 2" using 3 by simp
      ultimately show ?thesis
        by (auto simp: bit_at_def bit_or_iff bit_push_bit_iff bit_ucast_iff bit_word_ge8)
    next
      case 4 then have "24 \<le> j" "j < 32" "j mod 8 = j - 24" by (auto simp: modulo_nat_def)
      moreover have "(8 * i + j) div 8 = i + 3" using 4 by simp
      ultimately show ?thesis
        by (auto simp: bit_at_def bit_or_iff bit_push_bit_iff bit_ucast_iff bit_word_ge8)
    qed
  qed
  then show thesis using that[of ?w] assms by (simp add: load32_def)
qed

lemma popcount_word: "(\<And>j. j < 32 \<Longrightarrow> bit (w::u32) j = bit_at d (8 * i + j)) \<Longrightarrow> popcount w = cnt (bit_at d) (8 * i) (8 * i + 32)"
  using cnt_shift[of "bit_at d" "8 * i" 0 32] cnt_cong[of 0 32 "bit w" "\<lambda>j. bit_at d (8 * i + j)"]
  by (simp add: popcount_def cnt_def)

declare count_bytes.simps [simp del] count_words.simps [simp del]

lemma count_bytes_spec:
  "j \<le> length d \<Longrightarrow> count_bytes d i j c = Inr (c + cnt (bit_at d) (8 * i) (8 * j))"
proof (induction d i j c rule: count_bytes.induct)
  case (1 d i j c)
  show ?case
  proof (cases "i < j")
    case True
    have "popcount (d ! i) = cnt (bit_at d) (8 * i) (8 * i + 8)"
      using cnt_bit_at_byte[of 0 8 d i] by (simp add: popcount_byte)
    moreover have "cnt (bit_at d) (8 * i) (8 * i + 8) + cnt (bit_at d) (8 * i + 8) (8 * j) = cnt (bit_at d) (8 * i) (8 * j)"
      using True by (intro cnt_split) auto
    ultimately show ?thesis using 1 True by (subst count_bytes.simps) (simp add: algebra_simps)
  next
    case False then show ?thesis by (subst count_bytes.simps) simp
  qed
qed

lemma count_words_spec:
  "i \<le> j \<Longrightarrow> j \<le> length d \<Longrightarrow> (j - i) mod 4 = 0 \<Longrightarrow> count_words d i j c = Inr (j, c + cnt (bit_at d) (8 * i) (8 * j))"
proof (induction d i j c rule: count_words.induct)
  case (1 d i j c)
  show ?case
  proof (cases "i < j")
    case True
    then have le: "i + 4 \<le> j" using 1 by presburger
    then obtain w where w: "load32 d i = Inr w" "\<And>j. j < 32 \<Longrightarrow> bit w j = bit_at d (8 * i + j)"
      using 1 load32_in[of i d] by (metis le_trans)
    have "(j - (i + 4)) mod 4 = 0" using 1 le by presburger
    then have "count_words d (i + 4) j (c + popcount w) = Inr (j, c + popcount w + cnt (bit_at d) (8 * (i + 4)) (8 * j))"
      using "1.IH"[OF True w(1) le "1.prems"(2)] by simp
    moreover have "cnt (bit_at d) (8 * i) (8 * i + 32) + cnt (bit_at d) (8 * i + 32) (8 * j) = cnt (bit_at d) (8 * i) (8 * j)"
      using le by (intro cnt_split) auto
    ultimately show ?thesis using True w popcount_word[OF w(2)] by (subst count_words.simps) (simp add: algebra_simps)
  next
    case False then show ?thesis using 1 by (subst count_words.simps) simp
  qed
qed

lemma count_words_stop: "j \<le> i \<Longrightarrow> count_words d i j c = Inr (i, c)"
  by (subst count_words.simps) simp

lemma count_words_any:
  assumes "i \<le> k" "j \<le> k" "k \<le> length d" "i < j \<Longrightarrow> (j - i) mod 4 = 0"
  obtains i' where "i \<le> i'" "i' \<le> k" "count_words d i j c = Inr (i', c + cnt (bit_at d) (8 * i) (8 * i'))"
proof (cases "i < j")
  case True
  then show thesis using that[of j] assms count_words_spec[of i j d c] by simp
next
  case False
  then show thesis using that[of i] assms count_words_stop[of j i d c] by simp
qed

lemma count_middle_spec:
  assumes "first_i \<le> last_i" "last_i \<le> length (bv_data b)"
  shows "count_middle b first_i last_i c = Inr (c + cnt (bit_at (bv_data b)) (8 * first_i) (8 * last_i))"
proof -
  let ?P = "bit_at (bv_data b)"
  define aligned where "aligned = (bv_addr b + first_i + 3) div 4 * 4"
  define ptr where "ptr = (if aligned > bv_addr b + last_i then last_i else aligned - bv_addr b)"
  define l32 where "l32 = (bv_addr b + last_i) div 4 * 4 - bv_addr b"
  have al: "bv_addr b + first_i \<le> aligned" unfolding aligned_def by presburger
  have ptr: "first_i \<le> ptr" "ptr \<le> last_i" using al assms by (auto simp: ptr_def)
  have l32: "l32 \<le> last_i" unfolding l32_def by presburger
  have m4: "(l32 - ptr) mod 4 = 0" if "ptr < l32"
  proof -
    have "\<not> aligned > bv_addr b + last_i" using that l32 by (auto simp: ptr_def)
    then have "l32 - ptr = (bv_addr b + last_i) div 4 * 4 - aligned"
      using al by (simp add: ptr_def l32_def)
    then show ?thesis by (simp add: aligned_def flip: diff_mult_distrib)
  qed
  obtain i' where i': "ptr \<le> i'" "i' \<le> last_i"
    and cw: "\<And>c. count_words (bv_data b) ptr l32 c = Inr (i', c + cnt ?P (8 * ptr) (8 * i'))"
  proof (cases "ptr < l32")
    case True
    then show thesis using that[of l32] l32 m4 assms by (simp add: count_words_spec)
  next
    case False
    then show thesis using that[of ptr] ptr by (simp add: count_words_stop)
  qed
  have "count_middle b first_i last_i c = and_then (count_bytes (bv_data b) first_i ptr c) (\<lambda>count.
      and_then (count_words (bv_data b) ptr l32 count) (\<lambda>(ptr32, count).
      count_bytes (bv_data b) ptr32 last_i count))"
    by (simp only: count_middle_def Let_def aligned_def ptr_def l32_def)
  also have "\<dots> = Inr (c + cnt ?P (8 * first_i) (8 * ptr) + cnt ?P (8 * ptr) (8 * i') + cnt ?P (8 * i') (8 * last_i))"
    using assms ptr i' by (simp add: count_bytes_spec cw)
  also have "\<dots> = Inr (c + cnt ?P (8 * first_i) (8 * last_i))"
    using ptr i' cnt_split[of "8 * first_i" "8 * ptr" "8 * i'" ?P] cnt_split[of "8 * first_i" "8 * i'" "8 * last_i" ?P]
    by simp
  finally show ?thesis .
qed

lemma cnt_eq_value: "cnt (\<lambda>i. P i = v) a b = (if v then cnt P a b else b - a - cnt P a b)"
  by (cases v) (simp_all add: cnt_compl)

lemma div_mod_8: "8 * (i div 8) + i mod 8 = (i::nat)"
  by simp

theorem count_in_range_spec:
  assumes "bv_wf b" "start < bv_size b" "start + len \<le> bv_size b"
    "(start + len) div 8 < length (bv_data b)"
  shows "count_in_range b start len v = Inr (cnt (\<lambda>i. bit_at (bv_data b) i = v) start (start + len))"
proof (cases "len = 0")
  case True
  then show ?thesis using assms by (simp add: count_in_range_def bv_wf_def)
next
  case False
  let ?d = "bv_data b" and ?e = "start + len"
  let ?P = "bit_at ?d" and ?f = "start div 8" and ?l = "?e div 8"
  have us: "usize ?e = ?e" using assms by (simp add: bv_wf_def)
  have fl: "?f \<le> ?l" by (simp add: div_le_mono)
  have first: "cnt (bit (?d ! ?f)) (start mod 8) 8 = cnt ?P start (8 * ?f + 8)"
    using cnt_bit_at_byte[of "start mod 8" 8 ?d ?f] by (simp add: div_mod_8)
  have last: "cnt (bit (?d ! ?l)) 0 (?e mod 8) = cnt ?P (8 * ?l) ?e"
    using cnt_bit_at_byte[of 0 "?e mod 8" ?d ?l] by (simp add: div_mod_8)
  have core: "and_then (read_at ?d ?f) (\<lambda>byte0.
       let byte = byte0 AND bitmask_first_byte ! (start mod 8) in
       and_then (if ?f = ?l then Inr (popcount (byte AND bitmask_last_byte ! (?e mod 8)))
          else and_then (read_at ?d ?l) (\<lambda>byte1.
            let count = popcount byte + popcount (byte1 AND bitmask_last_byte ! (?e mod 8)) in
            if ?f + 1 < ?l then count_middle b (?f + 1) ?l count else Inr count)) g)
        = g (cnt ?P start ?e)" for g :: "nat \<Rightarrow> nat result"
  proof (cases "?f = ?l")
    case True
    have "start mod 8 \<le> ?e mod 8" using True by (metis le_add1 mod_le_divisor div_mod_8 nat_add_left_cancel_le)
    then have "popcount ((?d ! ?f AND bitmask_first_byte ! (start mod 8)) AND bitmask_last_byte ! (?e mod 8)) = cnt ?P start ?e"
      using True cnt_bit_at_byte[of "start mod 8" "?e mod 8" ?d ?f]
      by (simp add: popcount_first_last div_mod_8) (metis div_mod_8)
    then show ?thesis using True assms by simp
  next
    case False
    then have fl: "?f + 1 \<le> ?l" using fl by simp
    have "8 * (?f + 1) \<le> 8 * ?l" using fl by (rule mult_le_mono2)
    then have sp: "start \<le> 8 * ?f + 8" "8 * ?f + 8 \<le> 8 * ?l" "8 * ?l \<le> ?e"
      using div_mod_8[of start] by (simp_all) 
    have tot: "cnt ?P start (8 * ?f + 8) + cnt ?P (8 * ?l) ?e + cnt ?P (8 * ?f + 8) (8 * ?l) = cnt ?P start ?e"
      using cnt_split[OF sp(1,2), of ?P] cnt_split[of start "8 * ?l" ?e ?P] sp by simp
    have mid: "(if ?f + 1 < ?l then count_middle b (?f + 1) ?l c else Inr c)
        = Inr (c + cnt ?P (8 * ?f + 8) (8 * ?l))" for c
      using fl assms(4) count_middle_spec[of "?f + 1" ?l b c] by (auto simp: add.commute)
    have rd: "read_at ?d ?f = Inr (?d ! ?f)" "read_at ?d ?l = Inr (?d ! ?l)"
      using assms(4) fl by simp_all
    show ?thesis using False
      by (simp only: rd and_then.simps Let_def if_False mid popcount_first popcount_last
          mod_less_divisor zero_less_numeral first last tot)
  qed
  show ?thesis
  proof -
    have "count_in_range b start len v = Inr (if \<not> v then len - cnt ?P start ?e else cnt ?P start ?e)"
      unfolding count_in_range_def us Let_def[of ?f] Let_def[of ?l] core
      using assms(2,3) False by (simp only: verify_True and_then.simps if_False)
    then show ?thesis by (simp add: cnt_eq_value)
  qed
qed

subsection \<open>Range updates, bit by bit\<close>

definition masked :: "bool \<Rightarrow> u8 \<Rightarrow> u8 \<Rightarrow> u8" where
  "masked V byte m = (if V then byte OR m else byte AND NOT m)"

lemma bit_masked: "j < 8 \<Longrightarrow> bit (masked V byte m) j = (if bit m j then V else bit byte j)"
  by (auto simp: masked_def bit_or_iff bit_and_iff bit_not_iff)

lemma flip_iff: "(if V then (byte::u8) AND m = 0 else byte AND m = m) \<longleftrightarrow> (\<forall>j<8. bit m j \<longrightarrow> bit byte j \<noteq> V)"
  by (auto simp: bit_eq_iff bit_and_iff)

lemma set_masked_ok:
  assumes "i < length d" "vf \<Longrightarrow> \<forall>j<8. bit m j \<longrightarrow> bit (d ! i) j \<noteq> V"
  shows "set_masked V vf d i m = Inr (d[i := masked V (d ! i) m])"
proof -
  have "vf \<longrightarrow> (if V then d ! i AND m = 0 else d ! i AND m = m)"
    using assms(2) by (subst flip_iff) blast
  then show ?thesis using assms(1) by (simp add: set_masked_def masked_def)
qed

lemma memset_ok: "i + n \<le> length d \<Longrightarrow> memset d i v n = Inr (take i d @ replicate n v @ drop (i + n) d)"
  by (simp add: memset_def)

lemma nth_memset: "i + n \<le> length d \<Longrightarrow> k < length d \<Longrightarrow>
    (take i d @ replicate n v @ drop (i + n) d) ! k = (if i \<le> k \<and> k < i + n then v else d ! k)"
  by (auto simp: nth_append)

lemma bit_at_memset:
  assumes "i + n \<le> length d" "k div 8 < length d" "v = (if V then 0xFF else 0)"
  shows "bit_at (take i d @ replicate n v @ drop (i + n) d) k =
     (if i \<le> k div 8 \<and> k div 8 < i + n then V else bit_at d k)"
proof -
  have "bit (0xFF::u8) (k mod 8)" using bit_first_mask[of 0 "k mod 8"] by (simp add: bitmask_first_byte_def)
  then show ?thesis using assms by (simp add: bit_at_def nth_memset)
qed

definition bv_updated :: "bitmap_view \<Rightarrow> (nat \<Rightarrow> bool) \<Rightarrow> bitmap_view \<Rightarrow> bool" where
  "bv_updated b f b' \<longleftrightarrow> bv_addr b' = bv_addr b \<and> bv_size b' = bv_size b \<and>
     length (bv_data b') = length (bv_data b) \<and>
     (\<forall>i. i div 8 < length (bv_data b) \<longrightarrow> bit_at (bv_data b') i = f i)"

lemma bv_updatedI:
  "length d' = length (bv_data b) \<Longrightarrow> (\<And>i. i div 8 < length (bv_data b) \<Longrightarrow> bit_at d' i = f i) \<Longrightarrow>
    bv_updated b f (b\<lparr>bv_data := d'\<rparr>)"
  by (simp add: bv_updated_def)

lemma start_le_iff: "i div 8 = start div 8 \<Longrightarrow> start \<le> i \<longleftrightarrow> start mod 8 \<le> i mod (8::nat)"
  using div_mod_8[of i] div_mod_8[of start] by (metis nat_add_left_cancel_le)

lemma less_end_iff: "i div 8 = e div 8 \<Longrightarrow> i < e \<longleftrightarrow> i mod 8 < e mod (8::nat)"
  using div_mod_8[of i] div_mod_8[of e] by (metis nat_add_left_cancel_less)

lemma div_less_mono: "i div 8 < j div (8::nat) \<Longrightarrow> i < j"
  by (metis div_le_mono leD linorder_not_less)

lemma byte_bit: "j < 8 \<Longrightarrow> bit (d ! k) j = bit_at d (8 * k + j)"
  by (simp add: bit_at_def)

text \<open>The range lies in one byte.\<close>

lemma set_range_one_byte:
  assumes "start div 8 = e div 8" "e div 8 < length d"
    and "vf \<Longrightarrow> \<forall>i. start \<le> i \<and> i < e \<longrightarrow> bit_at d i \<noteq> V"
  shows "\<exists>d'. set_masked V vf d (start div 8) (bitmask_first_byte ! (start mod 8) AND bitmask_last_byte ! (e mod 8)) = Inr d' \<and>
     length d' = length d \<and> (\<forall>i. bit_at d' i = (if start \<le> i \<and> i < e then V else bit_at d i))"
proof -
  let ?k = "start div 8"
  let ?m = "bitmask_first_byte ! (start mod 8) AND bitmask_last_byte ! (e mod 8)"
  have m: "bit ?m j \<longleftrightarrow> start mod 8 \<le> j \<and> j < e mod 8" for j
    by (auto simp: bit_and_iff bit_first_mask bit_last_mask) 
  have "\<forall>j<8. bit ?m j \<longrightarrow> bit (d ! ?k) j \<noteq> V" if vf
    using assms(1) assms(3)[OF that] start_le_iff[of "8 * ?k + j" start for j] less_end_iff[of "8 * ?k + j" e for j]
    by (auto simp: m byte_bit)
  then have "set_masked V vf d ?k ?m = Inr (d[?k := masked V (d ! ?k) ?m])"
    using assms by (intro set_masked_ok) auto
  moreover have "bit_at (d[?k := masked V (d ! ?k) ?m]) i = (if start \<le> i \<and> i < e then V else bit_at d i)" for i
  proof (cases "i div 8 = ?k")
    case True
    then show ?thesis using assms start_le_iff[of i start] less_end_iff[of i e]
      by (simp add: bit_at_update bit_masked m) (simp add: bit_at_def)
  next
    case False
    then have "\<not> (start \<le> i \<and> i < e)"
      using assms(1) div_le_mono[of start i 8] div_le_mono[of i e 8] by auto
    then show ?thesis using False assms by (auto simp: bit_at_update)
  qed
  ultimately show ?thesis by auto
qed

text \<open>The first and the last byte of a longer range.\<close>

lemma set_range_first_byte:
  assumes "start div 8 < e div 8" "e div 8 < length d"
    and "vf \<Longrightarrow> \<forall>i. start \<le> i \<and> i < e \<longrightarrow> bit_at d i \<noteq> V"
  shows "\<exists>d'. set_masked V vf d (start div 8) (bitmask_first_byte ! (start mod 8)) = Inr d' \<and> length d' = length d \<and>
     (\<forall>i. bit_at d' i = (if start \<le> i \<and> i div 8 = start div 8 then V else bit_at d i))"
proof -
  let ?k = "start div 8" and ?m = "bitmask_first_byte ! (start mod 8)"
  have "\<forall>j<8. bit ?m j \<longrightarrow> bit (d ! ?k) j \<noteq> V" if vf
    using assms(1) assms(3)[OF that] start_le_iff[of "8 * ?k + j" start for j] div_less_mono[of "8 * ?k + j" e for j]
    by (auto simp: bit_first_mask byte_bit[where d = d])
  then have "set_masked V vf d ?k ?m = Inr (d[?k := masked V (d ! ?k) ?m])"
    using assms by (intro set_masked_ok) auto
  moreover have "bit_at (d[?k := masked V (d ! ?k) ?m]) i = (if start \<le> i \<and> i div 8 = ?k then V else bit_at d i)" for i
    using assms start_le_iff[of i start]
    by (cases "i div 8 = ?k") (simp add: bit_at_update bit_masked bit_first_mask, simp add: bit_at_def, simp add: bit_at_update)
  ultimately show ?thesis by auto
qed

lemma set_range_last_byte:
  assumes "start div 8 < e div 8" "e div 8 < length d"
    and "vf \<Longrightarrow> \<forall>i. i div 8 = e div 8 \<and> i < e \<longrightarrow> bit_at d i \<noteq> V"
  shows "\<exists>d'. set_masked V vf d (e div 8) (bitmask_last_byte ! (e mod 8)) = Inr d' \<and> length d' = length d \<and>
     (\<forall>i. bit_at d' i = (if i < e \<and> i div 8 = e div 8 then V else bit_at d i))"
proof -
  let ?k = "e div 8" and ?m = "bitmask_last_byte ! (e mod 8)"
  have "\<forall>j<8. bit ?m j \<longrightarrow> bit (d ! ?k) j \<noteq> V" if vf
    using assms(1) assms(3)[OF that] less_end_iff[of "8 * ?k + j" e for j]
    by (auto simp: bit_last_mask byte_bit[where d = d])
  then have "set_masked V vf d ?k ?m = Inr (d[?k := masked V (d ! ?k) ?m])"
    using assms by (intro set_masked_ok) auto
  moreover have "bit_at (d[?k := masked V (d ! ?k) ?m]) i = (if i < e \<and> i div 8 = ?k then V else bit_at d i)" for i
    using assms less_end_iff[of i e]
    by (cases "i div 8 = ?k") (simp add: bit_at_update bit_masked bit_last_mask, simp add: bit_at_def, simp add: bit_at_update)
  ultimately show ?thesis by auto
qed

lemma set_range_t_unfold:
  assumes "bv_wf b" "start < bv_size b" "start + len \<le> bv_size b" "len \<noteq> 0"
  shows "set_range_t V vf b start len =
    (let e = start + len; f = start div 8; l = e div 8;
         mf = bitmask_first_byte ! (start mod 8); ml = bitmask_last_byte ! (e mod 8) in
     if f = l then and_then (set_masked V vf (bv_data b) f (mf AND ml)) (\<lambda>d. Inr (b\<lparr>bv_data := d\<rparr>))
     else and_then (set_masked V vf (bv_data b) f mf) (\<lambda>d1.
          and_then (set_masked V vf d1 l ml) (\<lambda>d2.
          and_then (if f + 1 < l then memset d2 (f + 1) (if V then 0xFF else 0) (l - (f + 1)) else Inr d2)
            (\<lambda>d3. Inr (b\<lparr>bv_data := d3\<rparr>)))))"
  using assms by (simp add: set_range_t_def bv_wf_def Let_def)

lemma bit_at_range_cases:
  assumes "start div 8 < e div (8::nat)"
  shows "(if start div 8 + 1 \<le> i div 8 \<and> i div 8 < e div 8 then V
      else if i < e \<and> i div 8 = e div 8 then V else if start \<le> i \<and> i div 8 = start div 8 then V else x)
    = (if start \<le> i \<and> i < e then V else x)"
proof -
  consider "i div 8 < start div 8" | "i div 8 = start div 8" | "start div 8 < i div 8 \<and> i div 8 < e div 8"
    | "i div 8 = e div 8" | "e div 8 < i div 8" by linarith
  then show ?thesis
    using assms div_less_mono[of i start] div_less_mono[of start i] div_less_mono[of i e] div_less_mono[of e i]
    by cases auto
qed

theorem set_range_t_spec:
  assumes wf: "bv_wf b" "start < bv_size b" "start + len \<le> bv_size b"
    "(start + len) div 8 < length (bv_data b)"
    and flip: "vf \<Longrightarrow> \<forall>i. start \<le> i \<and> i < start + len \<longrightarrow> bit_at (bv_data b) i \<noteq> V"
  shows "\<exists>b'. set_range_t V vf b start len = Inr b' \<and>
     bv_updated b (\<lambda>i. if start \<le> i \<and> i < start + len then V else bit_at (bv_data b) i) b'"
proof -
  let ?d = "bv_data b" and ?e = "start + len" and ?f = "start div 8" and ?l = "(start + len) div 8"
  have "?f \<le> ?l" by (simp add: div_le_mono)
  then consider "len = 0" | "len \<noteq> 0" "?f = ?l" | "len \<noteq> 0" "?f < ?l" by linarith
  then show ?thesis
  proof cases
    case 1
    then show ?thesis using wf by (auto simp: set_range_t_def bv_wf_def bv_updated_def)
  next
    case 2
    obtain d' where "set_masked V vf ?d ?f (bitmask_first_byte ! (start mod 8) AND bitmask_last_byte ! (?e mod 8)) = Inr d'"
      "length d' = length ?d" "\<forall>i. bit_at d' i = (if start \<le> i \<and> i < ?e then V else bit_at ?d i)"
      using set_range_one_byte[OF 2(2) wf(4) flip] by blast
    then show ?thesis using 2 set_range_t_unfold[OF wf(1-3) 2(1)]
      by (intro exI[of _ "b\<lparr>bv_data := d'\<rparr>"]) (simp add: bv_updated_def)
  next
    case 3
    obtain d1 where d1: "set_masked V vf ?d ?f (bitmask_first_byte ! (start mod 8)) = Inr d1" "length d1 = length ?d"
      and b1: "\<forall>i. bit_at d1 i = (if start \<le> i \<and> i div 8 = ?f then V else bit_at ?d i)"
      using set_range_first_byte[OF 3(2) wf(4) flip] by blast
    have "\<forall>i. i div 8 = ?l \<and> i < ?e \<longrightarrow> bit_at d1 i \<noteq> V" if vf
      using flip[OF that] b1 3(2) div_less_mono[of start] by (metis less_imp_le_nat less_irrefl)
    then obtain d2 where d2: "set_masked V vf d1 ?l (bitmask_last_byte ! (?e mod 8)) = Inr d2" "length d2 = length ?d"
      and b2: "\<forall>i. bit_at d2 i = (if i < ?e \<and> i div 8 = ?l then V else bit_at d1 i)"
      using set_range_last_byte[OF 3(2), of d1 vf V] wf(4) d1(2) by auto
    let ?v = "if V then 0xFF else 0 :: u8"
    let ?d3 = "take (?f + 1) d2 @ replicate (?l - (?f + 1)) ?v @ drop (?f + 1 + (?l - (?f + 1))) d2"
    have "(if ?f + 1 < ?l then memset d2 (?f + 1) ?v (?l - (?f + 1)) else Inr d2) = Inr ?d3"
    proof -
      have "?l = ?f + 1 \<or> ?f + 1 < ?l" using 3(2) by linarith
      then show ?thesis using wf(4) d2(2) by (elim disjE) (simp_all add: memset_ok)
    qed
    then have eq: "set_range_t V vf b start len = Inr (b\<lparr>bv_data := ?d3\<rparr>)"
      unfolding set_range_t_unfold[OF wf(1-3) 3(1)] Let_def using less_imp_neq[OF 3(2)] d1(1) d2(1)
      by (simp only: and_then.simps if_False)
    have len: "length ?d3 = length ?d" using wf(4) 3(2) d2(2) by simp
    have bits: "bit_at ?d3 i = (if start \<le> i \<and> i < ?e then V else bit_at ?d i)" if "i div 8 < length ?d" for i
    proof -
      have "bit_at ?d3 i = (if ?f + 1 \<le> i div 8 \<and> i div 8 < ?l then V else bit_at d2 i)"
        using bit_at_memset[of "?f + 1" "?l - (?f + 1)" d2 i ?v V] that wf(4) 3(2) d2(2) by simp
      then show ?thesis
        unfolding b2[rule_format] b1[rule_format] bit_at_range_cases[OF 3(2)] .
    qed
    show ?thesis using eq bv_updatedI[OF len bits] by blast
  qed
qed

text \<open>The range must end before the last byte of the block: the byte that holds the end is read and
  written even when the mask is empty.\<close>

lemma set_range_touches_end:
  assumes "bv_wf b" "start < bv_size b" "start + len \<le> bv_size b" "len \<noteq> 0"
    "start div 8 < (start + len) div 8" "(start + len) div 8 = length (bv_data b)"
  shows "set_range_t V False b start len = Inl OutOfBounds"
  using assms
  by (simp add: set_range_t_unfold Let_def set_masked_def read_at_def)

end
