(* ===== verification/AK_BitmapSearch.thy ===== *)
theory AK_BitmapSearch
  imports AK_Bitmap
begin

text \<open>
  The searches of \<^verbatim>\<open>AK/BitmapView.h\<close> (lines 173 to 439): ranges of unset bits (next range, first
  fit, best fit, longest range) and single bits. The word-at-a-time scan is related to the bits
  of the view by one invariant, \<open>scan_inv\<close>; from it the search finds the first long enough run
  and finds one whenever there is one.
\<close>

subsection \<open>Searching for ranges of unset bits\<close>

definition count_trailing_zeroes_32 :: "u32 \<Rightarrow> nat" where
  "count_trailing_zeroes_32 val =
     (case find (\<lambda>i. drop_bit i val AND 1 \<noteq> 0) [0..<32] of Some i \<Rightarrow> i | None \<Rightarrow> 0)"

lemma ctz_Some:
  assumes "v \<noteq> 0"
  shows "count_trailing_zeroes_32 v < 32" "bit v (count_trailing_zeroes_32 v)"
    "j < count_trailing_zeroes_32 v \<Longrightarrow> \<not> bit v j"
proof -
  have b: "drop_bit i v AND 1 \<noteq> 0 \<longleftrightarrow> bit v i" for i
    by (simp add: bit_iff_odd_drop_bit and_one_eq odd_iff_mod_2_eq_one)
  obtain k where "bit v k" using assms by (metis bit_eqI bit_0_eq bot_apply bot_bool_def)
  then have "k < 32" "bit v k" using bit_imp_le_length[of v k] by auto
  then obtain i where i: "find (bit v) [0..<32] = Some i"
    by (metis atLeast0LessThan find_None_iff2 lessThan_iff not_None_eq set_upt)
  then have "count_trailing_zeroes_32 v = i" by (simp add: count_trailing_zeroes_32_def b)
  then show "count_trailing_zeroes_32 v < 32" "bit v (count_trailing_zeroes_32 v)"
    "j < count_trailing_zeroes_32 v \<Longrightarrow> \<not> bit v j"
    using i by (auto simp: find_Some_iff)
qed

lemma ctz_not_pos:
  assumes "odd (w::u32)" "NOT w \<noteq> 0"
  shows "0 < count_trailing_zeroes_32 (NOT w)"
proof -
  from ctz_Some(2)[OF assms(2)] have "\<not> bit w (count_trailing_zeroes_32 (NOT w))"
    by (simp add: bit_not_iff)
  then show "0 < count_trailing_zeroes_32 (NOT w)" using assms(1) by (metis bit_0 not_gr_zero)
qed

lemma ctz_shift_odd: "w \<noteq> 0 \<Longrightarrow> odd (drop_bit (count_trailing_zeroes_32 w) w)"
  using ctz_Some(2) by (simp add: bit_iff_odd_drop_bit)

text \<open>
  The inner \<open>while (viewed_bits < 32)\<close> loop over one 32-bit bucket. \<open>Inl\<close> is a \<open>return\<close> out of
  the search, \<open>Inr\<close> the values of \<open>*start_of_free_chunks\<close> and \<open>free_chunks\<close> after the loop.
\<close>

function scan_bucket :: "nat \<Rightarrow> nat \<Rightarrow> nat \<Rightarrow> u32 \<Rightarrow> nat \<Rightarrow> nat \<Rightarrow> nat
    \<Rightarrow> ((nat \<times> nat) + (nat \<times> nat)) result" where
  "scan_bucket base min_length max_length bucket viewed_bits start free_chunks =
     (if viewed_bits < 32 then
        (if bucket = 0 then
           scan_bucket base min_length max_length bucket 32
             (if free_chunks = 0 then base + viewed_bits else start) (free_chunks + (32 - viewed_bits))
         else
           let trailing_zeroes = count_trailing_zeroes_32 bucket;
               bucket1 = drop_bit trailing_zeroes bucket;
               start1 = (if free_chunks = 0 then base + viewed_bits else start);
               free1 = free_chunks + trailing_zeroes;
               viewed1 = viewed_bits + trailing_zeroes in
           if free1 \<ge> min_length then Inr (Inl (start1, min free1 max_length))
           else if NOT bucket1 = 0 then Inl Undefined
           else let trailing_ones = count_trailing_zeroes_32 (NOT bucket1) in
             scan_bucket base min_length max_length (drop_bit trailing_ones bucket1)
               (viewed1 + trailing_ones) start1 0)
      else Inr (Inr (start, free_chunks)))"
  by pat_completeness auto
termination
proof (relation "measure (\<lambda>(base, mn, mx, w, v, s, f). 32 - v)", goal_cases)
  case (3 base mn mx w v s f)
  then have "0 < count_trailing_zeroes_32 (NOT (drop_bit (count_trailing_zeroes_32 w) w))"
    using ctz_not_pos[OF ctz_shift_odd[of w]] by simp
  then show ?case using 3 by simp
qed auto

function scan_buckets :: "u8 list \<Rightarrow> nat \<Rightarrow> nat \<Rightarrow> nat \<Rightarrow> nat \<Rightarrow> nat \<Rightarrow> nat \<Rightarrow> nat
    \<Rightarrow> ((nat \<times> nat) + (nat \<times> nat)) result" where
  "scan_buckets d bucket_count min_length max_length bucket_index start_bucket_bit start free_chunks =
     (if bucket_index < bucket_count then
        and_then (load32 d (4 * bucket_index)) (\<lambda>bucket.
        if bucket = 0xffffffff then
          (if free_chunks \<ge> min_length then Inr (Inl (start, min free_chunks max_length))
           else scan_buckets d bucket_count min_length max_length (bucket_index + 1) 0 start 0)
        else if bucket = 0 then
          (let start1 = (if free_chunks = 0 then bucket_index * 32 else start);
               free1 = free_chunks + 32 in
           if free1 \<ge> max_length then Inr (Inl (start1, max_length))
           else scan_buckets d bucket_count min_length max_length (bucket_index + 1) 0 start1 free1)
        else
          and_then (scan_bucket (bucket_index * 32) min_length max_length
              (drop_bit start_bucket_bit bucket) start_bucket_bit start free_chunks) (\<lambda>r.
          case r of Inl ret \<Rightarrow> Inr (Inl ret)
          | Inr (start1, free1) \<Rightarrow>
              scan_buckets d bucket_count min_length max_length (bucket_index + 1) 0 start1 free1))
      else Inr (Inr (start, free_chunks)))"
  by pat_completeness auto
termination
  by (relation "measure (\<lambda>(d, n, mn, mx, k, sb, s, f). n - k)") auto

function scan_trailing :: "bitmap_view \<Rightarrow> nat \<Rightarrow> nat \<Rightarrow> nat \<Rightarrow> nat \<Rightarrow> nat \<Rightarrow> nat \<Rightarrow> nat
    \<Rightarrow> (nat \<times> nat option) result" where
  "scan_trailing b first_trailing_bit trailing_bits min_length max_length i start free_chunks =
     (if i < trailing_bits then
        and_then (bv_get b (first_trailing_bit + i)) (\<lambda>bt.
        if \<not> bt then
          (let start1 = (if free_chunks = 0 then first_trailing_bit + i else start);
               free1 = free_chunks + 1 in
           if free1 \<ge> min_length then Inr (start1, Some (min free1 max_length))
           else scan_trailing b first_trailing_bit trailing_bits min_length max_length (i + 1) start1 free1)
        else scan_trailing b first_trailing_bit trailing_bits min_length max_length (i + 1) start 0)
      else Inr (start, None))"
  by pat_completeness auto
termination
  by (relation "measure (\<lambda>(b, ft, n, mn, mx, i, s, f). n - i)") auto

text \<open>The reference parameter \<open>from\<close> is an argument and the first component of the result.\<close>

definition find_next_range_of_unset_bits ::
    "bitmap_view \<Rightarrow> nat \<Rightarrow> nat \<Rightarrow> nat \<Rightarrow> (nat \<times> nat option) result" where
  "find_next_range_of_unset_bits b from_bit min_length max_length =
     (if min_length > max_length then Inr (from_bit, None)
      else
        and_then (scan_buckets (bv_data b) (bv_size b div 32) min_length max_length
            (from_bit div 32) (from_bit mod 32) from_bit 0) (\<lambda>r.
        case r of Inl (start, len) \<Rightarrow> Inr (start, Some len)
        | Inr (start, free_chunks) \<Rightarrow>
            if free_chunks < min_length
            then scan_trailing b (bv_size b div 32 * 32) (bv_size b mod 32) min_length max_length
                   0 start free_chunks
            else Inr (start, Some (min free_chunks max_length))))"

definition find_first_fit :: "bitmap_view \<Rightarrow> nat \<Rightarrow> nat option result" where
  "find_first_fit b minimum_length =
     and_then (find_next_range_of_unset_bits b 0 minimum_length minimum_length) (\<lambda>(start, len).
     Inr (if len \<noteq> None then Some start else None))"

declare scan_bucket.simps [simp del] scan_buckets.simps [simp del] scan_trailing.simps [simp del]

subsection \<open>The scan invariant\<close>

definition free_run :: "(nat \<Rightarrow> bool) \<Rightarrow> nat \<Rightarrow> nat \<Rightarrow> bool" where
  "free_run P s n \<longleftrightarrow> (\<forall>i. s \<le> i \<and> i < s + n \<longrightarrow> \<not> P i)"

lemma free_run_0 [simp]: "free_run P s 0"
  by (auto simp: free_run_def)

lemma free_run_offset: "(\<And>j. j < n \<Longrightarrow> \<not> P (a + j)) \<Longrightarrow> free_run P a n"
  unfolding free_run_def by (metis le_Suc_ex nat_add_left_cancel_less)

lemma free_run_prefix: "free_run P s n \<Longrightarrow> k \<le> n \<Longrightarrow> free_run P s k"
  by (simp add: free_run_def)

definition scan_inv :: "(nat \<Rightarrow> bool) \<Rightarrow> nat \<Rightarrow> nat \<Rightarrow> nat \<Rightarrow> nat \<Rightarrow> nat \<Rightarrow> nat \<Rightarrow> bool" where
  "scan_inv P lb lo m s f p \<longleftrightarrow> f \<le> p \<and> lb \<le> p - f \<and> (f > 0 \<longrightarrow> s + f = p) \<and> free_run P (p - f) f \<and>
     (p - f \<le> lo \<or> P (p - f - 1)) \<and> (\<forall>s'\<ge>lo. s' + m \<le> p - f \<longrightarrow> \<not> free_run P s' m)"

lemma scan_inv_free:
  assumes "scan_inv P lb lo m s f p" "free_run P p t"
  shows "scan_inv P lb lo m (if f = 0 then p else s) (f + t) (p + t)"
  using assms unfolding scan_inv_def free_run_def
  by (auto simp: ) (metis add_diff_inverse_nat le_add_diff_inverse2 linorder_not_less)+

lemma scan_inv_before:
  assumes "scan_inv P lb lo m s f p" "free_run P s' m" "lo \<le> s'" "0 < m"
  shows "p - f \<le> s'"
proof (rule ccontr)
  assume "\<not> p - f \<le> s'"
  then have lt: "s' < p - f" by simp
  then have "P (p - f - 1)" "\<not> s' + m \<le> p - f" using assms by (auto simp: scan_inv_def)
  moreover have "s' \<le> p - f - 1" using lt by simp
  ultimately show False using assms(2) unfolding free_run_def
    by (metis add_diff_inverse_nat less_imp_diff_less linorder_not_less lt plus_1_eq_Suc not_less_eq)
qed

lemma scan_inv_set:
  assumes "scan_inv P lb lo m s f p" "f < m" "0 < t" "\<And>i. p \<le> i \<Longrightarrow> i < p + t \<Longrightarrow> P i"
  shows "scan_inv P lb lo m s' 0 (p + t)"
proof -
  have "\<not> free_run P u m" if "lo \<le> u" "u + m \<le> p + t" for u
  proof
    assume u: "free_run P u m"
    then have "p - f \<le> u" using scan_inv_before[OF assms(1)] that assms(2) by simp
    then have "p \<le> u + m - 1" "u + m - 1 < p + t" using assms(1,2) that by (auto simp: scan_inv_def)
    then have "P (u + m - 1)" by (rule assms(4))
    moreover have "\<not> P (u + m - 1)" using u assms(2) by (auto simp: free_run_def)
    ultimately show False by simp
  qed
  moreover have "P (p + t - 1)" using assms(3,4) by simp
  moreover have "lb \<le> p + t" using assms(1) by (auto simp: scan_inv_def)
  ultimately show ?thesis by (simp add: scan_inv_def)
qed

text \<open>
  What a \<open>return\<close> of the search says: a run of at least \<open>m\<close> unset bits ends at \<open>p\<close>, it is the
  first one at or after \<open>lo\<close>, and it is cut short only by \<open>mx\<close>, a set bit or the last whole
  bucket.
\<close>

definition scan_ret :: "(nat \<Rightarrow> bool) \<Rightarrow> nat \<Rightarrow> nat \<Rightarrow> nat \<Rightarrow> nat \<Rightarrow> nat \<Rightarrow> nat \<Rightarrow> nat \<Rightarrow> bool" where
  "scan_ret P lb lo m mx sz s len \<longleftrightarrow> (\<exists>f p. scan_inv P lb lo m s f p \<and> m \<le> f \<and> p \<le> sz \<and>
     len = min f mx \<and> (mx \<le> f \<or> p < sz \<and> P p \<or> sz div 32 * 32 \<le> p))"

lemma scan_bucket_spec:
  assumes "scan_inv P lb lo m s f (base + v)" "0 < m" "v \<le> 32" "base + 32 \<le> sz"
    "\<And>j. j < 32 - v \<Longrightarrow> bit w j = P (base + v + j)" "\<And>j. 32 - v \<le> j \<Longrightarrow> \<not> bit w j"
    "v = 0 \<Longrightarrow> NOT w \<noteq> 0"
  shows "\<exists>r. scan_bucket base m mx w v s f = Inr r \<and>
     (case r of Inl (s', len) \<Rightarrow> scan_ret P lb lo m mx sz s' len
      | Inr (s', f') \<Rightarrow> scan_inv P lb lo m s' f' (base + 32))"
  using assms
proof (induction base m mx w v s f rule: scan_bucket.induct)
  case (1 base m mx w v s f)
  consider "v = 32" | "v < 32" "w = 0" | "v < 32" "w \<noteq> 0" using 1(5) by linarith
  then show ?case
  proof cases
    case 1
    then show ?thesis using "1.prems" by (subst scan_bucket.simps) simp
  next
    case 2
    have "free_run P (base + v) (32 - v)"
      using "1.prems"(5) 2 by (intro free_run_offset) simp
    from scan_inv_free[OF "1.prems"(1) this]
    have "scan_inv P lb lo m (if f = 0 then base + v else s) (f + (32 - v)) (base + 32)"
      using 2 by (simp add: add.assoc)
    then show ?thesis using 2
      by (subst scan_bucket.simps, subst scan_bucket.simps) simp
  next
    case 3
    define t where "t = count_trailing_zeroes_32 w"
    define w1 where "w1 = drop_bit t w"
    define s1 where "s1 = (if f = 0 then base + v else s)"
    have t: "bit w t" "\<And>j. j < t \<Longrightarrow> \<not> bit w j" using ctz_Some[OF 3(2)] by (auto simp: t_def)
    then have tv: "t < 32 - v" using "1.prems"(6) by (metis linorder_not_less)
    have "free_run P (base + v) t"
      using "1.prems"(5) t(2) tv by (intro free_run_offset) simp
    from scan_inv_free[OF "1.prems"(1) this]
    have inv1: "scan_inv P lb lo m s1 (f + t) (base + v + t)" by (simp add: s1_def)
    have Pt: "P (base + v + t)" using "1.prems"(5)[OF tv] t(1) by simp
    show ?thesis
    proof (cases "f + t \<ge> m")
      case True
      have "scan_ret P lb lo m mx sz s1 (min (f + t) mx)"
        unfolding scan_ret_def using inv1 True Pt tv "1.prems"(4) by (intro exI[of _ "f + t"] exI[of _ "base + v + t"]) auto
      then show ?thesis using 3 True
        by (subst scan_bucket.simps) (simp add: Let_def t_def[symmetric] s1_def[symmetric])
    next
      case False
      have b1: "bit w1 j = bit w (t + j)" for j by (simp add: w1_def bit_drop_bit_eq add.commute)
      have nz: "NOT w1 \<noteq> 0"
      proof (cases "v + t = 0")
        case True then show ?thesis using "1.prems"(7) by (simp add: w1_def)
      next
        case False
        then have "32 - v \<le> t + 31" by linarith
        then have "\<not> bit w1 31" using "1.prems"(6)[of "t + 31"] by (simp add: b1)
        then have "bit (NOT w1) 31" by (simp add: bit_not_iff)
        then show ?thesis by (metis bit_0_eq bot_apply bot_bool_def)
      qed
      define u where "u = count_trailing_zeroes_32 (NOT w1)"
      have odd1: "odd w1" using ctz_shift_odd[OF 3(2)] by (simp add: w1_def t_def)
      have u: "0 < u" "\<not> bit w1 u" "\<And>j. j < u \<Longrightarrow> bit w1 j" "u < 32"
        using ctz_not_pos[OF odd1 nz] ctz_Some[OF nz] by (auto simp: u_def bit_not_iff)
      have uv: "u \<le> 32 - (v + t)"
      proof (rule ccontr)
        assume "\<not> u \<le> 32 - (v + t)"
        then have "bit w1 (32 - (v + t))" using u(3) by simp
        then show False using "1.prems"(6)[of "t + (32 - (v + t))"] tv by (simp add: b1)
      qed
      have ones: "P i" if "base + v + t \<le> i" "i < base + v + t + u" for i
        using that u(3)[of "i - (base + v + t)"] "1.prems"(5)[of "i - (base + v)"] uv by (simp add: b1)
      from scan_inv_set[OF inv1 _ u(1) ones, of s1] False
      have inv2: "scan_inv P lb lo m s1 0 (base + (v + t + u))" by (simp add: add.assoc)
      have "\<exists>r. scan_bucket base m mx (drop_bit u w1) (v + t + u) s1 0 = Inr r \<and>
         (case r of Inl (s', len) \<Rightarrow> scan_ret P lb lo m mx sz s' len
          | Inr (s', f') \<Rightarrow> scan_inv P lb lo m s' f' (base + 32))"
      proof (rule "1.IH"(2)[OF 3 t_def w1_def s1_def refl refl _ nz u_def])
        show "\<not> m \<le> f + t" by (fact False)
        show "bit (drop_bit u w1) j = P (base + (v + t + u) + j)" if "j < 32 - (v + t + u)" for j
          using that "1.prems"(5)[of "t + u + j"] by (simp add: bit_drop_bit_eq b1 algebra_simps)
        show "\<not> bit (drop_bit u w1) j" if "32 - (v + t + u) \<le> j" for j
          using that "1.prems"(6)[of "t + u + j"] by (simp add: bit_drop_bit_eq b1 algebra_simps)
      qed (use inv2 "1.prems"(2,4) uv tv u(1) in auto)
      then show ?thesis using 3 False nz
        by (subst scan_bucket.simps)
          (simp add: Let_def t_def[symmetric] s1_def[symmetric] w1_def[symmetric] u_def[symmetric])
    qed
  qed
qed

lemma scan_inv_start: "p \<le> lo \<Longrightarrow> lb \<le> p \<Longrightarrow> 0 < m \<Longrightarrow> scan_inv P lb lo m s 0 p"
  by (auto simp: scan_inv_def free_run_def)

lemma scan_inv_whole:
  assumes "base \<le> lo" "lb \<le> base" "0 < m" "free_run P base n"
  shows "scan_inv P lb lo m base n (base + n)"
  using assms by (auto simp: scan_inv_def)

lemma load32_zero: "(\<And>j. j < 32 \<Longrightarrow> bit (w::u32) j = P (base + j)) \<Longrightarrow> w = 0 \<Longrightarrow> free_run P base 32"
  by (rule free_run_offset) (metis bit_0_eq bot_apply bot_bool_def)

lemma load32_ones:
  assumes "\<And>j. j < 32 \<Longrightarrow> bit (w::u32) j = P (base + j)" "w = 0xffffffff" "base \<le> i" "i < base + 32"
  shows "P i"
proof -
  have "w = mask 32" using assms(2) by (simp add: mask_eq_exp_minus_1)
  then have "bit w (i - base)" using assms(3,4) by (simp add: bit_mask_iff)
  then show ?thesis using assms(1)[of "i - base"] assms(3,4) by simp
qed

lemma not_all_ones: "(w::u32) \<noteq> 0xffffffff \<Longrightarrow> NOT w \<noteq> 0"
proof (rule contrapos_nn)
  assume "NOT w = 0"
  then have "NOT (NOT w) = NOT 0" by simp
  then show "w = 0xffffffff" by simp
qed

text \<open>The three ways through one bucket: full, empty, mixed.\<close>

lemma bucket_full:
  assumes "scan_inv P lb lo m s f (k * 32 + sb)" "0 < m" "sb < 32" "0 < sb \<Longrightarrow> f = 0" "k * 32 + 32 \<le> sz"
    "\<And>i. k * 32 \<le> i \<Longrightarrow> i < k * 32 + 32 \<Longrightarrow> P i"
  shows "m \<le> f \<Longrightarrow> scan_ret P lb lo m mx sz s (min f mx)"
    and "f < m \<Longrightarrow> scan_inv P lb lo m s 0 ((k + 1) * 32)"
proof -
  assume "m \<le> f"
  then have "sb = 0" using assms(2,4) by (cases sb) auto
  then show "scan_ret P lb lo m mx sz s (min f mx)" unfolding scan_ret_def
    using assms \<open>m \<le> f\<close> by (intro exI[of _ f] exI[of _ "k * 32"]) auto
next
  assume "f < m"
  then show "scan_inv P lb lo m s 0 ((k + 1) * 32)"
    using scan_inv_set[OF assms(1), of "32 - sb" s] assms(3,6) by (simp add: add.commute)
qed

lemma bucket_empty:
  assumes "scan_inv P lb lo m s f (k * 32 + sb)" "0 < m" "sb < 32" "0 < sb \<Longrightarrow> lo = k * 32 + sb \<and> f = 0 \<and> lb \<le> k * 32"
    "free_run P (k * 32) 32"
  shows "scan_inv P lb lo m (if f = 0 then k * 32 else s) (f + 32) ((k + 1) * 32)"
proof (cases "sb = 0")
  case True
  then show ?thesis using scan_inv_free[of P lb lo m s f "k * 32" 32] assms by (simp add: add.commute)
next
  case False
  then show ?thesis using scan_inv_whole[of "k * 32" lo lb m P 32] assms by (simp add: add.commute)
qed

lemma scan_buckets_spec:
  assumes "0 < m" "m \<le> mx" "4 * n \<le> length d" "n = sz div 32" "sb < 32"
    "scan_inv (bit_at d) lb lo m s f (k * 32 + sb)" "0 < sb \<Longrightarrow> lo = k * 32 + sb \<and> f = 0 \<and> lb \<le> k * 32"
    "n < k \<Longrightarrow> f = 0 \<and> n * 32 \<le> lo" "lb \<le> n * 32"
  shows "\<exists>r. scan_buckets d n m mx k sb s f = Inr r \<and>
     (case r of Inl (s', len) \<Rightarrow> scan_ret (bit_at d) lb lo m mx sz s' len
      | Inr (s', f') \<Rightarrow> scan_inv (bit_at d) lb lo m s' f' (n * 32))"
  using assms
proof (induction d n m mx k sb s f rule: scan_buckets.induct)
  case (1 d n m mx k sb s f)
  note IH = "1.IH"
  let ?P = "bit_at d" and ?goal = "\<lambda>r. case r of Inl (s', len) \<Rightarrow> scan_ret (bit_at d) lb lo m mx sz s' len
      | Inr (s', f') \<Rightarrow> scan_inv (bit_at d) lb lo m s' f' (n * 32)"
  show ?case
  proof (cases "k < n")
    case False
    have "scan_inv ?P lb lo m s f (n * 32)"
    proof (cases "k = n \<and> sb = 0")
      case True then show ?thesis using "1.prems"(6) by simp
    next
      case nz: False
      then have "f = 0" "n * 32 \<le> lo" using False "1.prems"(7,8) by (cases "k = n"; auto)+
      then show ?thesis using "1.prems"(1,9) by (simp add: scan_inv_start)
    qed
    then show ?thesis using False by (subst scan_buckets.simps) simp
  next
    case True
    then have "4 * k + 4 \<le> length d" using "1.prems"(3) by simp
    then obtain w where w: "load32 d (4 * k) = Inr w" "\<And>j. j < 32 \<Longrightarrow> bit w j = ?P (8 * (4 * k) + j)"
      using load32_in by blast
    then have wb: "\<And>j. j < 32 \<Longrightarrow> bit w j = ?P (k * 32 + j)" by (simp add: mult.commute)
    have ksz: "k * 32 + 32 \<le> sz" using True "1.prems"(4) by (simp add: less_eq_div_iff_mult_less_eq) 
    consider "w = 0xffffffff" | "w = 0" | "w \<noteq> 0xffffffff" "w \<noteq> 0" by blast
    then show ?thesis
    proof cases
      case full: 1
      have P: "\<And>i. k * 32 \<le> i \<Longrightarrow> i < k * 32 + 32 \<Longrightarrow> ?P i" using load32_ones[OF wb full] by blast
      note bf = bucket_full[OF "1.prems"(6,1,5) _ ksz P] 
      show ?thesis
      proof (cases "m \<le> f")
        case mf: True
        then show ?thesis using bf(1) "1.prems"(7) True w(1) full by (subst scan_buckets.simps) simp
      next
        case mf: False
        have "\<exists>r. scan_buckets d n m mx (k + 1) 0 s 0 = Inr r \<and> ?goal r"
          using bf(2) mf "1.prems" True by (intro IH(1)[OF True w(1) full mf]) auto
        then show ?thesis using mf True w(1) full by (subst scan_buckets.simps) simp
      qed
    next
      case empty: 2
      let ?s = "if f = 0 then k * 32 else s"
      have inv: "scan_inv ?P lb lo m ?s (f + 32) ((k + 1) * 32)"
        using "1.prems" load32_zero[OF wb empty] by (intro bucket_empty) auto
      show ?thesis
      proof (cases "mx \<le> f + 32")
        case mf: True
        have "scan_ret ?P lb lo m mx sz ?s mx" unfolding scan_ret_def
          using inv mf ksz "1.prems"(2) by (intro exI[of _ "f + 32"] exI[of _ "(k + 1) * 32"]) auto
        then show ?thesis using mf True w(1) empty by (subst scan_buckets.simps) (simp add: Let_def)
      next
        case mf: False
        have "\<exists>r. scan_buckets d n m mx (k + 1) 0 ?s (f + 32) = Inr r \<and> ?goal r"
          using inv mf "1.prems" True empty
          by (intro IH(2)[OF True w(1) _ empty refl refl mf]) auto
        then show ?thesis using mf True w(1) empty by (subst scan_buckets.simps) (simp add: Let_def)
      qed
    next
      case mixed: 3
      have "\<exists>r. scan_bucket (k * 32) m mx (drop_bit sb w) sb s f = Inr r \<and>
         (case r of Inl (s', len) \<Rightarrow> scan_ret ?P lb lo m mx sz s' len
          | Inr (s', f') \<Rightarrow> scan_inv ?P lb lo m s' f' (k * 32 + 32))"
      proof (rule scan_bucket_spec)
        show "\<not> bit (drop_bit sb w) j" if "32 - sb \<le> j" for j
          using that bit_imp_le_length[of w "sb + j"] by (auto simp: bit_drop_bit_eq)
        show "bit (drop_bit sb w) j = ?P (k * 32 + sb + j)" if "j < 32 - sb" for j
          using that wb[of "sb + j"] by (simp add: bit_drop_bit_eq add.assoc)
      qed (use "1.prems" ksz not_all_ones[OF mixed(1)] in auto)
      then obtain r where r: "scan_bucket (k * 32) m mx (drop_bit sb w) sb s f = Inr r"
        "case r of Inl (s', len) \<Rightarrow> scan_ret ?P lb lo m mx sz s' len
          | Inr (s', f') \<Rightarrow> scan_inv ?P lb lo m s' f' (k * 32 + 32)" by blast
      show ?thesis
      proof (cases r)
        case (Inl ret)
        then show ?thesis using r True w(1) mixed by (subst scan_buckets.simps) simp
      next
        case (Inr sf)
        obtain s' f' where sf: "sf = (s', f')" by (cases sf)
        have "\<exists>r. scan_buckets d n m mx (k + 1) 0 s' f' = Inr r \<and> ?goal r"
          using r(2) Inr sf "1.prems" True
          by (intro IH(3)[OF True w(1) mixed r(1) Inr[unfolded sf] refl]) (auto simp: add.commute)
        then show ?thesis using Inr sf r(1) True w(1) mixed by (subst scan_buckets.simps) simp
      qed
    qed
  qed
qed

lemma scan_trailing_spec:
  assumes "bv_wf b" "ft + n = bv_size b" "ft = bv_size b div 32 * 32" "0 < m" "m \<le> mx" "i \<le> n" "f < m"
    "scan_inv (bit_at (bv_data b)) lb lo m s f (ft + i)"
  shows "\<exists>s' r. scan_trailing b ft n m mx i s f = Inr (s', r) \<and>
     (case r of Some len \<Rightarrow> scan_ret (bit_at (bv_data b)) lb lo m mx (bv_size b) s' len
      | None \<Rightarrow> (\<forall>u\<ge>lo. u + m \<le> bv_size b \<longrightarrow> \<not> free_run (bit_at (bv_data b)) u m))"
  using assms
proof (induction b ft n m mx i s f rule: scan_trailing.induct)
  case (1 b ft n m mx i s f)
  let ?P = "bit_at (bv_data b)"
  show ?case
  proof (cases "i < n")
    case False
    then have inv: "scan_inv ?P lb lo m s f (bv_size b)" using "1.prems" by simp
    have "\<not> free_run ?P u m" if "lo \<le> u" "u + m \<le> bv_size b" for u
      using scan_inv_before[OF inv, of u] that "1.prems"(4,7) by linarith
    then show ?thesis using False by (subst scan_trailing.simps) simp
  next
    case True
    then have get: "bv_get b (ft + i) = Inr (?P (ft + i))" using "1.prems"(1,2) by (intro bv_get_spec) auto
    show ?thesis
    proof (cases "?P (ft + i)")
      case set: True
      have "?P j" if "ft + i \<le> j" "j < ft + i + 1" for j
        using that set by (metis Suc_eq_plus1 le_antisym less_Suc_eq_le)
      then have "scan_inv ?P lb lo m s 0 (ft + (i + 1))"
        using scan_inv_set[OF "1.prems"(8,7) zero_less_one] by (simp add: add.assoc)
      then show ?thesis using "1.IH"(2)[OF True get] "1.prems" set True get
        by (subst scan_trailing.simps) simp
    next
      case unset: False
      let ?s = "if f = 0 then ft + i else s"
      have "free_run ?P (ft + i) 1" using unset by (auto simp: free_run_def le_less_Suc_eq)
      then have inv: "scan_inv ?P lb lo m ?s (f + 1) (ft + (i + 1))"
        using scan_inv_free[OF "1.prems"(8)] by fastforce
      show ?thesis
      proof (cases "m \<le> f + 1")
        case mf: True
        have "scan_ret ?P lb lo m mx (bv_size b) ?s (min (f + 1) mx)" unfolding scan_ret_def
          using inv mf "1.prems" True by (intro exI[of _ "f + 1"] exI[of _ "ft + (i + 1)"]) auto
        then show ?thesis using mf True get unset by (subst scan_trailing.simps) (simp add: Let_def)
      next
        case mf: False
        then show ?thesis using "1.IH"(1)[OF True get _ refl refl mf] inv "1.prems" unset True get
          by (subst scan_trailing.simps) (simp add: Let_def)
      qed
    qed
  qed
qed

lemma bv_wf_words: "bv_wf b \<Longrightarrow> 4 * (bv_size b div 32) \<le> length (bv_data b)"
  unfolding bv_wf_def size_in_bytes_def ceil_div_def Let_def by (auto split: if_splits)

theorem find_next_spec:
  assumes wf: "bv_wf b" and m: "0 < m"
  shows "\<exists>s r. find_next_range_of_unset_bits b lo m mx = Inr (s, r) \<and>
     (case r of Some len \<Rightarrow> m \<le> mx \<and> scan_ret (bit_at (bv_data b)) (min (lo div 32) (bv_size b div 32) * 32) lo m mx (bv_size b) s len
      | None \<Rightarrow> mx < m \<or> (\<forall>u\<ge>lo. u + m \<le> bv_size b \<longrightarrow> \<not> free_run (bit_at (bv_data b)) u m))"
proof (cases "mx < m")
  case True
  then show ?thesis by (simp add: find_next_range_of_unset_bits_def)
next
  case False
  let ?P = "bit_at (bv_data b)" and ?n = "bv_size b div 32" and ?lb = "min (lo div 32) (bv_size b div 32) * 32"
  have "\<exists>r. scan_buckets (bv_data b) ?n m mx (lo div 32) (lo mod 32) lo 0 = Inr r \<and>
     (case r of Inl (s', len) \<Rightarrow> scan_ret ?P ?lb lo m mx (bv_size b) s' len
      | Inr (s', f') \<Rightarrow> scan_inv ?P ?lb lo m s' f' (?n * 32))"
  proof (rule scan_buckets_spec)
    show "scan_inv ?P ?lb lo m lo 0 (lo div 32 * 32 + lo mod 32)" using m by (simp add: scan_inv_start)
    show "0 = (0::nat) \<and> ?n * 32 \<le> lo" if "?n < lo div 32"
      using that by (metis less_imp_le_nat less_eq_div_iff_mult_less_eq zero_less_numeral)
  qed (use False m bv_wf_words[OF wf] in auto)
  then obtain r where r: "scan_buckets (bv_data b) ?n m mx (lo div 32) (lo mod 32) lo 0 = Inr r"
     "case r of Inl (s', len) \<Rightarrow> scan_ret ?P ?lb lo m mx (bv_size b) s' len
      | Inr (s', f') \<Rightarrow> scan_inv ?P ?lb lo m s' f' (?n * 32)" by blast
  show ?thesis
  proof (cases r)
    case (Inl ret)
    then show ?thesis using r False by (cases ret) (simp add: find_next_range_of_unset_bits_def)
  next
    case (Inr sf)
    obtain s f where sf: "sf = (s, f)" by (cases sf)
    show ?thesis
    proof (cases "f < m")
      case True
      obtain s' r' where "scan_trailing b (?n * 32) (bv_size b mod 32) m mx 0 s f = Inr (s', r')"
        "case r' of Some len \<Rightarrow> scan_ret ?P ?lb lo m mx (bv_size b) s' len
          | None \<Rightarrow> (\<forall>u\<ge>lo. u + m \<le> bv_size b \<longrightarrow> \<not> free_run ?P u m)"
        using scan_trailing_spec[OF wf _ refl m, of "bv_size b mod 32" mx 0 f ?lb lo s] False True r(2) Inr sf
        by auto
      then show ?thesis using True False r(1) Inr sf
        by (cases r') (simp_all add: find_next_range_of_unset_bits_def)
    next
      case mf: False
      have "scan_ret ?P ?lb lo m mx (bv_size b) s (min f mx)" unfolding scan_ret_def
        using r(2) Inr sf mf by (intro exI[of _ f] exI[of _ "?n * 32"]) auto
      then show ?thesis using mf False r(1) Inr sf by (simp add: find_next_range_of_unset_bits_def)
    qed
  qed
qed

lemma scan_retD:
  assumes "scan_ret P lb lo m mx sz s len" "0 < m" "m \<le> mx"
  shows "free_run P s len" "s + len \<le> sz" "lb \<le> s" "m \<le> len" "len \<le> mx"
    "\<And>u. lo \<le> u \<Longrightarrow> free_run P u m \<Longrightarrow> s \<le> u"
proof -
  obtain f p where fp: "scan_inv P lb lo m s f p" "m \<le> f" "p \<le> sz" "len = min f mx"
    using assms(1) by (auto simp: scan_ret_def)
  then have "s + f = p" "free_run P s f" "lb \<le> s" using assms(2) by (auto simp: scan_inv_def)
  then show "free_run P s len" "s + len \<le> sz" "lb \<le> s" "m \<le> len" "len \<le> mx"
    using fp assms(3) by (auto intro: free_run_prefix)
  show "s \<le> u" if "lo \<le> u" "free_run P u m" for u
    using scan_inv_before[OF fp(1) that(2,1) assms(2)] \<open>s + f = p\<close> by simp
qed

subsection \<open>First fit, longest range, best fit\<close>

text \<open>
  The \<open>while (true)\<close> loops of \<open>find_longest_range_of_unset_bits\<close> and \<open>find_best_fit\<close>. \<open>None\<close> is a
  loop that does not end.
\<close>

partial_function (option) find_longest_loop ::
    "bitmap_view \<Rightarrow> nat \<Rightarrow> nat \<Rightarrow> nat \<Rightarrow> nat \<Rightarrow> (nat \<times> nat) result option" where
  "find_longest_loop b max_length start max_region_start max_region_size =
     (case find_next_range_of_unset_bits b start (max_region_size + 1) max_length of
        Inl e \<Rightarrow> Some (Inl e)
      | Inr (start1, None) \<Rightarrow> Some (Inr (max_region_start, max_region_size))
      | Inr (start1, Some len) \<Rightarrow> find_longest_loop b max_length (start1 + len) start1 len)"

text \<open>The result is the returned start and the out-parameter \<open>found_range_size\<close>.\<close>

definition find_longest_range_of_unset_bits ::
    "bitmap_view \<Rightarrow> nat \<Rightarrow> (nat option \<times> nat) result option" where
  "find_longest_range_of_unset_bits b max_length =
     map_option (\<lambda>r. and_then r (\<lambda>(region_start, region_size).
        Inr (if region_size \<noteq> 0 then Some region_start else None, region_size)))
       (find_longest_loop b max_length 0 0 0)"

partial_function (option) find_best_fit_loop ::
    "bitmap_view \<Rightarrow> nat \<Rightarrow> nat \<Rightarrow> nat \<Rightarrow> nat \<Rightarrow> bool \<Rightarrow> nat option result option" where
  "find_best_fit_loop b minimum_length start best_region_start best_region_size found =
     (case find_next_range_of_unset_bits b start minimum_length best_region_size of
        Inl e \<Rightarrow> Some (Inl e)
      | Inr (start1, None) \<Rightarrow> Some (Inr (if found then Some best_region_start else None))
      | Inr (start1, Some len) \<Rightarrow>
          if best_region_size > len \<or> \<not> found
          then find_best_fit_loop b minimum_length (start1 + len) start1 len True
          else find_best_fit_loop b minimum_length (start1 + len) best_region_start best_region_size found)"

definition bv_max_size :: nat where
  "bv_max_size = 0xffffffff"

definition find_best_fit :: "bitmap_view \<Rightarrow> nat \<Rightarrow> nat option result option" where
  "find_best_fit b minimum_length = find_best_fit_loop b minimum_length 0 0 bv_max_size False"

theorem find_first_fit_spec:
  assumes "bv_wf b" "0 < m"
  shows "\<exists>r. find_first_fit b m = Inr r \<and>
    (case r of Some s \<Rightarrow> free_run (bit_at (bv_data b)) s m \<and> s + m \<le> bv_size b \<and>
        (\<forall>u. free_run (bit_at (bv_data b)) u m \<and> u + m \<le> bv_size b \<longrightarrow> s \<le> u)
     | None \<Rightarrow> (\<forall>u. u + m \<le> bv_size b \<longrightarrow> \<not> free_run (bit_at (bv_data b)) u m))"
proof -
  let ?P = "bit_at (bv_data b)"
  obtain s r where sr: "find_next_range_of_unset_bits b 0 m m = Inr (s, r)"
    "case r of Some len \<Rightarrow> m \<le> m \<and> scan_ret ?P (min (0 div 32) (bv_size b div 32) * 32) 0 m m (bv_size b) s len
      | None \<Rightarrow> m < m \<or> (\<forall>u\<ge>0. u + m \<le> bv_size b \<longrightarrow> \<not> free_run ?P u m)"
    using find_next_spec[OF assms, of 0 m] by blast
  show ?thesis
  proof (cases r)
    case None
    then show ?thesis using sr by (simp add: find_first_fit_def)
  next
    case (Some len)
    then have ret: "scan_ret ?P 0 0 m m (bv_size b) s len" using sr(2) by simp
    note D = scan_retD[OF ret assms(2) order.refl]
    have "len = m" using D(4,5) by simp
    then show ?thesis using D(1,2,6) sr(1) Some by (simp add: find_first_fit_def)
  qed
qed

definition no_free_run :: "bitmap_view \<Rightarrow> nat \<Rightarrow> nat \<Rightarrow> bool" where
  "no_free_run b lo m \<longleftrightarrow> (\<forall>u\<ge>lo. u + m \<le> bv_size b \<longrightarrow> \<not> free_run (bit_at (bv_data b)) u m)"

lemma find_next_cases:
  assumes "bv_wf b" "0 < m"
  obtains s where "find_next_range_of_unset_bits b lo m mx = Inr (s, None)" "mx < m \<or> no_free_run b lo m"
  | s len where "find_next_range_of_unset_bits b lo m mx = Inr (s, Some len)" "m \<le> mx"
      "scan_ret (bit_at (bv_data b)) (min (lo div 32) (bv_size b div 32) * 32) lo m mx (bv_size b) s len"
proof -
  obtain s r where sr: "find_next_range_of_unset_bits b lo m mx = Inr (s, r)"
    "case r of Some len \<Rightarrow> m \<le> mx \<and>
        scan_ret (bit_at (bv_data b)) (min (lo div 32) (bv_size b div 32) * 32) lo m mx (bv_size b) s len
      | None \<Rightarrow> mx < m \<or> (\<forall>u\<ge>lo. u + m \<le> bv_size b \<longrightarrow> \<not> free_run (bit_at (bv_data b)) u m)"
    using find_next_spec[OF assms, of lo mx] by blast
  show thesis
  proof (cases r)
    case None
    with sr show ?thesis by (intro that(1)) (simp_all add: no_free_run_def)
  next
    case (Some len)
    show ?thesis using sr(2) unfolding Some option.case by (elim conjE) (rule that(2)[OF sr(1)[unfolded Some]])
  qed
qed

text \<open>Every call of the best-fit loop with a request of at least 32 bits moves on.\<close>

lemma scan_ret_progress:
  assumes "scan_ret P (min (lo div 32) (sz div 32) * 32) lo m mx sz s len" "32 \<le> m" "m \<le> mx" "lo \<le> sz"
  shows "lo < s + len"
proof -
  have "min (lo div 32) (sz div 32) = lo div 32" using assms(4) by (simp add: div_le_mono min_def)
  then have "lo div 32 * 32 \<le> s" "m \<le> len" using scan_retD(3,4)[OF assms(1) _ assms(3)] assms(2) by auto
  moreover have "lo < lo div 32 * 32 + 32" by presburger
  ultimately show ?thesis using assms(2) by linarith
qed

lemma find_best_fit_loop_ends:
  assumes "bv_wf b" "32 \<le> m" "start \<le> bv_size b" "m \<le> best"
    and "found \<Longrightarrow> free_run (bit_at (bv_data b)) best_start m \<and> best_start + m \<le> bv_size b"
    and "\<not> found \<Longrightarrow> start = 0"
  shows "\<exists>r. find_best_fit_loop b m start best_start best found = Some (Inr r) \<and>
    (case r of Some s \<Rightarrow> free_run (bit_at (bv_data b)) s m \<and> s + m \<le> bv_size b
     | None \<Rightarrow> \<not> found \<and> no_free_run b 0 m)"
  using assms
proof (induction "bv_size b - start" arbitrary: start best best_start found rule: less_induct)
  case less
  have m: "0 < m" using less.prems(2) by simp
  show ?case
  proof (cases rule: find_next_cases[OF less.prems(1) m, of start best])
    case (1 s)
    then show ?thesis using less.prems by (subst find_best_fit_loop.simps) (cases found; simp)
  next
    case (2 s len)
    note ret = scan_retD[OF 2(3) m 2(2)]
    have prog: "start < s + len" using scan_ret_progress[OF 2(3) less.prems(2) 2(2) less.prems(3)] .
    have dec: "bv_size b - (s + len) < bv_size b - start" using prog ret(2) less.prems(3) by linarith
    have fr: "free_run (bit_at (bv_data b)) s m" "s + m \<le> bv_size b"
      using ret(1,2,4) by (auto intro: free_run_prefix)
    show ?thesis
    proof (cases "best > len \<or> \<not> found")
      case True
      then have "find_best_fit_loop b m start best_start best found = find_best_fit_loop b m (s + len) s len True"
        using 2(1) by (subst find_best_fit_loop.simps) simp
      moreover obtain r where "find_best_fit_loop b m (s + len) s len True = Some (Inr (Some r))"
        "free_run (bit_at (bv_data b)) r m \<and> r + m \<le> bv_size b"
        using less.hyps[OF dec less.prems(1,2) ret(2) ret(4), of True s] fr by (auto split: option.splits)
      ultimately show ?thesis by (intro exI[of _ "Some r"]) simp
    next
      case False
      then have "find_best_fit_loop b m start best_start best found
          = find_best_fit_loop b m (s + len) best_start best True"
        using 2(1) by (subst find_best_fit_loop.simps) simp
      moreover obtain r where "find_best_fit_loop b m (s + len) best_start best True = Some (Inr (Some r))"
        "free_run (bit_at (bv_data b)) r m \<and> r + m \<le> bv_size b"
        using less.hyps[OF dec less.prems(1,2) ret(2) less.prems(4), of True best_start] less.prems(5) False
        by (auto split: option.splits)
      ultimately show ?thesis by (intro exI[of _ "Some r"]) simp
    qed
  qed
qed

theorem find_best_fit_spec:
  assumes "bv_wf b" "32 \<le> m" "m < 2 ^ 32"
  shows "\<exists>r. find_best_fit b m = Some (Inr r) \<and>
    (case r of Some s \<Rightarrow> free_run (bit_at (bv_data b)) s m \<and> s + m \<le> bv_size b
     | None \<Rightarrow> (\<forall>u. u + m \<le> bv_size b \<longrightarrow> \<not> free_run (bit_at (bv_data b)) u m))"
  using find_best_fit_loop_ends[of b m 0 bv_max_size False 0] assms
  by (simp add: find_best_fit_def bv_max_size_def no_free_run_def cong: option.case_cong)

lemma find_longest_loop_ends:
  assumes "bv_wf b" "free_run (bit_at (bv_data b)) best_start best" "best \<noteq> 0 \<Longrightarrow> best_start + best \<le> bv_size b" "best \<le> mx"
  shows "\<exists>s n. find_longest_loop b mx start best_start best = Some (Inr (s, n)) \<and>
    free_run (bit_at (bv_data b)) s n \<and> (n \<noteq> 0 \<longrightarrow> s + n \<le> bv_size b) \<and> best \<le> n \<and> n \<le> mx \<and>
    (n = 0 \<longrightarrow> mx = 0 \<or> no_free_run b start 1)"
  using assms
proof (induction "mx - best" arbitrary: start best_start best rule: less_induct)
  case less
  show ?case
  proof (cases rule: find_next_cases[OF less.prems(1), of "best + 1" start mx])
    case 1
    then show ?case by simp
  next
    case (2 s)
    then show ?thesis using less.prems by (subst find_longest_loop.simps) auto
  next
    case (3 s len)
    have "0 < best + 1" by simp
    note ret = scan_retD[OF 3(3) this 3(2)]
    have eq: "find_longest_loop b mx start best_start best = find_longest_loop b mx (s + len) s len"
      using 3(1) by (subst find_longest_loop.simps) simp
    have dec: "mx - len < mx - best" using ret(4) 3(2) by linarith
    obtain s' n where "find_longest_loop b mx (s + len) s len = Some (Inr (s', n))"
      "free_run (bit_at (bv_data b)) s' n" "n \<noteq> 0 \<longrightarrow> s' + n \<le> bv_size b" "len \<le> n" "n \<le> mx"
      using less.hyps[OF dec less.prems(1) ret(1,2) ret(5), of "s + len"] by blast
    then show ?thesis unfolding eq using ret(4) by simp
  qed
qed

theorem find_longest_range_of_unset_bits_spec:
  assumes "bv_wf b" "0 < mx"
  shows "\<exists>r n. find_longest_range_of_unset_bits b mx = Some (Inr (r, n)) \<and>
    (case r of Some s \<Rightarrow> free_run (bit_at (bv_data b)) s n \<and> s + n \<le> bv_size b \<and> 0 < n \<and> n \<le> mx
     | None \<Rightarrow> n = 0 \<and> (\<forall>u < bv_size b. bit_at (bv_data b) u))"
proof -
  obtain s n where sn: "find_longest_loop b mx 0 0 0 = Some (Inr (s, n))"
    "free_run (bit_at (bv_data b)) s n" "n \<noteq> 0 \<longrightarrow> s + n \<le> bv_size b" "n \<le> mx"
    "n = 0 \<longrightarrow> mx = 0 \<or> no_free_run b 0 1"
    using find_longest_loop_ends[OF assms(1), of 0 0 mx 0] by auto
  have "\<forall>u < bv_size b. bit_at (bv_data b) u" if "n = 0"
  proof (intro allI impI)
    fix u assume "u < bv_size b"
    then have "\<not> free_run (bit_at (bv_data b)) u 1"
      using that sn(5) assms(2) unfolding no_free_run_def by simp
    then show "bit_at (bv_data b) u" by (auto simp: free_run_def less_Suc_eq_le dest: order_antisym)
  qed
  then show ?thesis using sn by (auto simp: find_longest_range_of_unset_bits_def)
qed

definition eight_free_bits :: bitmap_view where
  "eight_free_bits = \<lparr>bv_addr = 0, bv_data = [0, 0], bv_size = 8\<rparr>"

lemma eight_free_next:
  "find_next_range_of_unset_bits eight_free_bits 5 5 5 = Inr (0, Some 5)"
  "find_next_range_of_unset_bits eight_free_bits 0 5 0xffffffff = Inr (0, Some 5)"
  by (simp_all add: eight_free_bits_def find_next_range_of_unset_bits_def scan_buckets.simps
      scan_trailing.simps bv_get_def Let_def)

lemma eight_free_loop: "find_best_fit_loop eight_free_bits 5 5 0 5 True = Some r \<Longrightarrow> False"
proof -
  have "b = eight_free_bits \<and> m = 5 \<and> s = 5 \<and> bs = 0 \<and> bn = 5 \<and> f \<longrightarrow> False"
    if "find_best_fit_loop b m s bs bn f = Some r" for b m s bs bn f r
    by (rule find_best_fit_loop.raw_induct[OF _ that]) (auto simp: eight_free_next; blast)
  then show "find_best_fit_loop eight_free_bits 5 5 0 5 True = Some r \<Longrightarrow> False" by blast
qed

text \<open>Below 32 bits the loop of \<open>find_best_fit\<close> need not end: it never returns on eight clear bits and a
  request of five.\<close>

theorem find_best_fit_endless: "find_best_fit eight_free_bits 5 = None"
proof -
  have "find_best_fit eight_free_bits 5 = find_best_fit_loop eight_free_bits 5 5 0 5 True"
    unfolding find_best_fit_def bv_max_size_def
    by (subst find_best_fit_loop.simps) (simp add: eight_free_next(2))
  then show ?thesis using eight_free_loop by (metis not_Some_eq)
qed

theorem find_longest_not_longest:
  "find_longest_range_of_unset_bits \<lparr>bv_addr = 0, bv_data = [0, 0, 0, 0, 0, 0], bv_size = 40\<rparr> 100
     = Some (Inr (Some 0, 32))"
proof -
  let ?b = "\<lparr>bv_addr = 0, bv_data = [0, 0, 0, 0, 0, 0], bv_size = 40\<rparr>"
  have "find_next_range_of_unset_bits ?b 0 1 100 = Inr (0, Some 32)" by code_simp
  moreover have "find_next_range_of_unset_bits ?b 32 33 100 = Inr (32, None)" by code_simp
  ultimately show ?thesis
    unfolding find_longest_range_of_unset_bits_def
    by (subst find_longest_loop.simps; simp; subst find_longest_loop.simps; simp)
qed

subsection \<open>Searching for a single bit\<close>

function skip_bytes :: "u8 list \<Rightarrow> u8 \<Rightarrow> nat \<Rightarrow> nat \<Rightarrow> nat result" where
  "skip_bytes d byte i n =
     (if i < n
      then and_then (read_at d i) (\<lambda>x. if x = byte then skip_bytes d byte (i + 1) n else Inr i)
      else Inr i)"
  by pat_completeness auto
termination
  by (relation "measure (\<lambda>(d, byte, i, n). n - i)") auto

text \<open>The words from offset \<open>p\<close> up to offset \<open>end32\<close>, four bytes at a time.\<close>

function skip_words :: "u8 list \<Rightarrow> u32 \<Rightarrow> nat \<Rightarrow> nat \<Rightarrow> nat result" where
  "skip_words d val32 p end32 =
     (if p < end32
      then and_then (load32 d p) (\<lambda>x. if x = val32 then skip_words d val32 (p + 4) end32 else Inr p)
      else Inr p)"
  by pat_completeness auto
termination
  by (relation "measure (\<lambda>(d, v, p, e). e - p)") auto

text \<open>\<open>__builtin_ffs\<close> and \<open>__builtin_ffsl\<close>: one plus the index of the lowest set bit, 0 for 0.\<close>

definition builtin_ffs :: "'a::len word \<Rightarrow> nat" where
  "builtin_ffs w = (case find (bit w) [0..<LENGTH('a)] of Some i \<Rightarrow> i + 1 | None \<Rightarrow> 0)"

text \<open>The tail of each search: the byte at \<open>i\<close> differs from the skipped one, so it has the bit.\<close>

definition bit_in_byte :: "bool \<Rightarrow> u8 list \<Rightarrow> nat \<Rightarrow> nat option result" where
  "bit_in_byte VALUE d i =
     and_then (read_at d i) (\<lambda>byte0.
     let byte = (if VALUE then byte0 else NOT byte0) in
     and_then (verify (byte \<noteq> 0)) (\<lambda>_. Inr (Some (i * 8 + builtin_ffs byte - 1))))"

definition find_first :: "bool \<Rightarrow> bitmap_view \<Rightarrow> nat option result" where
  "find_first VALUE b =
     (let byte_count = bv_size b div 8 in
      and_then (skip_bytes (bv_data b) (if VALUE then 0 else 0xff) 0 byte_count) (\<lambda>i.
      if i = byte_count then Inr None else bit_in_byte VALUE (bv_data b) i))"

text \<open>
  One pass of the \<open>for (;;)\<close> loop of \<open>find_one_anywhere\<close>. \<open>end_addr\<close> is the pointer \<open>end\<close>;
  addresses are absolute, and turned into offsets from \<open>m_data\<close> where the source subtracts.
  \<open>Some r\<close> is \<open>return r\<close>, \<open>None\<close> the \<open>continue\<close>.
\<close>

definition find_one_pass :: "bool \<Rightarrow> bitmap_view \<Rightarrow> nat \<Rightarrow> nat \<Rightarrow> nat option option result" where
  "find_one_pass VALUE b hint end_addr =
     (let d = bv_data b; base = bv_addr b;
          ptr0 = (base + hint div 8) div 4 * 4;
          byte = (if VALUE then 0x00 else 0xff);
          byte_count = bv_size b div 8;
          ptr32 = (if ptr0 < base then ptr0 + 4 else ptr0) - base in
      and_then (if ptr0 < base then skip_bytes d byte 0 ptr32 else Inr ptr32) (\<lambda>i.
      if i < ptr32 then and_then (bit_in_byte VALUE d i) (\<lambda>r. Inr (Some r))
      else
        let end32 = end_addr div 4 * 4 in
        and_then (skip_words d (if VALUE then 0 else 0xffffffff) ptr32 (end32 - base)) (\<lambda>ptr32.
        if base + ptr32 = end32 then
          and_then (verify (ptr32 \<le> byte_count)) (\<lambda>_.
          and_then (skip_bytes d byte ptr32 byte_count) (\<lambda>i.
          if i = byte_count then (if hint \<le> 8 then Inr (Some None) else Inr None)
          else and_then (bit_in_byte VALUE d i) (\<lambda>r. Inr (Some r))))
        else
          and_then (load32 d ptr32) (\<lambda>w.
          let val32 = (if VALUE then w else NOT w) in
          and_then (verify (val32 \<noteq> 0)) (\<lambda>_. Inr (Some (Some (ptr32 * 8 + builtin_ffs val32 - 1))))))))"

text \<open>The loop: after a \<open>continue\<close>, \<open>hint\<close> is 0, and the second pass returns.\<close>

function find_one_loop :: "bool \<Rightarrow> bitmap_view \<Rightarrow> nat \<Rightarrow> nat \<Rightarrow> nat option result" where
  "find_one_loop VALUE b hint end_addr =
     and_then (find_one_pass VALUE b hint end_addr) (\<lambda>r.
     case r of Some v \<Rightarrow> Inr v
     | None \<Rightarrow> if hint \<le> 8 then Inl NotReached
         else find_one_loop VALUE b 0 ((bv_addr b + hint div 8) div 4 * 4))"
  by pat_completeness auto
termination
  by (relation "measure (\<lambda>(V, b, hint, e). hint)") auto

definition find_one_anywhere :: "bool \<Rightarrow> bitmap_view \<Rightarrow> nat \<Rightarrow> nat option result" where
  "find_one_anywhere VALUE b hint =
     and_then (verify (hint < bv_size b)) (\<lambda>_.
     find_one_loop VALUE b hint (bv_addr b + bv_size b div 8))"

declare skip_bytes.simps [simp del] skip_words.simps [simp del] find_one_loop.simps [simp del]

lemma ffs_bit:
  assumes "w \<noteq> (0 :: 'a::len word)"
  shows "\<exists>k. builtin_ffs w = Suc k \<and> k < LENGTH('a) \<and> bit w k"
proof -
  obtain k where "bit w k" "k < LENGTH('a)"
    using assms by (metis bit_eqI bit_0_eq bot_apply bot_bool_def bit_imp_le_length)
  then obtain i where i: "find (bit w) [0..<LENGTH('a)] = Some i"
    by (metis atLeast0LessThan find_None_iff2 lessThan_iff not_None_eq set_upt)
  then have "i < LENGTH('a)" "bit w i" by (auto simp: find_Some_iff)
  then show ?thesis by (simp add: builtin_ffs_def i)
qed

lemma skip_bytes_spec:
  assumes "i \<le> n" "n \<le> length d"
  shows "\<exists>k. skip_bytes d byte i n = Inr k \<and> i \<le> k \<and> k \<le> n \<and> (\<forall>j. i \<le> j \<and> j < k \<longrightarrow> d ! j = byte) \<and>
     (k < n \<longrightarrow> d ! k \<noteq> byte)"
  using assms
proof (induction d byte i n rule: skip_bytes.induct)
  case (1 d byte i n)
  show ?case
  proof (cases "i < n \<and> d ! i = byte")
    case True
    with 1 obtain k where k: "skip_bytes d byte (i + 1) n = Inr k" "i + 1 \<le> k" "k \<le> n"
      "\<forall>j. i + 1 \<le> j \<and> j < k \<longrightarrow> d ! j = byte" "k < n \<longrightarrow> d ! k \<noteq> byte"
      by auto
    moreover have "skip_bytes d byte i n = skip_bytes d byte (i + 1) n"
      using True 1(3) by (subst skip_bytes.simps) simp
    moreover have "d ! j = byte" if "i \<le> j" "j < k" for j
      using that k(4) True by (cases "j = i") auto
    ultimately show ?thesis by auto
  next
    case False
    then show ?thesis using 1(2,3) by (subst skip_bytes.simps) auto
  qed
qed

lemma skip_words_spec:
  assumes "p \<le> e" "4 dvd e - p" "e \<le> length d"
  shows "\<exists>k. skip_words d v p e = Inr k \<and> p \<le> k \<and> k \<le> e \<and> 4 dvd k - p \<and> (k < e \<longrightarrow> k + 4 \<le> e) \<and>
     (\<forall>j. p \<le> j \<and> j < k \<longrightarrow> (\<exists>q. q \<le> j \<and> j < q + 4 \<and> q + 4 \<le> length d \<and> load32 d q = Inr v)) \<and> (k < e \<longrightarrow> load32 d k \<noteq> Inr v)"
  using assms
proof (induction d v p e rule: skip_words.induct)
  case (1 d v p e)
  have room: "p < e \<Longrightarrow> p + 4 \<le> e" using 1(2,3) by presburger
  show ?case
  proof (cases "p < e \<and> load32 d p = Inr v")
    case True
    have "4 dvd e - (p + 4)" using 1(3) room True by presburger
    then obtain k where k: "skip_words d v (p + 4) e = Inr k" "p + 4 \<le> k" "k \<le> e" "4 dvd k - (p + 4)"
      "k < e \<longrightarrow> k + 4 \<le> e"
      "\<forall>j. p + 4 \<le> j \<and> j < k \<longrightarrow> (\<exists>q. q \<le> j \<and> j < q + 4 \<and> q + 4 \<le> length d \<and> load32 d q = Inr v)" "k < e \<longrightarrow> load32 d k \<noteq> Inr v"
      using 1(1)[OF conjunct1[OF True] conjunct2[OF True] refl room _ 1(4)] True by blast
    moreover have "skip_words d v p e = skip_words d v (p + 4) e"
      using True by (subst skip_words.simps) simp
    moreover have "4 dvd k - p" using k(2,4) by presburger
    moreover have "\<exists>q. q \<le> j \<and> j < q + 4 \<and> q + 4 \<le> length d \<and> load32 d q = Inr v" if "p \<le> j" "j < k" for j
      using that k(6) True room 1(4) by (cases "j < p + 4") auto
    ultimately show ?thesis by auto
  next
    case False
    have "p < e \<Longrightarrow> p + 4 \<le> length d" using room 1(4) by simp
    then obtain w where "p < e \<longrightarrow> load32 d p = Inr w" unfolding load32_def by auto
    then show ?thesis using False 1(2,3) room by (subst skip_words.simps) auto
  qed
qed

definition skipped_byte :: "bool \<Rightarrow> u8" where
  "skipped_byte VALUE = (if VALUE then 0 else 0xff)"

lemma bit_ff: "bit (0xff :: u8) j \<longleftrightarrow> j < 8"
proof -
  have "(0xff :: u8) = mask 8" by (simp add: mask_eq_exp_minus_1)
  then show ?thesis by (simp only: bit_mask_iff possible_bit_word) auto
qed

lemma bit_ffffffff: "bit (0xffffffff :: u32) j \<longleftrightarrow> j < 32"
proof -
  have "(0xffffffff :: u32) = mask 32" by (simp add: mask_eq_exp_minus_1)
  then show ?thesis by (simp only: bit_mask_iff possible_bit_word) auto
qed

lemma bit_skipped: "j < 8 \<Longrightarrow> bit (skipped_byte V) j \<longleftrightarrow> \<not> V"
  using bit_ff[of j] by (auto simp: skipped_byte_def)

lemma not_word_0: "NOT w = (0 :: 'a::len word) \<longleftrightarrow> w = - 1"
  by (metis bit.double_compl bit.compl_zero)

lemma bit_in_byte_spec:
  assumes "i < length d" "d ! i \<noteq> skipped_byte V"
  shows "\<exists>p. bit_in_byte V d i = Inr (Some p) \<and> p div 8 = i \<and> bit_at d p = V"
proof -
  let ?w = "if V then d ! i else NOT (d ! i)"
  have "?w \<noteq> 0" using assms(2) by (auto simp: skipped_byte_def not_word_0)
  then obtain k where k: "builtin_ffs ?w = Suc k" "k < 8" "bit ?w k" using ffs_bit[of ?w] by auto
  have "bit_in_byte V d i = Inr (Some (i * 8 + k))"
    using assms(1) \<open>?w \<noteq> 0\<close> k(1) by (simp add: bit_in_byte_def Let_def)
  moreover have "bit_at d (i * 8 + k) = V" using k(2,3) by (auto simp: bit_at_def bit_not_iff split: if_splits)
  ultimately show ?thesis using k(2) by simp
qed

lemma skipped_bits: "d ! (j div 8) = skipped_byte V \<Longrightarrow> bit_at d j = (\<not> V)"
  by (simp add: bit_at_def bit_skipped)

lemma word_in_spec:
  assumes "p + 4 \<le> length d" "load32 d p \<noteq> Inr (if V then 0 else 0xffffffff)"
  shows "\<exists>w k. load32 d p = Inr w \<and> (if V then w else NOT w) \<noteq> 0 \<and>
    builtin_ffs (if V then w else NOT w) = Suc k \<and> k < 32 \<and> bit_at d (p * 8 + k) = V"
proof -
  obtain w where w: "load32 d p = Inr w" "\<And>j. j < 32 \<Longrightarrow> bit w j = bit_at d (8 * p + j)"
    using load32_in[OF assms(1)] by blast
  let ?w = "if V then w else NOT w"
  have "?w \<noteq> 0" using assms(2) w(1) by (auto simp: not_word_0)
  then obtain k where k: "builtin_ffs ?w = Suc k" "k < 32" "bit ?w k" using ffs_bit[of ?w] by auto
  have "bit_at d (p * 8 + k) = V" using k(2,3) w(2)[OF k(2)] by (auto simp: bit_not_iff mult.commute split: if_splits)
  then show ?thesis using w(1) k(1,2) \<open>?w \<noteq> 0\<close> by blast
qed

lemma skipped_word_bits:
  assumes "q + 4 \<le> length d" "load32 d q = Inr (if V then 0 else 0xffffffff)" "q \<le> j div 8" "j div 8 < q + 4"
  shows "bit_at d j = (\<not> V)"
proof -
  obtain w where w: "load32 d q = Inr w" "\<And>j. j < 32 \<Longrightarrow> bit w j = bit_at d (8 * q + j)"
    using load32_in[OF assms(1)] by blast
  obtain t where "j = 8 * q + t" "t < 32"
    using assms(3,4) that[of "j - 8 * q"] by (simp add: less_eq_div_iff_mult_less_eq div_less_iff_less_mult)
  then show ?thesis using w(1) w(2)[of t] bit_ffffffff[of t] assms(2) by (cases V) auto
qed

lemma bytes_in_block: "bv_wf b \<Longrightarrow> bv_size b div 8 \<le> length (bv_data b)"
  by (auto simp: bv_wf_def size_in_bytes_def ceil_div_def Let_def split: if_splits)

theorem find_first_spec:
  assumes "bv_wf b"
  shows "\<exists>r. find_first V b = Inr r \<and>
    (case r of Some p \<Rightarrow> p < bv_size b \<and> bit_at (bv_data b) p = V \<and> (\<forall>q. q div 8 < p div 8 \<longrightarrow> bit_at (bv_data b) q \<noteq> V)
     | None \<Rightarrow> (\<forall>q < bv_size b div 8 * 8. bit_at (bv_data b) q \<noteq> V))"
proof -
  let ?d = "bv_data b" and ?n = "bv_size b div 8"
  note n = bytes_in_block[OF assms]
  obtain k where k: "skip_bytes ?d (skipped_byte V) 0 ?n = Inr k" "k \<le> ?n" "\<forall>j<k. ?d ! j = skipped_byte V"
    "k < ?n \<longrightarrow> ?d ! k \<noteq> skipped_byte V"
    using skip_bytes_spec[OF _ n, of 0 "skipped_byte V"] by auto
  have skip: "bit_at ?d q \<noteq> V" if "q div 8 < k" for q using skipped_bits k(3) that by blast
  show ?thesis
  proof (cases "k = ?n")
    case True
    then show ?thesis using k(1) skip
      by (auto simp: find_first_def skipped_byte_def[symmetric] div_less_iff_less_mult)
  next
    case False
    then have "k < ?n" using k(2) by simp
    then obtain p where p: "bit_in_byte V ?d k = Inr (Some p)" "p div 8 = k" "bit_at ?d p = V"
      using bit_in_byte_spec[of k ?d V] k(4) n by auto
    moreover have "p < bv_size b" using p(2) \<open>k < ?n\<close> by (metis div_le_mono linorder_not_le)
    ultimately show ?thesis using k(1) skip False
      by (auto simp: find_first_def skipped_byte_def[symmetric])
  qed
qed

text \<open>One pass over a view whose data starts at a word boundary.\<close>

lemma find_one_pass_aligned:
  assumes "bv_addr b = 4 * c"
  shows "find_one_pass V b hint (bv_addr b + x) =
    and_then (skip_words (bv_data b) (if V then 0 else 0xffffffff) (hint div 8 div 4 * 4) (x div 4 * 4)) (\<lambda>p.
    if p = x div 4 * 4 then
      and_then (verify (p \<le> bv_size b div 8)) (\<lambda>_.
      and_then (skip_bytes (bv_data b) (skipped_byte V) p (bv_size b div 8)) (\<lambda>i.
      if i = bv_size b div 8 then Inr (if hint \<le> 8 then Some None else None)
      else and_then (bit_in_byte V (bv_data b) i) (\<lambda>r. Inr (Some r))))
    else and_then (load32 (bv_data b) p) (\<lambda>w.
      and_then (verify ((if V then w else NOT w) \<noteq> 0)) (\<lambda>_.
      Inr (Some (Some (p * 8 + builtin_ffs (if V then w else NOT w) - 1))))))"
proof -
  have "(4 * c + hint div 8) div 4 * 4 = 4 * c + hint div 8 div 4 * 4" "(4 * c + x) div 4 * 4 = 4 * c + x div 4 * 4"
    by simp_all
  then show ?thesis
    unfolding find_one_pass_def Let_def assms skipped_byte_def
    by (simp only: not_add_less1 if_False diff_add_inverse add_left_cancel less_irrefl and_then.simps if_distrib[of Inr])
qed

lemma find_one_pass_spec:
  assumes "bv_wf b" "bv_addr b = 4 * c" "hint div 8 \<le> x" "x \<le> bv_size b div 8"
  shows "\<exists>r. find_one_pass V b hint (bv_addr b + x) = Inr r \<and>
    (case r of None \<Rightarrow> 8 < hint
     | Some None \<Rightarrow> hint \<le> 8 \<and> (\<forall>q < bv_size b div 8 * 8. bit_at (bv_data b) q \<noteq> V)
     | Some (Some p) \<Rightarrow> p < bv_size b \<and> bit_at (bv_data b) p = V)"
proof -
  let ?d = "bv_data b" and ?n = "bv_size b div 8" and ?v = "if V then 0 else 0xffffffff :: u32"
  let ?s = "hint div 8 div 4 * 4" and ?t = "x div 4 * 4"
  note n = bytes_in_block[OF assms(1)]
  have st: "?s \<le> ?t" "4 dvd ?t - ?s" "?t \<le> ?n"
    using assms(3) order_trans[OF div_times_less_eq_dividend[of x 4] assms(4)]
    by (simp_all add: div_le_mono dvd_diff_nat)
  obtain k where k: "skip_words ?d ?v ?s ?t = Inr k" "?s \<le> k" "k \<le> ?t" "k < ?t \<longrightarrow> k + 4 \<le> ?t"
    "\<forall>j. ?s \<le> j \<and> j < k \<longrightarrow> (\<exists>q. q \<le> j \<and> j < q + 4 \<and> q + 4 \<le> length ?d \<and> load32 ?d q = Inr ?v)"
    "k < ?t \<longrightarrow> load32 ?d k \<noteq> Inr ?v"
    using skip_words_spec[OF st(1,2) order_trans[OF st(3) n], of ?v] by blast
  have before: "bit_at ?d q \<noteq> V" if "?s \<le> q div 8" "q div 8 < k" for q
    using k(5) that skipped_word_bits[of _ ?d V q] by blast
  show ?thesis
  proof (cases "k = ?t")
    case False
    then have "k + 4 \<le> ?t" using k(3,4) by simp
    then obtain w i where w: "load32 ?d k = Inr w" "(if V then w else NOT w) \<noteq> 0"
      "builtin_ffs (if V then w else NOT w) = Suc i" "i < 32" "bit_at ?d (k * 8 + i) = V"
      using word_in_spec[of k ?d V] k(3,6) False st(3) n by fastforce
    then have "find_one_pass V b hint (bv_addr b + x) = Inr (Some (Some (k * 8 + i)))"
      unfolding find_one_pass_aligned[OF assms(2)] k(1) using False by simp
    moreover have "k * 8 + i < bv_size b" using \<open>k + 4 \<le> ?t\<close> st(3) w(4) by linarith
    ultimately show ?thesis using w(5) by simp
  next
    case True
    obtain i where i: "skip_bytes ?d (skipped_byte V) k ?n = Inr i" "k \<le> i" "i \<le> ?n"
      "\<forall>j. k \<le> j \<and> j < i \<longrightarrow> ?d ! j = skipped_byte V" "i < ?n \<longrightarrow> ?d ! i \<noteq> skipped_byte V"
      using skip_bytes_spec[OF _ n, of k "skipped_byte V"] st(3) True by blast
    note eq = find_one_pass_aligned[OF assms(2), of V hint x, unfolded k(1) and_then.simps]
    show ?thesis
    proof (cases "i = ?n")
      case False
      then obtain p where p: "bit_in_byte V ?d i = Inr (Some p)" "p div 8 = i" "bit_at ?d p = V"
        using bit_in_byte_spec[of i ?d V] i(3,5) n by fastforce
      have "p < bv_size b" using p(2) False i(3) by (metis div_le_mono le_neq_implies_less linorder_not_le)
      then show ?thesis using eq True False i(1) p st(3) by simp
    next
      case all: True
      have "bit_at ?d q \<noteq> V" if "hint \<le> 8" "q < ?n * 8" for q
      proof (cases "q div 8 < k")
        case True
        moreover have "?s = 0" using that(1) by simp
        ultimately show ?thesis using before by simp
      next
        case False
        then show ?thesis using i(4) all that(2) skipped_bits[of ?d q V] by (simp add: div_less_iff_less_mult)
      qed
      then show ?thesis using eq True all i(1) st(3) by simp
    qed
  qed
qed

text \<open>\<open>find_one_anywhere\<close> on word-aligned data returns the position of a bit with the value, whatever the
  hint, and nothing only when the whole bytes of the bitmap have no such bit.\<close>

theorem find_one_anywhere_sound:
  assumes "bv_wf b" "4 dvd bv_addr b" "hint < bv_size b"
  shows "\<exists>r. find_one_anywhere V b hint = Inr r \<and>
    (case r of Some p \<Rightarrow> p < bv_size b \<and> bit_at (bv_data b) p = V
     | None \<Rightarrow> (\<forall>q < bv_size b div 8 * 8. bit_at (bv_data b) q \<noteq> V))"
proof -
  obtain c where c: "bv_addr b = 4 * c" using assms(2) by (auto elim: dvdE)
  let ?n = "bv_size b div 8"
  have h: "hint div 8 \<le> ?n" using assms(3) by (simp add: div_le_mono)
  have loop: "find_one_loop V b hint e = and_then (find_one_pass V b hint e) (\<lambda>r. case r of Some v \<Rightarrow> Inr v
     | None \<Rightarrow> if hint \<le> 8 then Inl NotReached
         else find_one_loop V b 0 (bv_addr b + hint div 8 div 4 * 4))" for hint e
  proof -
    have "(bv_addr b + hint div 8) div 4 * 4 = bv_addr b + hint div 8 div 4 * 4" by (simp add: c)
    then show ?thesis by (subst find_one_loop.simps) (simp only:)
  qed
  have second: "\<exists>r. find_one_loop V b 0 (bv_addr b + x) = Inr r \<and>
    (case r of Some p \<Rightarrow> p < bv_size b \<and> bit_at (bv_data b) p = V
     | None \<Rightarrow> (\<forall>q < ?n * 8. bit_at (bv_data b) q \<noteq> V))" if x: "x \<le> ?n" for x
  proof -
    have "0 div 8 \<le> x" by simp
    note pass = find_one_pass_spec[OF assms(1) c this x]
    obtain r where r: "find_one_pass V b 0 (bv_addr b + x) = Inr r"
      "case r of None \<Rightarrow> 8 < (0::nat)
       | Some None \<Rightarrow> (0::nat) \<le> 8 \<and> (\<forall>q < ?n * 8. bit_at (bv_data b) q \<noteq> V)
       | Some (Some p) \<Rightarrow> p < bv_size b \<and> bit_at (bv_data b) p = V"
      using pass by blast
    then show ?thesis by (subst loop, cases r) (auto split: option.splits)
  qed
  have "hint div 8 div 4 * 4 \<le> ?n" using order_trans[OF div_times_less_eq_dividend[of "hint div 8" 4] h] .
  note s2 = second[OF this]
  obtain r where r: "find_one_pass V b hint (bv_addr b + ?n) = Inr r"
     "case r of None \<Rightarrow> 8 < hint
     | Some None \<Rightarrow> hint \<le> 8 \<and> (\<forall>q < ?n * 8. bit_at (bv_data b) q \<noteq> V)
     | Some (Some p) \<Rightarrow> p < bv_size b \<and> bit_at (bv_data b) p = V"
    using find_one_pass_spec[OF assms(1) c h order.refl] by blast
  have "find_one_anywhere V b hint = find_one_loop V b hint (bv_addr b + ?n)"
    using assms(3) by (simp add: find_one_anywhere_def)
  then show ?thesis using r s2 unfolding loop[of hint] by (cases r) (auto split: option.splits)
qed

subsection \<open>The owning class\<close>

text \<open>
  \<^verbatim>\<open>AK/Bitmap.h\<close>: a view that owns its block. \<open>addr\<close> and \<open>block\<close> are the address and the
  (uninitialised) contents of the block \<open>kmalloc\<close> returns; a null \<open>m_data\<close> is address 0.
\<close>

definition bitmap_null :: bitmap_view where
  "bitmap_null = \<lparr>bv_addr = 0, bv_data = [], bv_size = 0\<rparr>"

definition bitmap_new :: "nat \<Rightarrow> u8 list \<Rightarrow> nat \<Rightarrow> bool \<Rightarrow> bitmap_view result" where
  "bitmap_new addr block nsize default_value =
     and_then (verify (nsize \<noteq> 0)) (\<lambda>_.
     bv_fill \<lparr>bv_addr = addr, bv_data = block, bv_size = nsize\<rparr> default_value)"

definition memcpy :: "u8 list \<Rightarrow> u8 list \<Rightarrow> nat \<Rightarrow> u8 list result" where
  "memcpy dst src n =
     (if n \<le> length dst \<and> n \<le> length src then Inr (take n src @ drop n dst) else Inl OutOfBounds)"

definition grow :: "nat \<Rightarrow> u8 list \<Rightarrow> bitmap_view \<Rightarrow> nat \<Rightarrow> bool \<Rightarrow> bitmap_view result" where
  "grow addr block b nsize default_value =
     and_then (verify (nsize > bv_size b)) (\<lambda>_.
     let previous_size_bytes = size_in_bytes b; previous_size = bv_size b in
     and_then (bv_fill \<lparr>bv_addr = addr, bv_data = block, bv_size = nsize\<rparr> default_value) (\<lambda>b1.
     if bv_addr b \<noteq> 0 then
       and_then (memcpy (bv_data b1) (bv_data b) previous_size_bytes) (\<lambda>d.
       let b2 = b1\<lparr>bv_data := d\<rparr> in
       if previous_size mod 8 \<noteq> 0
       then set_range b2 previous_size (8 - previous_size mod 8) default_value
       else Inr b2)
     else Inr b1))"

lemma bit_at_fill_byte:
  assumes "i div 8 < n" "n \<le> length d"
  shows "bit_at (take 0 d @ replicate n (if v then 0xff else 0x00) @ drop (0 + n) d) i = v"
  using assms bit_ff[of "i mod 8"] by (auto simp: bit_at_def nth_append)

lemma bv_fill_spec:
  assumes "bv_wf b"
  shows "\<exists>b'. bv_fill b v = Inr b' \<and> bv_addr b' = bv_addr b \<and> bv_size b' = bv_size b \<and>
    length (bv_data b') = length (bv_data b) \<and> (\<forall>i. i div 8 < size_in_bytes b \<longrightarrow> bit_at (bv_data b') i = v)"
proof -
  have n: "size_in_bytes b \<le> length (bv_data b)" using assms by (simp add: bv_wf_def)
  show ?thesis
    using bit_at_fill_byte[OF _ n, of _ v] n by (simp add: bv_fill_def memset_def)
qed

lemma bitmap_new_spec:
  assumes "0 < nsize" "nsize < 2 ^ 32" "ceil_div nsize 8 \<le> length block"
  shows "\<exists>b. bitmap_new addr block nsize v = Inr b \<and> bv_wf b \<and> bv_addr b = addr \<and> bv_size b = nsize \<and>
    length (bv_data b) = length block \<and> (\<forall>i < nsize. bit_at (bv_data b) i = v)"
proof -
  let ?b = "\<lparr>bv_addr = addr, bv_data = block, bv_size = nsize\<rparr>"
  have "bv_wf ?b" using assms by (simp add: bv_wf_def size_in_bytes_def)
  then obtain b' where b': "bv_fill ?b v = Inr b'" "bv_addr b' = addr" "bv_size b' = nsize"
    "length (bv_data b') = length block" "\<forall>i. i div 8 < size_in_bytes ?b \<longrightarrow> bit_at (bv_data b') i = v"
    using bv_fill_spec[of ?b v] by auto
  then have "\<forall>i<nsize. bit_at (bv_data b') i = v" using size_in_bytes_bound[of _ ?b] by simp
  then show ?thesis using b' assms by (auto simp: bitmap_new_def bv_wf_def size_in_bytes_def)
qed

lemma bit_at_memcpy:
  "i div 8 < n \<Longrightarrow> n \<le> length src \<Longrightarrow> bit_at (take n src @ drop n dst) i = bit_at src i"
  "n \<le> i div 8 \<Longrightarrow> n \<le> length src \<Longrightarrow> n \<le> length dst \<Longrightarrow> bit_at (take n src @ drop n dst) i = bit_at dst i"
  by (simp_all add: bit_at_def nth_append)

lemma ceil_div_8: "ceil_div a 8 = (a + 7) div 8"
proof -
  have "(a mod 8 + 7) div 8 = (if a mod 8 \<noteq> 0 then 1 else 0)"
    using mod_less_divisor[of 8 a] by (auto intro: div_nat_eqI simp del: mod_less_divisor)
  then show ?thesis using div_add1_eq[of a 7 8] by (simp add: ceil_div_def Let_def)
qed

lemma size_in_bytes_mono: "bv_size b \<le> bv_size c \<Longrightarrow> size_in_bytes b \<le> size_in_bytes c"
  by (simp add: size_in_bytes_def ceil_div_8 div_le_mono)

theorem grow_spec:
  assumes wf: "bv_wf b" "bv_addr b \<noteq> 0" and sz: "bv_size b < nsize" "nsize < 2 ^ 32"
    and block: "ceil_div nsize 8 \<le> length block"
    and tail: "bv_size b mod 8 \<noteq> 0 \<Longrightarrow>
      bv_size b + (8 - bv_size b mod 8) \<le> nsize \<and> bv_size b div 8 + 1 < length block"
  shows "\<exists>b'. grow addr block b nsize v = Inr b' \<and> bv_wf b' \<and> bv_addr b' = addr \<and> bv_size b' = nsize \<and>
    length (bv_data b') = length block \<and>
    (\<forall>i < nsize. bit_at (bv_data b') i = (if i < bv_size b then bit_at (bv_data b) i else v))"
proof -
  let ?c = "\<lparr>bv_addr = addr, bv_data = block, bv_size = nsize\<rparr>" and ?p = "bv_size b" and ?n = "size_in_bytes b"
  have "bv_wf ?c" using sz block by (simp add: bv_wf_def size_in_bytes_def)
  then obtain b1 where b1: "bv_fill ?c v = Inr b1" "bv_addr b1 = addr" "bv_size b1 = nsize"
    "length (bv_data b1) = length block" "\<forall>i. i div 8 < size_in_bytes ?c \<longrightarrow> bit_at (bv_data b1) i = v"
    using bv_fill_spec[of ?c v] by auto
  have n: "?n \<le> length (bv_data b)" "?n \<le> length (bv_data b1)"
    using wf block size_in_bytes_mono[of b ?c] sz b1(4) by (auto simp: bv_wf_def size_in_bytes_def)
  let ?d = "take ?n (bv_data b) @ drop ?n (bv_data b1)"
  let ?b2 = "b1\<lparr>bv_data := ?d\<rparr>"
  have wf2: "bv_wf ?b2" using b1 n sz block by (simp add: bv_wf_def size_in_bytes_def)
  have keep: "bit_at ?d i = bit_at (bv_data b) i" if "i < ?p" for i
    using bit_at_memcpy(1)[OF size_in_bytes_bound[OF that] n(1)] .
  have new: "bit_at ?d i = v" if "8 * ?n \<le> i" "i < nsize" for i
    using bit_at_memcpy(2)[OF _ n, of i] that b1(5) size_in_bytes_bound[of i ?c]
    by (simp add: less_eq_div_iff_mult_less_eq mult.commute)
  have eq: "grow addr block b nsize v = (if ?p mod 8 \<noteq> 0 then set_range ?b2 ?p (8 - ?p mod 8) v else Inr ?b2)"
    using sz wf(2) n b1(1) by (simp add: grow_def memcpy_def Let_def)
  show ?thesis
  proof (cases "?p mod 8 = 0")
    case True
    then have "8 * ?n = ?p" by (auto simp: size_in_bytes_def ceil_div_def)
    then show ?thesis unfolding eq using True wf2 b1 n keep new by simp
  next
    case False
    note t = tail[OF False]
    have e: "?p + (8 - ?p mod 8) = 8 * ?n" "(8 * ?n) div 8 = ?p div 8 + 1"
      using False by (simp_all add: size_in_bytes_def ceil_div_def Let_def) presburger
    have "length (bv_data ?b2) = length block" using n b1(4) by simp
    then have "(?p + (8 - ?p mod 8)) div 8 < length (bv_data ?b2)" using t e by (simp only:)
    then obtain b3 where b3: "set_range ?b2 ?p (8 - ?p mod 8) v = Inr b3"
      "bv_updated ?b2 (\<lambda>i. if ?p \<le> i \<and> i < ?p + (8 - ?p mod 8) then v else bit_at (bv_data ?b2) i) b3"
      using set_range_t_spec[OF wf2, of ?p "8 - ?p mod 8" False v] sz t b1(3)
      by (cases v) (auto simp: set_range_def)
    have "bit_at (bv_data b3) i = (if i < ?p then bit_at (bv_data b) i else v)" if "i < nsize" for i
    proof -
      have "i div 8 < length (bv_data ?b2)" using bv_wf_index[OF wf2, of i] that b1(3) by simp
      then show ?thesis using b3(2) keep[of i] new[of i] that e(1) unfolding bv_updated_def by auto
    qed
    moreover have "bv_addr b3 = addr" "bv_size b3 = nsize" "length (bv_data b3) = length block"
      using b3(2) b1(2-4) n unfolding bv_updated_def by simp_all
    moreover have "bv_wf b3" using calculation(2-4) sz block by (simp add: bv_wf_def size_in_bytes_def)
    moreover have "grow addr block b nsize v = Inr b3" using eq b3(1) False by (simp only: if_True not_False_eq_True)
    ultimately show ?thesis by blast
  qed
qed

text \<open>A bitmap whose old size is not a multiple of 8 cannot grow within its last byte: the clean-up
  \<open>set_range\<close> is asked for bits past the new size, and its \<open>VERIFY\<close> fails.\<close>

theorem grow_within_last_byte:
  "grow 8 [0, 0] \<lparr>bv_addr = 4, bv_data = [7, 0], bv_size = 3\<rparr> 5 False = Inl VerifyFailed"
  by code_simp

subsection \<open>Properties of bitmaps\<close>

text \<open>A bitmap of 90 bits, four bytes of it used up, at a word boundary.\<close>

definition sample_view :: bitmap_view where
  "sample_view = \<lparr>bv_addr = 4096, bv_data = [0xff, 0xff, 0x7f, 0xff, 0, 0, 0, 0, 0x55, 0, 0, 0], bv_size = 90\<rparr>"

lemmas sample_view_simps = sample_view_def bv_wf_def size_in_bytes_def ceil_div_def

lemma cnt_card: "cnt P a b = card {i \<in> {a ..< b}. P i}"
  unfolding cnt_def by (subst distinct_card[symmetric]) (auto intro: arg_cong[where f = card])



text \<open>\<open>set_range\<close> sets exactly the bits of the range and leaves every other bit of the block as it was.\<close>

theorem set_range_exact:
  assumes "bv_wf b" "start < bv_size b" "start + len \<le> bv_size b" "(start + len) div 8 < length (bv_data b)"
  shows "\<exists>b'. set_range b start len v = Inr b' \<and> bv_size b' = bv_size b \<and> length (bv_data b') = length (bv_data b) \<and>
    (\<forall>i. i div 8 < length (bv_data b) \<longrightarrow>
       bit_at (bv_data b') i = (if start \<le> i \<and> i < start + len then v else bit_at (bv_data b) i))"
  using set_range_t_spec[OF assms, of False v] by (cases v) (auto simp: set_range_def bv_updated_def)

theorem set_range_exact_witness:
  "\<exists>b'. set_range sample_view 5 17 False = Inr b' \<and> bv_size b' = bv_size sample_view \<and>
    length (bv_data b') = length (bv_data sample_view) \<and>
    (\<forall>i. i div 8 < length (bv_data sample_view) \<longrightarrow>
       bit_at (bv_data b') i = (if 5 \<le> i \<and> i < 5 + 17 then False else bit_at (bv_data sample_view) i))"
  by (rule set_range_exact) (simp_all add: sample_view_simps)

text \<open>C19: \<open>find_first_fit\<close> returns the lowest run of \<open>m\<close> clear bits, and nothing only when there is none.\<close>

theorem find_first_fit_first:
  assumes "bv_wf b" "0 < m"
  shows "\<exists>r. find_first_fit b m = Inr r \<and>
    (case r of Some s \<Rightarrow> free_run (bit_at (bv_data b)) s m \<and> s + m \<le> bv_size b \<and>
        (\<forall>u. free_run (bit_at (bv_data b)) u m \<and> u + m \<le> bv_size b \<longrightarrow> s \<le> u)
     | None \<Rightarrow> (\<forall>u. u + m \<le> bv_size b \<longrightarrow> \<not> free_run (bit_at (bv_data b)) u m))"
  by (rule find_first_fit_spec[OF assms])

theorem find_first_fit_first_witness:
  "\<exists>r. find_first_fit sample_view 6 = Inr r \<and>
    (case r of Some s \<Rightarrow> free_run (bit_at (bv_data sample_view)) s 6 \<and> s + 6 \<le> bv_size sample_view \<and>
        (\<forall>u. free_run (bit_at (bv_data sample_view)) u 6 \<and> u + 6 \<le> bv_size sample_view \<longrightarrow> s \<le> u)
     | None \<Rightarrow> (\<forall>u. u + 6 \<le> bv_size sample_view \<longrightarrow> \<not> free_run (bit_at (bv_data sample_view)) u 6))"
  by (rule find_first_fit_first) (simp_all add: sample_view_simps)

text \<open>C20: for requests of at least 32 bits \<open>find_best_fit\<close> ends, returns a run of clear bits of the requested
  length, and returns nothing only when there is none.\<close>

theorem find_best_fit_sound:
  assumes "bv_wf b" "32 \<le> m" "m < 2 ^ 32"
  shows "\<exists>r. find_best_fit b m = Some (Inr r) \<and>
    (case r of Some s \<Rightarrow> free_run (bit_at (bv_data b)) s m \<and> s + m \<le> bv_size b
     | None \<Rightarrow> (\<forall>u. u + m \<le> bv_size b \<longrightarrow> \<not> free_run (bit_at (bv_data b)) u m))"
  by (rule find_best_fit_spec[OF assms])

theorem find_best_fit_sound_witness:
  "\<exists>r. find_best_fit sample_view 32 = Some (Inr r) \<and>
    (case r of Some s \<Rightarrow> free_run (bit_at (bv_data sample_view)) s 32 \<and> s + 32 \<le> bv_size sample_view
     | None \<Rightarrow> (\<forall>u. u + 32 \<le> bv_size sample_view \<longrightarrow> \<not> free_run (bit_at (bv_data sample_view)) u 32))"
  by (rule find_best_fit_sound) (simp_all add: sample_view_simps)

theorem find_one_anywhere_sound_witness:
  "\<exists>r. find_one_anywhere False sample_view 9 = Inr r \<and>
    (case r of Some p \<Rightarrow> p < bv_size sample_view \<and> bit_at (bv_data sample_view) p = False
     | None \<Rightarrow> (\<forall>q < bv_size sample_view div 8 * 8. bit_at (bv_data sample_view) q \<noteq> False))"
  by (rule find_one_anywhere_sound) (simp_all add: sample_view_simps)

text \<open>Growing a bitmap keeps every old bit and gives every new bit the default value.\<close>

theorem grow_keeps_bits:
  assumes "bv_wf b" "bv_addr b \<noteq> 0" "bv_size b < nsize" "nsize < 2 ^ 32" "ceil_div nsize 8 \<le> length block"
    and "bv_size b mod 8 \<noteq> 0 \<Longrightarrow>
      bv_size b + (8 - bv_size b mod 8) \<le> nsize \<and> bv_size b div 8 + 1 < length block"
  shows "\<exists>b'. grow addr block b nsize v = Inr b' \<and> bv_wf b' \<and> bv_size b' = nsize \<and>
    (\<forall>i < nsize. bit_at (bv_data b') i = (if i < bv_size b then bit_at (bv_data b) i else v))"
  using grow_spec[OF assms] by blast

theorem grow_keeps_bits_witness:
  "\<exists>b'. grow 8192 (replicate 20 9) sample_view 100 True = Inr b' \<and> bv_wf b' \<and> bv_size b' = 100 \<and>
    (\<forall>i < 100. bit_at (bv_data b') i = (if i < bv_size sample_view then bit_at (bv_data sample_view) i else True))"
  by (rule grow_keeps_bits) (simp_all add: sample_view_simps)

end
