(* ===== verification/AK_BitmapRanges.thy ===== *)
theory AK_BitmapRanges
  imports AK_BitmapSearch
begin

text \<open>
  What an allocator needs of a bitmap. \<open>interval_map L P N\<close> says that the set bits \<open>P\<close> below \<open>N\<close> are
  exactly the disjoint intervals \<open>[s, s + n)\<close> with \<open>L s = Some n\<close>. The locale \<open>range_bitmap\<close> is the
  contract of marking a range; it is interpreted on \<open>set_range_and_verify_that_all_bits_flip\<close>.
\<close>

definition interval_map :: "(nat \<Rightarrow> nat option) \<Rightarrow> (nat \<Rightarrow> bool) \<Rightarrow> nat \<Rightarrow> bool" where
  "interval_map L P N \<longleftrightarrow>
     (\<forall>s n. L s = Some n \<longrightarrow> 0 < n \<and> s + n \<le> N \<and> (\<forall>i. s \<le> i \<and> i < s + n \<longrightarrow> P i)) \<and>
     (\<forall>i<N. P i \<longrightarrow> (\<exists>s n. L s = Some n \<and> s \<le> i \<and> i < s + n)) \<and>
     (\<forall>s n t m. L s = Some n \<longrightarrow> L t = Some m \<longrightarrow> s \<noteq> t \<longrightarrow> s + n \<le> t \<or> t + m \<le> s)"

lemma interval_free_apart:
  assumes "interval_map L P N" "0 < n" "free_run P s n" "L t = Some m"
  shows "s + n \<le> t \<or> t + m \<le> s"
proof -
  have t: "0 < m" "\<forall>i. t \<le> i \<and> i < t + m \<longrightarrow> P i" using assms(1,4) unfolding interval_map_def by blast+
  have "\<not> P i" if "s \<le> i" "i < s + n" for i using assms(3) that by (auto simp: free_run_def)
  then show ?thesis using t assms(2) by (meson le_add1 le_cases less_add_same_cancel1 linorder_not_le)
qed

lemma interval_map_add:
  assumes "interval_map L P N" "0 < n" "s + n \<le> N" "free_run P s n"
    and "\<And>i. i < N \<Longrightarrow> Q i = (if s \<le> i \<and> i < s + n then True else P i)"
  shows "interval_map (L(s \<mapsto> n)) Q N"
proof -
  note sep = interval_free_apart[OF assms(1,2,4)]
  have "\<exists>t m. (L(s \<mapsto> n)) t = Some m \<and> t \<le> i \<and> i < t + m" if i: "i < N" "Q i" for i
  proof (cases "s \<le> i \<and> i < s + n")
    case False
    then obtain t m where "L t = Some m" "t \<le> i" "i < t + m"
      using assms(1) assms(5)[OF i(1)] i unfolding interval_map_def by metis
    moreover have "t \<noteq> s" using sep[OF calculation(1)] assms(2) calculation(2,3) by auto
    ultimately show ?thesis by (metis fun_upd_other)
  qed (auto intro: exI[of _ s])
  moreover have "0 < m \<and> t + m \<le> N \<and> (\<forall>i. t \<le> i \<and> i < t + m \<longrightarrow> Q i)" if "(L(s \<mapsto> n)) t = Some m" for t m
  proof (cases "t = s")
    case True
    then show ?thesis using that assms(2,3,5) by auto
  next
    case False
    then have "L t = Some m" using that by simp
    then have "0 < m" "t + m \<le> N" "\<forall>i. t \<le> i \<and> i < t + m \<longrightarrow> P i"
      using assms(1) unfolding interval_map_def by blast+
    then show ?thesis using assms(5) by simp
  qed
  moreover have "t + m \<le> t' \<or> t' + m' \<le> t"
    if "(L(s \<mapsto> n)) t = Some m" "(L(s \<mapsto> n)) t' = Some m'" "t \<noteq> t'" for t m t' m'
    using that sep assms(1) unfolding interval_map_def by (auto split: if_splits)
  ultimately show ?thesis unfolding interval_map_def by blast
qed

lemma interval_map_remove:
  assumes "interval_map L P N" "L s = Some n"
    and "\<And>i. i < N \<Longrightarrow> Q i = (if s \<le> i \<and> i < s + n then False else P i)"
  shows "interval_map (L(s := None)) Q N"
proof -
  have "\<exists>t m. (L(s := None)) t = Some m \<and> t \<le> i \<and> i < t + m" if i: "i < N" "Q i" for i
  proof -
    have out: "\<not> (s \<le> i \<and> i < s + n)" "P i" using assms(3)[OF i(1)] i(2) by (auto split: if_splits)
    then obtain t m where "L t = Some m" "t \<le> i" "i < t + m"
      using assms(1) i(1) unfolding interval_map_def by metis
    moreover have "t \<noteq> s" using calculation out(1) assms(2) by auto
    ultimately show ?thesis by (metis fun_upd_other)
  qed
  moreover have "0 < m \<and> t + m \<le> N \<and> (\<forall>i. t \<le> i \<and> i < t + m \<longrightarrow> Q i)" if "(L(s := None)) t = Some m" for t m
  proof -
    have t: "L t = Some m" "t \<noteq> s" using that by (auto split: if_splits)
    then have p: "0 < m" "t + m \<le> N" "\<forall>i. t \<le> i \<and> i < t + m \<longrightarrow> P i"
      using assms(1) unfolding interval_map_def by blast+
    have "s + n \<le> t \<or> t + m \<le> s" using assms(1,2) t unfolding interval_map_def by metis
    then show ?thesis using p assms(3) by auto
  qed
  moreover have "t + m \<le> t' \<or> t' + m' \<le> t"
    if "(L(s := None)) t = Some m" "(L(s := None)) t' = Some m'" "t \<noteq> t'" for t m t' m'
    using that assms(1) unfolding interval_map_def by (auto split: if_splits)
  ultimately show ?thesis unfolding interval_map_def by blast
qed

lemma cnt_const:
  "(\<And>i. a \<le> i \<Longrightarrow> i < b \<Longrightarrow> P i) \<Longrightarrow> cnt P a b = b - a"
  "(\<And>i. a \<le> i \<Longrightarrow> i < b \<Longrightarrow> \<not> P i) \<Longrightarrow> cnt P a b = 0"
proof -
  assume "\<And>i. a \<le> i \<Longrightarrow> i < b \<Longrightarrow> \<not> P i"
  then show "cnt P a b = 0" by (auto simp: cnt_def)
next
  assume "\<And>i. a \<le> i \<Longrightarrow> i < b \<Longrightarrow> P i"
  then have "cnt P a b = cnt (\<lambda>_. True) a b" by (intro cnt_cong) simp
  then show "cnt P a b = b - a" by (simp add: cnt_def)
qed

lemma cnt_free_run:
  assumes "free_run P s n" "s + n \<le> N"
  shows "cnt P 0 N + n \<le> N"
proof -
  have "cnt P s (s + n) = 0" using assms(1) by (auto simp: free_run_def intro: cnt_const(2))
  then show ?thesis
    using cnt_split[of 0 s "s + n" P] cnt_split[of 0 "s + n" N P] assms(2) cnt_le[of P 0 s] cnt_le[of P "s + n" N]
    by simp
qed

text \<open>Setting a clear interval raises the number of set bits by its length, clearing a set one lowers it.\<close>

lemma cnt_mark:
  assumes "s + n \<le> N" "\<And>i. i < N \<Longrightarrow> Q i = (if s \<le> i \<and> i < s + n then v else P i)"
    "\<And>i. s \<le> i \<Longrightarrow> i < s + n \<Longrightarrow> P i \<noteq> v"
  shows "cnt Q 0 N = (if v then cnt P 0 N + n else cnt P 0 N - n)" "\<not> v \<Longrightarrow> n \<le> cnt P 0 N"
proof -
  have split: "cnt R 0 N = cnt R 0 s + cnt R s (s + n) + cnt R (s + n) N" for R
    using cnt_split[of 0 s "s + n" R] cnt_split[of 0 "s + n" N R] assms(1) by simp
  have "cnt Q 0 s = cnt P 0 s" "cnt Q (s + n) N = cnt P (s + n) N"
    using assms(1,2) by (auto intro!: cnt_cong)
  moreover have "cnt Q s (s + n) = (if v then n else 0)" "cnt P s (s + n) = (if v then 0 else n)"
    using assms by (auto simp: cnt_const)
  ultimately show "cnt Q 0 N = (if v then cnt P 0 N + n else cnt P 0 N - n)" "\<not> v \<Longrightarrow> n \<le> cnt P 0 N"
    unfolding split[of Q] split[of P] by simp_all
qed

locale range_bitmap =
  fixes ok :: "'b \<Rightarrow> bool" and bits :: "'b \<Rightarrow> nat \<Rightarrow> bool" and nbits :: "'b \<Rightarrow> nat"
    and mark :: "'b \<Rightarrow> nat \<Rightarrow> nat \<Rightarrow> bool \<Rightarrow> 'b result"
  assumes mark_law: "ok b \<Longrightarrow> s < nbits b \<Longrightarrow> s + n \<le> nbits b \<Longrightarrow>
      (\<And>i. s \<le> i \<Longrightarrow> i < s + n \<Longrightarrow> bits b i \<noteq> v) \<Longrightarrow>
      \<exists>b'. mark b s n v = Inr b' \<and> ok b' \<and> nbits b' = nbits b \<and>
        (\<forall>i<nbits b. bits b' i = (if s \<le> i \<and> i < s + n then v else bits b i))"
begin

lemma mark_used:
  assumes "ok b" "interval_map L (bits b) (nbits b)" "0 < n" "s + n \<le> nbits b" "free_run (bits b) s n"
  obtains b' where "mark b s n True = Inr b'" "ok b'" "nbits b' = nbits b"
    "interval_map (L(s \<mapsto> n)) (bits b') (nbits b)" "cnt (bits b') 0 (nbits b) = cnt (bits b) 0 (nbits b) + n"
proof -
  have clear: "bits b i \<noteq> True" if "s \<le> i" "i < s + n" for i using assms(5) that by (simp add: free_run_def)
  have "s < nbits b" using assms(3,4) by simp
  from mark_law[OF assms(1) this assms(4) clear]
  obtain b' where b': "mark b s n True = Inr b'" "ok b'" "nbits b' = nbits b"
    "\<And>i. i < nbits b \<Longrightarrow> bits b' i = (if s \<le> i \<and> i < s + n then True else bits b i)" by auto
  show thesis
    using that[OF b'(1-3) interval_map_add[OF assms(2-5) b'(4)]] cnt_mark(1)[OF assms(4) b'(4)] clear by simp
qed

lemma mark_free:
  assumes "ok b" "interval_map L (bits b) (nbits b)" "L s = Some n"
  obtains b' where "mark b s n False = Inr b'" "ok b'" "nbits b' = nbits b"
    "interval_map (L(s := None)) (bits b') (nbits b)" "cnt (bits b') 0 (nbits b) = cnt (bits b) 0 (nbits b) - n"
    "n \<le> cnt (bits b) 0 (nbits b)"
proof -
  have L: "0 < n" "s + n \<le> nbits b" "\<And>i. s \<le> i \<Longrightarrow> i < s + n \<Longrightarrow> bits b i \<noteq> False"
    using assms(2,3) unfolding interval_map_def by blast+
  have "s < nbits b" using L by simp
  from mark_law[OF assms(1) this L(2) L(3)]
  obtain b' where b': "mark b s n False = Inr b'" "ok b'" "nbits b' = nbits b"
    "\<And>i. i < nbits b \<Longrightarrow> bits b' i = (if s \<le> i \<and> i < s + n then False else bits b i)" by auto
  show thesis
    using that[OF b'(1-3) interval_map_remove[OF assms(2,3) b'(4)]] cnt_mark[OF L(2) b'(4) L(3)] by simp
qed

end

text \<open>A view with \<open>k\<close> bytes of data, at least one of them behind the last whole byte of bits.\<close>

definition bv_room :: "nat \<Rightarrow> bitmap_view \<Rightarrow> bool" where
  "bv_room k b \<longleftrightarrow> bv_wf b \<and> bv_size b div 8 < k \<and> length (bv_data b) = k"

interpretation bv_ranges: range_bitmap "bv_room k" "\<lambda>b. bit_at (bv_data b)" bv_size
  set_range_and_verify_that_all_bits_flip for k
proof unfold_locales
  fix b s n v
  assume a: "bv_room k b" "s < bv_size b" "s + n \<le> bv_size b" "\<And>i. s \<le> i \<Longrightarrow> i < s + n \<Longrightarrow> bit_at (bv_data b) i \<noteq> v"
  have "(s + n) div 8 \<le> bv_size b div 8" using a(3) by (rule div_le_mono)
  then have r: "(s + n) div 8 < length (bv_data b)" "bv_wf b" using a(1) by (auto simp: bv_room_def)
  have "set_range_and_verify_that_all_bits_flip b s n v = set_range_t v True b s n"
    by (simp add: set_range_and_verify_that_all_bits_flip_def)
  then obtain b' where b': "set_range_and_verify_that_all_bits_flip b s n v = Inr b'"
    "bv_updated b (\<lambda>i. if s \<le> i \<and> i < s + n then v else bit_at (bv_data b) i) b'"
    using set_range_t_spec[OF r(2) a(2,3) r(1), of True v] a(4) by auto
  moreover have "bv_room k b'" using b'(2) a(1) by (auto simp: bv_room_def bv_updated_def bv_wf_def size_in_bytes_def)
  ultimately show "\<exists>b'. set_range_and_verify_that_all_bits_flip b s n v = Inr b' \<and> bv_room k b' \<and> bv_size b' = bv_size b \<and>
    (\<forall>i<bv_size b. bit_at (bv_data b') i = (if s \<le> i \<and> i < s + n then v else bit_at (bv_data b) i))"
    using bv_wf_index[OF r(2)] by (auto simp: bv_updated_def)
qed

end
