(* ===== verification/Kernel_Heap.thy ===== *)
theory Kernel_Heap
  imports AK_BitmapRanges
begin

text \<open>
  \<^verbatim>\<open>Kernel/Heap/Heap.h\<close>: the chunk allocator \<open>Heap\<close> behind \<open>kmalloc\<close>. A heap is a block of memory split
  into chunks, followed by a bitmap with one bit per chunk; every allocation starts with a header
  that holds its length in chunks. The template parameters are fields of the record. Addresses
  and sizes are those of the i686 build, so a header takes four bytes.
\<close>

subsection \<open>Heap\<close>

record heap =
  h_chunk_size :: nat
  h_scrub_alloc :: u8
  h_scrub_free :: u8
  h_total_chunks :: nat
  h_allocated_chunks :: nat
  h_chunks :: nat
  h_mem :: "u8 list"
  h_bitmap :: bitmap_view

definition sizeof_AllocationHeader :: nat where
  "sizeof_AllocationHeader = 4"

text \<open>A little-endian 32-bit store.\<close>

definition store32 :: "u8 list \<Rightarrow> nat \<Rightarrow> u32 \<Rightarrow> u8 list result" where
  "store32 d i w =
     (if i + 4 \<le> length d
      then Inr (d[i := ucast w, i + 1 := ucast (drop_bit 8 w), i + 2 := ucast (drop_bit 16 w),
        i + 3 := ucast (drop_bit 24 w)])
      else Inl OutOfBounds)"

definition calculate_chunks :: "nat \<Rightarrow> nat \<Rightarrow> nat" where
  "calculate_chunks chunk_size memory_size = memory_size div (chunk_size + 1)"

text \<open>\<open>bytes\<close> is the memory from \<open>memory\<close> on; the bitmap lies behind the chunks and is not cleared.\<close>

definition heap_new :: "nat \<Rightarrow> u8 \<Rightarrow> u8 \<Rightarrow> nat \<Rightarrow> u8 list \<Rightarrow> nat \<Rightarrow> heap result" where
  "heap_new chunk_size scrub_alloc scrub_free memory bytes memory_size =
     (let total = calculate_chunks chunk_size memory_size in
      and_then (verify (total * chunk_size + (total + 7) div 8 \<le> memory_size)) (\<lambda>_.
      Inr \<lparr>h_chunk_size = chunk_size, h_scrub_alloc = scrub_alloc, h_scrub_free = scrub_free,
        h_total_chunks = total, h_allocated_chunks = 0, h_chunks = memory,
        h_mem = take (total * chunk_size) bytes,
        h_bitmap = \<lparr>bv_addr = memory + total * chunk_size,
          bv_data = drop (total * chunk_size) (take memory_size bytes), bv_size = total\<rparr>\<rparr>))"

definition calculate_memory_for_bytes :: "nat \<Rightarrow> nat \<Rightarrow> nat" where
  "calculate_memory_for_bytes chunk_size bytes =
     (let needed_chunks = usize (sizeof_AllocationHeader + bytes + chunk_size - 1) div chunk_size in
      usize (needed_chunks * chunk_size + (needed_chunks + 7) div 8))"

definition free_chunks :: "heap \<Rightarrow> nat" where
  "free_chunks h = usub (h_total_chunks h) (h_allocated_chunks h)"

definition total_bytes :: "heap \<Rightarrow> nat" where
  "total_bytes h = usize (h_total_chunks h * h_chunk_size h)"

definition free_bytes :: "heap \<Rightarrow> nat" where
  "free_bytes h = usize (free_chunks h * h_chunk_size h)"

definition allocated_bytes :: "heap \<Rightarrow> nat" where
  "allocated_bytes h = usize (h_allocated_chunks h * h_chunk_size h)"

definition best_fit_threshold :: nat where
  "best_fit_threshold = 128"

definition find_chunks :: "bitmap_view \<Rightarrow> nat \<Rightarrow> nat option result" where
  "find_chunks b chunks_needed =
     (if chunks_needed < best_fit_threshold then find_first_fit b chunks_needed
      else returned (find_best_fit b chunks_needed))"

text \<open>The second component of the result is the returned pointer, 0 for \<open>nullptr\<close>.\<close>

definition heap_allocate :: "heap \<Rightarrow> nat \<Rightarrow> (heap \<times> nat) result" where
  "heap_allocate h nbytes =
     (let real_size = usize (nbytes + sizeof_AllocationHeader);
          chunks_needed = usize (real_size + h_chunk_size h - 1) div h_chunk_size h in
      if chunks_needed > free_chunks h then Inr (h, 0)
      else and_then (find_chunks (h_bitmap h) chunks_needed) (\<lambda>first_chunk.
        case first_chunk of None \<Rightarrow> Inr (h, 0)
        | Some first_c \<Rightarrow>
            let a = first_c * h_chunk_size h in
            and_then (store32 (h_mem h) a (of_nat chunks_needed)) (\<lambda>mem1.
            and_then (set_range_and_verify_that_all_bits_flip (h_bitmap h) first_c chunks_needed True) (\<lambda>bitmap1.
            and_then
              (if h_scrub_alloc h \<noteq> 0
               then memset mem1 (a + sizeof_AllocationHeader) (h_scrub_alloc h)
                      (usub (chunks_needed * h_chunk_size h) sizeof_AllocationHeader)
               else Inr mem1) (\<lambda>mem2.
            Inr (h\<lparr>h_mem := mem2, h_bitmap := bitmap1,
                   h_allocated_chunks := h_allocated_chunks h + chunks_needed\<rparr>,
                 h_chunks h + a + sizeof_AllocationHeader))))))"

definition heap_deallocate :: "heap \<Rightarrow> nat \<Rightarrow> heap result" where
  "heap_deallocate h ptr =
     (if ptr = 0 then Inr h
      else let a = usub ptr sizeof_AllocationHeader in
        and_then (verify (a \<ge> h_chunks h \<and> ptr < h_chunks h + h_total_chunks h * h_chunk_size h)) (\<lambda>_.
        let start = (a - h_chunks h) div h_chunk_size h in
        and_then (bv_get (h_bitmap h) start) (\<lambda>used.
        and_then (verify used) (\<lambda>_.
        and_then (load32 (h_mem h) (a - h_chunks h)) (\<lambda>header.
        let n = unat header in
        and_then (verify (usize (a + n * h_chunk_size h) \<le> h_chunks h + h_total_chunks h * h_chunk_size h)) (\<lambda>_.
        and_then (set_range_and_verify_that_all_bits_flip (h_bitmap h) start n False) (\<lambda>bitmap1.
        and_then (verify (h_allocated_chunks h \<ge> n)) (\<lambda>_.
        and_then
          (if h_scrub_free h \<noteq> 0
           then memset (h_mem h) (a - h_chunks h) (h_scrub_free h) (usize (n * h_chunk_size h))
           else Inr (h_mem h)) (\<lambda>mem1.
        Inr (h\<lparr>h_mem := mem1, h_bitmap := bitmap1, h_allocated_chunks := h_allocated_chunks h - n\<rparr>))))))))))"

definition heap_contains :: "heap \<Rightarrow> nat \<Rightarrow> bool" where
  "heap_contains h ptr =
     (let a = usub ptr sizeof_AllocationHeader in
      if a < h_chunks h then False
      else if ptr \<ge> h_chunks h + h_total_chunks h * h_chunk_size h then False
      else True)"

subsection \<open>The invariant\<close>

text \<open>
  \<open>live\<close> maps the first chunk of every live allocation to its number of chunks. The set bits are
  the chunks of the live allocations, the counter is their number, and every header holds the
  length of its allocation.
\<close>

definition heap_inv :: "heap \<Rightarrow> (nat \<Rightarrow> nat option) \<Rightarrow> bool" where
  "heap_inv h live \<longleftrightarrow>
     sizeof_AllocationHeader < h_chunk_size h \<and> 0 < h_chunks h \<and>
     h_chunks h + h_total_chunks h * h_chunk_size h < 2 ^ 32 \<and>
     length (h_mem h) = h_total_chunks h * h_chunk_size h \<and>
     bv_size (h_bitmap h) = h_total_chunks h \<and> 
     (0 < h_total_chunks h \<longrightarrow> bv_room (length (bv_data (h_bitmap h))) (h_bitmap h)) \<and>
     h_total_chunks h \<le> length (bv_data (h_bitmap h)) \<and>
     interval_map live (bit_at (bv_data (h_bitmap h))) (h_total_chunks h) \<and>
     h_allocated_chunks h = cnt (bit_at (bv_data (h_bitmap h))) 0 (h_total_chunks h) \<and>
     (\<forall>s n. live s = Some n \<longrightarrow> load32 (h_mem h) (s * h_chunk_size h) = Inr (of_nat n))"

text \<open>The bytes of an allocation that its owner may use.\<close>

definition payload :: "heap \<Rightarrow> nat \<Rightarrow> nat \<Rightarrow> u8 list" where
  "payload h s n = take (n * h_chunk_size h - 4) (drop (s * h_chunk_size h + 4) (h_mem h))"

lemma length_store32: "store32 d i w = Inr d' \<Longrightarrow> length d' = length d"
  by (auto simp: store32_def split: if_splits)

lemma store32_other: "store32 d i w = Inr d' \<Longrightarrow> j < i \<or> i + 4 \<le> j \<Longrightarrow> d' ! j = d ! j"
  by (auto simp: store32_def split: if_splits)

lemma load_store32:
  assumes "i + 4 \<le> length d"
  obtains d' where "store32 d i w = Inr d'" "load32 d' i = Inr w"
proof -
  let ?d = "d[i := ucast w, i + 1 := ucast (drop_bit 8 w), i + 2 := ucast (drop_bit 16 w), i + 3 := ucast (drop_bit 24 w)]"
  have nth: "?d ! i = ucast w" "?d ! (i + 1) = ucast (drop_bit 8 w)" "?d ! (i + 2) = ucast (drop_bit 16 w)"
    "?d ! (i + 3) = ucast (drop_bit 24 w)" using assms by simp_all
  have "load32 ?d i = Inr (ucast (ucast w :: u8) OR push_bit 8 (ucast (ucast (drop_bit 8 w) :: u8))
      OR push_bit 16 (ucast (ucast (drop_bit 16 w) :: u8)) OR push_bit 24 (ucast (ucast (drop_bit 24 w) :: u8)))"
    using assms nth by (simp add: load32_def)
  also have "ucast (ucast w :: u8) OR push_bit 8 (ucast (ucast (drop_bit 8 w) :: u8))
      OR push_bit 16 (ucast (ucast (drop_bit 16 w) :: u8)) OR push_bit 24 (ucast (ucast (drop_bit 24 w) :: u8)) = w"
  proof (rule bit_eqI)
    fix n :: nat
    consider "n < 8" | "8 \<le> n \<and> n < 16" | "16 \<le> n \<and> n < 24" | "24 \<le> n" by linarith
    then show "bit ((ucast (ucast w :: u8) :: u32) OR push_bit 8 (ucast (ucast (drop_bit 8 w) :: u8))
      OR push_bit 16 (ucast (ucast (drop_bit 16 w) :: u8)) OR push_bit 24 (ucast (ucast (drop_bit 24 w) :: u8))) n
      = bit w n" if "possible_bit TYPE(u32) n"
      using that by cases (auto simp: bit_or_iff bit_push_bit_iff bit_ucast_iff bit_drop_bit_eq)
  qed
  finally show thesis using that[of ?d] assms by (simp add: store32_def)
qed

lemma load32_cong:
  assumes "length d = length d'" "\<And>j. i \<le> j \<Longrightarrow> j < i + 4 \<Longrightarrow> d ! j = d' ! j"
  shows "load32 d i = load32 d' i"
  using assms by (simp add: load32_def)

lemma memset_other:
  assumes "memset d i v n = Inr d'" "j < length d" "j < i \<or> i + n \<le> j"
  shows "d' ! j = d ! j"
  using assms by (auto simp: memset_def nth_append split: if_splits)

lemma length_memset: "memset d i v n = Inr d' \<Longrightarrow> length d' = length d"
  by (auto simp: memset_def split: if_splits)

lemma find_chunks_spec:
  assumes "bv_wf b" "0 < n" "n < 2 ^ 32"
  shows "\<exists>r. find_chunks b n = Inr r \<and>
    (case r of Some s \<Rightarrow> free_run (bit_at (bv_data b)) s n \<and> s + n \<le> bv_size b
     | None \<Rightarrow> (\<forall>u. u + n \<le> bv_size b \<longrightarrow> \<not> free_run (bit_at (bv_data b)) u n))"
proof (cases "n < best_fit_threshold")
  case True
  obtain r where "find_first_fit b n = Inr r"
    "case r of Some s \<Rightarrow> free_run (bit_at (bv_data b)) s n \<and> s + n \<le> bv_size b \<and>
        (\<forall>u. free_run (bit_at (bv_data b)) u n \<and> u + n \<le> bv_size b \<longrightarrow> s \<le> u)
     | None \<Rightarrow> (\<forall>u. u + n \<le> bv_size b \<longrightarrow> \<not> free_run (bit_at (bv_data b)) u n)"
    using find_first_fit_spec[OF assms(1,2)] by blast
  then show ?thesis using True by (cases r) (auto simp: find_chunks_def)
next
  case False
  then have "32 \<le> n" by (simp add: best_fit_threshold_def)
  then obtain r where "find_best_fit b n = Some (Inr r)"
    "case r of Some s \<Rightarrow> free_run (bit_at (bv_data b)) s n \<and> s + n \<le> bv_size b
     | None \<Rightarrow> (\<forall>u. u + n \<le> bv_size b \<longrightarrow> \<not> free_run (bit_at (bv_data b)) u n)"
    using find_best_fit_spec[OF assms(1) _ assms(3)] by blast
  then show ?thesis using False by (simp add: find_chunks_def)
qed

text \<open>Two different live allocations do not share a byte.\<close>

lemma chunks_apart: "s + n \<le> t \<Longrightarrow> (s + n) * c \<le> t * (c::nat)"
  by (rule mult_le_mono1)

text \<open>The pointer to the payload of the allocation that starts at chunk \<open>s\<close>.\<close>

definition heap_ptr :: "heap \<Rightarrow> nat \<Rightarrow> nat" where
  "heap_ptr h s = h_chunks h + s * h_chunk_size h + 4"

definition chunks_for :: "heap \<Rightarrow> nat \<Rightarrow> nat" where
  "chunks_for h nbytes = (nbytes + 4 + h_chunk_size h - 1) div h_chunk_size h"

definition request_ok :: "heap \<Rightarrow> nat \<Rightarrow> bool" where
  "request_ok h nbytes \<longleftrightarrow> nbytes + 4 + h_chunk_size h - 1 < 2 ^ 32"

lemma heap_inv_D:
  assumes "heap_inv h live"
  shows "4 < h_chunk_size h" "0 < h_chunks h" "h_chunks h + h_total_chunks h * h_chunk_size h < 2 ^ 32"
    "length (h_mem h) = h_total_chunks h * h_chunk_size h" "bv_size (h_bitmap h) = h_total_chunks h"
    "0 < h_total_chunks h \<Longrightarrow> bv_room (length (bv_data (h_bitmap h))) (h_bitmap h)"
    "interval_map live (bit_at (bv_data (h_bitmap h))) (h_total_chunks h)"
    "h_allocated_chunks h = cnt (bit_at (bv_data (h_bitmap h))) 0 (h_total_chunks h)"
    "live s = Some n \<Longrightarrow> load32 (h_mem h) (s * h_chunk_size h) = Inr (of_nat n)"
    "h_total_chunks h < 2 ^ 32" "h_total_chunks h \<le> length (bv_data (h_bitmap h))"
proof -
  show "h_total_chunks h \<le> length (bv_data (h_bitmap h))" using assms by (simp add: heap_inv_def)
  show "4 < h_chunk_size h" "0 < h_chunks h" "h_chunks h + h_total_chunks h * h_chunk_size h < 2 ^ 32"
    "length (h_mem h) = h_total_chunks h * h_chunk_size h" "bv_size (h_bitmap h) = h_total_chunks h"
    "0 < h_total_chunks h \<Longrightarrow> bv_room (length (bv_data (h_bitmap h))) (h_bitmap h)"
    "interval_map live (bit_at (bv_data (h_bitmap h))) (h_total_chunks h)"
    "h_allocated_chunks h = cnt (bit_at (bv_data (h_bitmap h))) 0 (h_total_chunks h)"
    "live s = Some n \<Longrightarrow> load32 (h_mem h) (s * h_chunk_size h) = Inr (of_nat n)"
    using assms by (simp_all add: heap_inv_def sizeof_AllocationHeader_def)
  then have "h_total_chunks h * 1 \<le> h_total_chunks h * h_chunk_size h" by (intro mult_le_mono2) simp
  then show "h_total_chunks h < 2 ^ 32"
    using \<open>h_chunks h + h_total_chunks h * h_chunk_size h < 2 ^ 32\<close> by linarith
qed

lemma heap_free_chunks: "heap_inv h live \<Longrightarrow> free_chunks h = h_total_chunks h - h_allocated_chunks h"
  using heap_inv_D(8,10)[of h live] cnt_le[of "bit_at (bv_data (h_bitmap h))" 0 "h_total_chunks h"]
  by (simp add: free_chunks_def)

lemma live_range:
  assumes "interval_map live P N" "live s = Some n"
  shows "0 < n" "s + n \<le> N"
  using assms unfolding interval_map_def by blast+

lemma payload_cong:
  assumes "length (h_mem h) = length (h_mem h')" "h_chunk_size h' = h_chunk_size h" "(s + n) * h_chunk_size h \<le> length (h_mem h)"
    "0 < n" "4 < h_chunk_size h"
    "\<And>j. s * h_chunk_size h + 4 \<le> j \<Longrightarrow> j < (s + n) * h_chunk_size h \<Longrightarrow> h_mem h' ! j = h_mem h ! j"
  shows "payload h' s n = payload h s n"
proof -
  have n: "h_chunk_size h \<le> n * h_chunk_size h" using assms(4) by simp
  show ?thesis unfolding payload_def assms(2)
    by (rule nth_equalityI) (use assms n in \<open>auto simp: algebra_simps\<close>)
qed

text \<open>The memory of a live allocation: all its chunks, header and payload.\<close>

definition mem_same :: "heap \<Rightarrow> heap \<Rightarrow> nat \<Rightarrow> nat \<Rightarrow> bool" where
  "mem_same h h' s n \<longleftrightarrow> (\<forall>j. s * h_chunk_size h \<le> j \<and> j < (s + n) * h_chunk_size h \<longrightarrow> h_mem h' ! j = h_mem h ! j)"

lemma mem_same_header:
  assumes "mem_same h h' s n" "0 < n" "4 < h_chunk_size h" "length (h_mem h') = length (h_mem h)"
  shows "load32 (h_mem h') (s * h_chunk_size h) = load32 (h_mem h) (s * h_chunk_size h)"
proof (rule load32_cong[OF assms(4)])
  fix j assume j: "s * h_chunk_size h \<le> j" "j < s * h_chunk_size h + 4"
  have "h_chunk_size h \<le> n * h_chunk_size h" using assms(2) by simp
  then have "j < (s + n) * h_chunk_size h" using j(2) assms(3) unfolding add_mult_distrib by linarith
  then show "h_mem h' ! j = h_mem h ! j" using assms(1) j(1) by (simp add: mem_same_def)
qed

lemma mem_same_apart:
  assumes "\<And>j. j < length (h_mem h) \<Longrightarrow> j < s * h_chunk_size h \<or> (s + n) * h_chunk_size h \<le> j \<Longrightarrow> h_mem h' ! j = h_mem h ! j"
    "s + n \<le> t \<or> t + m \<le> s" "(t + m) * h_chunk_size h \<le> length (h_mem h)"
  shows "mem_same h h' t m"
  unfolding mem_same_def
proof (intro allI impI, elim conjE)
  fix j assume j: "t * h_chunk_size h \<le> j" "j < (t + m) * h_chunk_size h"
  have "(s + n) * h_chunk_size h \<le> t * h_chunk_size h \<or> (t + m) * h_chunk_size h \<le> s * h_chunk_size h"
    using assms(2) by (metis mult_le_mono1)
  then show "h_mem h' ! j = h_mem h ! j" using j assms(3) by (intro assms(1)) linarith+
qed

lemma heap_allocate_unfold:
  assumes "heap_inv h live" "request_ok h nbytes"
  shows "heap_allocate h nbytes =
    (let n = chunks_for h nbytes in
     if n > h_total_chunks h - h_allocated_chunks h then Inr (h, 0)
     else and_then (find_chunks (h_bitmap h) n) (\<lambda>r. case r of None \<Rightarrow> Inr (h, 0)
      | Some s \<Rightarrow> and_then (store32 (h_mem h) (s * h_chunk_size h) (of_nat n)) (\<lambda>mem1.
          and_then (set_range_and_verify_that_all_bits_flip (h_bitmap h) s n True) (\<lambda>bitmap1.
          and_then (if h_scrub_alloc h \<noteq> 0
               then memset mem1 (s * h_chunk_size h + 4) (h_scrub_alloc h) (usub (n * h_chunk_size h) 4)
               else Inr mem1) (\<lambda>mem2.
          Inr (h\<lparr>h_mem := mem2, h_bitmap := bitmap1, h_allocated_chunks := h_allocated_chunks h + n\<rparr>,
               h_chunks h + s * h_chunk_size h + 4))))))"
proof -
  have "nbytes + 4 < 2 ^ 32" "nbytes + 4 + h_chunk_size h - 1 < 2 ^ 32"
    using assms heap_inv_D(1)[OF assms(1)] unfolding request_ok_def by linarith+
  then have "usize (usize (nbytes + 4) + h_chunk_size h - 1) = nbytes + 4 + h_chunk_size h - 1" by simp
  then show ?thesis
    unfolding heap_allocate_def chunks_for_def Let_def heap_free_chunks[OF assms(1)] sizeof_AllocationHeader_def
    by (simp only:)
qed

text \<open>Header store and scrubbing stay inside the chunks \<open>[s, s + n)\<close> and leave the header in place.\<close>

lemma heap_fill_chunks:
  assumes "4 < c" "0 < n" "(s + n) * c \<le> length d" "n * c < 2 ^ 32"
  obtains d1 d2 where "store32 d (s * c) w = Inr d1"
    "(if v \<noteq> 0 then memset d1 (s * c + 4) v (usub (n * c) 4) else Inr d1) = Inr d2"
    "length d2 = length d" "load32 d2 (s * c) = Inr w"
    "\<And>j. j < length d \<Longrightarrow> j < s * c \<or> (s + n) * c \<le> j \<Longrightarrow> d2 ! j = d ! j"
proof -
  have cn: "c \<le> n * c" "(s + n) * c = s * c + n * c" using assms(2) by (auto simp: add_mult_distrib)
  have fit: "s * c + 4 \<le> length d" "s * c + 4 + (n * c - 4) \<le> length d" using assms cn by linarith+
  obtain d1 where d1: "store32 d (s * c) w = Inr d1" "load32 d1 (s * c) = Inr w" using load_store32[OF fit(1)] by blast
  note len = length_store32[OF d1(1)]
  have u: "usub (n * c) 4 = n * c - 4" by (rule usub_ge) (use assms(1,4) cn(1) in linarith)+
  obtain d3 where d3: "memset d1 (s * c + 4) v (usub (n * c) 4) = Inr d3"
    unfolding u using memset_ok fit len by metis
  let ?d2 = "if v \<noteq> 0 then d3 else d1"
  have d2: "(if v \<noteq> 0 then memset d1 (s * c + 4) v (usub (n * c) 4) else Inr d1) = Inr ?d2"
    unfolding d3 by simp
  have len2: "length ?d2 = length d" using len length_memset[OF d3] by simp
  have nth: "?d2 ! j = d1 ! j" if "j < length d" "j < s * c + 4 \<or> s * c + n * c \<le> j" for j
  proof -
    have "j < s * c + 4 \<or> s * c + 4 + usub (n * c) 4 \<le> j" unfolding u using that(2) cn(1) assms(1) by linarith
    then show ?thesis using memset_other[OF d3, of j] that(1) len by simp
  qed
  have "load32 ?d2 (s * c) = Inr w"
    unfolding d1(2)[symmetric] by (rule load32_cong) (use len len2 nth fit(1) in auto)
  moreover have "?d2 ! j = d ! j" if "j < length d" "j < s * c \<or> (s + n) * c \<le> j" for j
  proof -
    have "j < s * c \<or> s * c + 4 \<le> j" "j < s * c + 4 \<or> s * c + n * c \<le> j" using that(2) cn assms(1) by linarith+
    then show ?thesis using nth[OF that(1)] store32_other[OF d1(1)] by simp
  qed
  ultimately show thesis using that[OF d1(1) d2 len2] by blast
qed

lemma chunks_for_pos: "4 < h_chunk_size h \<Longrightarrow> 0 < chunks_for h nbytes"
  by (simp add: chunks_for_def div_greater_zero_iff)

lemma chunks_for_room: "4 < h_chunk_size h \<Longrightarrow> nbytes + 4 \<le> chunks_for h nbytes * h_chunk_size h"
proof -
  assume c: "4 < h_chunk_size h"
  have "nbytes + 4 + h_chunk_size h - 1 < chunks_for h nbytes * h_chunk_size h + h_chunk_size h"
    unfolding chunks_for_def using c dividend_less_div_times[of "h_chunk_size h" "nbytes + 4 + h_chunk_size h - 1"] by simp
  then show ?thesis by linarith
qed

lemma heap_total_le: "heap_inv h live \<Longrightarrow> s + n \<le> h_total_chunks h \<Longrightarrow> (s + n) * h_chunk_size h \<le> length (h_mem h)"
  using heap_inv_D(4)[of h live] by simp

theorem heap_allocate_spec:
  assumes inv: "heap_inv h live" and req: "request_ok h nbytes"
  defines "n \<equiv> chunks_for h nbytes"
  shows "\<exists>h' p. heap_allocate h nbytes = Inr (h', p) \<and>
    (if p = 0 then h' = h \<and> (\<forall>u. u + n \<le> h_total_chunks h \<longrightarrow> \<not> free_run (bit_at (bv_data (h_bitmap h))) u n)
     else \<exists>s. p = heap_ptr h s \<and> live s = None \<and> heap_inv h' (live(s \<mapsto> n)) \<and>
       h_chunk_size h' = h_chunk_size h \<and> h_chunks h' = h_chunks h \<and> h_total_chunks h' = h_total_chunks h \<and>
       (\<forall>t m. live t = Some m \<longrightarrow> (s + n \<le> t \<or> t + m \<le> s) \<and> mem_same h h' t m))"
proof -
  let ?P = "bit_at (bv_data (h_bitmap h))" and ?c = "h_chunk_size h" and ?N = "h_total_chunks h"
  note D = heap_inv_D[OF inv]
  have n: "0 < n" unfolding n_def using chunks_for_pos D(1) by blast
  note eq = heap_allocate_unfold[OF inv req, folded n_def, unfolded Let_def]
  consider (full) "?N - h_allocated_chunks h < n" | (enough) "n \<le> ?N - h_allocated_chunks h" by linarith
  then show ?thesis
  proof cases
    case full
    have "\<not> free_run ?P u n" if "u + n \<le> ?N" for u
    proof
      assume "free_run ?P u n"
      then show False using full D(8) cnt_free_run[of ?P u n ?N] that by simp
    qed
    then show ?thesis using full eq by simp
  next
    case enough
    have N: "0 < ?N" using enough n by simp
    then have room: "bv_room (length (bv_data (h_bitmap h))) (h_bitmap h)" "bv_wf (h_bitmap h)" using D(6) by (auto simp: bv_room_def)
    have n32: "n < 2 ^ 32" using enough D(10) by linarith
    obtain r where r: "find_chunks (h_bitmap h) n = Inr r"
      "case r of Some s \<Rightarrow> free_run ?P s n \<and> s + n \<le> ?N | None \<Rightarrow> (\<forall>u. u + n \<le> ?N \<longrightarrow> \<not> free_run ?P u n)"
      using find_chunks_spec[OF room(2) n n32] unfolding D(5) by blast
    show ?thesis
    proof (cases r)
      case None
      then show ?thesis using r eq enough by simp
    next
      case (Some s)
      then have s: "free_run ?P s n" "s + n \<le> ?N" using r(2) by auto
      obtain b' where b': "set_range_and_verify_that_all_bits_flip (h_bitmap h) s n True = Inr b'" "bv_room (length (bv_data (h_bitmap h))) b'"
        "bv_size b' = ?N" "interval_map (live(s \<mapsto> n)) (bit_at (bv_data b')) ?N"
        "cnt (bit_at (bv_data b')) 0 ?N = cnt ?P 0 ?N + n"
        using bv_ranges.mark_used[OF room(1) _ n, of live s] D(5,7) s by auto
      have small: "(s + n) * ?c \<le> length (h_mem h)" "n * ?c < 2 ^ 32"
        using heap_total_le[OF inv s(2)] D(3,4) by (auto simp: add_mult_distrib)
      obtain d1 d2 where d: "store32 (h_mem h) (s * ?c) (of_nat n) = Inr d1"
        "(if h_scrub_alloc h \<noteq> 0 then memset d1 (s * ?c + 4) (h_scrub_alloc h) (usub (n * ?c) 4) else Inr d1) = Inr d2"
        "length d2 = length (h_mem h)" "load32 d2 (s * ?c) = Inr (of_nat n)"
        "\<And>j. j < length (h_mem h) \<Longrightarrow> j < s * ?c \<or> (s + n) * ?c \<le> j \<Longrightarrow> d2 ! j = h_mem h ! j"
        using heap_fill_chunks[OF D(1) n small, of "of_nat n" "h_scrub_alloc h"] by blast
      let ?h' = "h\<lparr>h_mem := d2, h_bitmap := b', h_allocated_chunks := h_allocated_chunks h + n\<rparr>"
      have al: "heap_allocate h nbytes = Inr (?h', h_chunks h + s * ?c + 4)"
        using eq enough r(1) Some d(1,2) b'(1) by simp
      have other: "(s + n \<le> t \<or> t + m \<le> s) \<and> mem_same h ?h' t m" if "live t = Some m" for t m
      proof -
        note sep = interval_free_apart[OF D(7) n s(1) that]
        have "(t + m) * ?c \<le> length (h_mem h)" using heap_total_le[OF inv] live_range(2)[OF D(7) that] by simp
        then have "mem_same h ?h' t m" using mem_same_apart[OF _ sep, of h ?h'] d(5) by simp
        then show ?thesis using sep by simp
      qed
      have "live s \<noteq> Some m" for m
        using interval_free_apart[OF D(7) n s(1), of s m] n live_range(1)[OF D(7), of s m] by auto
      then have "live s = None" by (cases "live s") auto
      moreover have "heap_inv ?h' (live(s \<mapsto> n))"
      proof -
        have "load32 d2 (t * ?c) = Inr (of_nat m)" if "(live(s \<mapsto> n)) t = Some m" for t m
          using that d(4) mem_same_header[of h ?h' t m] other[of t m] D(9)[of t m] live_range(1)[OF D(7), of t m] D(1) d(3)
          by (cases "t = s") auto
        then show ?thesis using D b' d(3) N by (auto simp: heap_inv_def sizeof_AllocationHeader_def bv_room_def)
      qed
      ultimately show ?thesis using al other
        by (intro exI[of _ ?h'] exI[of _ "heap_ptr h s"]) (auto simp: heap_ptr_def)
    qed
  qed
qed

lemma heap_ptr_facts:
  assumes inv: "heap_inv h live" and s: "s < h_total_chunks h"
  shows "heap_ptr h s \<noteq> 0" "usub (heap_ptr h s) 4 = h_chunks h + s * h_chunk_size h"
    "heap_ptr h s < h_chunks h + h_total_chunks h * h_chunk_size h"
    "(h_chunks h + s * h_chunk_size h - h_chunks h) div h_chunk_size h = s"
proof -
  note D = heap_inv_D[OF inv]
  have "Suc s * h_chunk_size h \<le> h_total_chunks h * h_chunk_size h" using s by (intro mult_le_mono1) simp
  then show lt: "heap_ptr h s < h_chunks h + h_total_chunks h * h_chunk_size h"
    unfolding heap_ptr_def using D(1) by simp
  show "heap_ptr h s \<noteq> 0" "(h_chunks h + s * h_chunk_size h - h_chunks h) div h_chunk_size h = s"
    using D(1) by (auto simp: heap_ptr_def)
  have "usub (heap_ptr h s) 4 = heap_ptr h s - 4"
    by (rule usub_ge) (use lt D(3) in \<open>simp_all add: heap_ptr_def\<close>)
  then show "usub (heap_ptr h s) 4 = h_chunks h + s * h_chunk_size h" by (simp add: heap_ptr_def)
qed

lemma heap_deallocate_unfold:
  assumes inv: "heap_inv h live" and s: "s < h_total_chunks h"
  shows "heap_deallocate h (heap_ptr h s) =
    and_then (verify (bit_at (bv_data (h_bitmap h)) s)) (\<lambda>_.
    and_then (load32 (h_mem h) (s * h_chunk_size h)) (\<lambda>header.
    let n = unat header in
    and_then (verify (usize (h_chunks h + s * h_chunk_size h + n * h_chunk_size h)
        \<le> h_chunks h + h_total_chunks h * h_chunk_size h)) (\<lambda>_.
    and_then (set_range_and_verify_that_all_bits_flip (h_bitmap h) s n False) (\<lambda>bitmap1.
    and_then (verify (h_allocated_chunks h \<ge> n)) (\<lambda>_.
    and_then
      (if h_scrub_free h \<noteq> 0
       then memset (h_mem h) (s * h_chunk_size h) (h_scrub_free h) (usize (n * h_chunk_size h))
       else Inr (h_mem h)) (\<lambda>mem1.
    Inr (h\<lparr>h_mem := mem1, h_bitmap := bitmap1, h_allocated_chunks := h_allocated_chunks h - n\<rparr>)))))))"
proof -
  note P = heap_ptr_facts[OF assms]
  have "bv_wf (h_bitmap h)" using heap_inv_D(6)[OF inv] s by (simp add: bv_room_def)
  then have g: "bv_get (h_bitmap h) s = Inr (bit_at (bv_data (h_bitmap h)) s)"
    using bv_get_spec heap_inv_D(5)[OF inv] s by simp
  have v: "(h_chunks h \<le> h_chunks h + s * h_chunk_size h \<and>
    heap_ptr h s < h_chunks h + h_total_chunks h * h_chunk_size h) = True" using P(3) by simp
  show ?thesis
    unfolding heap_deallocate_def Let_def sizeof_AllocationHeader_def P(2,4) v g
    using P(1) by (simp only: verify_True and_then.simps if_False diff_add_inverse)
qed

lemma heap_scrub_chunks:
  assumes "(s + n) * c \<le> length d" "n * c < 2 ^ 32"
  obtains d1 where "(if v \<noteq> 0 then memset d (s * c) v (usize (n * c)) else Inr d) = Inr d1"
    "length d1 = length d" "\<And>j. j < length d \<Longrightarrow> j < s * c \<or> (s + n) * c \<le> j \<Longrightarrow> d1 ! j = d ! j"
proof -
  have e: "s * c + n * c \<le> length d" "(s + n) * c = s * c + n * c" using assms(1) by (simp_all add: add_mult_distrib)
  have u: "usize (n * c) = n * c" using assms(2) by simp
  obtain d2 where d2: "memset d (s * c) v (usize (n * c)) = Inr d2" unfolding u using memset_ok[OF e(1)] by blast
  show thesis
    using that[of "if v \<noteq> 0 then d2 else d"] d2 length_memset[OF d2] memset_other[OF d2] e(2) u by simp
qed

theorem heap_deallocate_spec:
  assumes inv: "heap_inv h live" and s: "live s = Some n"
  shows "\<exists>h'. heap_deallocate h (heap_ptr h s) = Inr h' \<and> heap_inv h' (live(s := None)) \<and>
    h_allocated_chunks h' + n = h_allocated_chunks h \<and>
    h_chunk_size h' = h_chunk_size h \<and> h_chunks h' = h_chunks h \<and> h_total_chunks h' = h_total_chunks h \<and>
    (\<forall>t m. live t = Some m \<longrightarrow> t \<noteq> s \<longrightarrow> mem_same h h' t m)"
proof -
  let ?P = "bit_at (bv_data (h_bitmap h))" and ?c = "h_chunk_size h" and ?N = "h_total_chunks h"
  note D = heap_inv_D[OF inv]
  note r = live_range[OF D(7) s]
  have N: "s < ?N" using r by simp
  have bit: "?P s" using D(7) s r unfolding interval_map_def by auto
  have n32: "unat (of_nat n :: u32) = n" using r D(10) by (simp add: unsigned_of_nat take_bit_nat_eq_self)
  have small: "(s + n) * ?c \<le> length (h_mem h)" "n * ?c < 2 ^ 32"
    using heap_total_le[OF inv r(2)] D(3,4) by (auto simp: add_mult_distrib)
  have v: "usize (h_chunks h + s * ?c + n * ?c) \<le> h_chunks h + ?N * ?c"
    using small(1) D(3,4) by (simp add: add_mult_distrib)
  obtain b' where b': "set_range_and_verify_that_all_bits_flip (h_bitmap h) s n False = Inr b'" "bv_room (length (bv_data (h_bitmap h))) b'"
    "bv_size b' = ?N" "interval_map (live(s := None)) (bit_at (bv_data b')) ?N"
    "cnt (bit_at (bv_data b')) 0 ?N = cnt ?P 0 ?N - n" "n \<le> cnt ?P 0 ?N"
    using bv_ranges.mark_free[of "length (bv_data (h_bitmap h))" "h_bitmap h" live s n] D(5,6,7) s N by auto
  obtain d where d: "(if h_scrub_free h \<noteq> 0 then memset (h_mem h) (s * ?c) (h_scrub_free h) (usize (n * ?c)) else Inr (h_mem h)) = Inr d"
    "length d = length (h_mem h)" "\<And>j. j < length (h_mem h) \<Longrightarrow> j < s * ?c \<or> (s + n) * ?c \<le> j \<Longrightarrow> d ! j = h_mem h ! j"
    using heap_scrub_chunks[OF small] by blast
  let ?h' = "h\<lparr>h_mem := d, h_bitmap := b', h_allocated_chunks := h_allocated_chunks h - n\<rparr>"
  have "heap_deallocate h (heap_ptr h s) = Inr ?h'"
    unfolding heap_deallocate_unfold[OF inv N] D(9)[OF s] and_then.simps Let_def n32 b'(1) d(1)
    using bit v b'(6) D(8) by simp
  moreover have other: "mem_same h ?h' t m" if t: "live t = Some m" "t \<noteq> s" for t m
  proof -
    have sep: "s + n \<le> t \<or> t + m \<le> s" using D(7) s t unfolding interval_map_def by metis
    show ?thesis
      using mem_same_apart[OF _ sep, of h ?h'] d(3) heap_total_le[OF inv] live_range(2)[OF D(7) t(1)] by simp
  qed
  moreover have "heap_inv ?h' (live(s := None))"
  proof -
    have "load32 d (t * ?c) = Inr (of_nat m)" if "(live(s := None)) t = Some m" for t m
      using that mem_same_header[of h ?h' t m] other[of t m] D(9)[of t m] live_range(1)[OF D(7), of t m] D(1) d(2)
      by (auto split: if_splits)
    then show ?thesis using D b' d(2) by (auto simp: heap_inv_def sizeof_AllocationHeader_def bv_room_def)
  qed
  ultimately show ?thesis using b'(6) D(8) by (intro exI[of _ ?h']) simp
qed

text \<open>A pointer to a chunk that is not in use, a block freed twice in particular, trips the \<open>VERIFY\<close> at
  the head of \<open>deallocate\<close> and changes nothing.\<close>

theorem heap_double_free_caught:
  assumes "heap_inv h live" "s < h_total_chunks h" "\<not> bit_at (bv_data (h_bitmap h)) s"
  shows "heap_deallocate h (heap_ptr h s) = Inl VerifyFailed"
  unfolding heap_deallocate_unfold[OF assms(1,2)] using assms(3) by simp

lemma heap_contains_ptr: "heap_inv h live \<Longrightarrow> s < h_total_chunks h \<Longrightarrow> heap_contains h (heap_ptr h s)"
  using heap_ptr_facts[of h live s] by (simp add: heap_contains_def sizeof_AllocationHeader_def Let_def)

subsection \<open>Reallocation\<close>

text \<open>
  \<open>__builtin_memcpy(new_ptr, ptr, len)\<close> between two addresses of the heap. The source may run past
  the chunks into the bitmap, which follows them in memory.
\<close>

definition heap_copy :: "heap \<Rightarrow> nat \<Rightarrow> nat \<Rightarrow> nat \<Rightarrow> heap result" where
  "heap_copy h new_ptr ptr len =
     (let dst = new_ptr - h_chunks h; src = ptr - h_chunks h; bytes = h_mem h @ bv_data (h_bitmap h) in
      if dst + len \<le> length (h_mem h) \<and> src + len \<le> length bytes
      then Inr (h\<lparr>h_mem := take dst (h_mem h) @ take len (drop src bytes) @ drop (dst + len) (h_mem h)\<rparr>)
      else Inl OutOfBounds)"

definition heap_reallocate :: "heap \<Rightarrow> nat \<Rightarrow> nat \<Rightarrow> (heap \<times> nat) result" where
  "heap_reallocate h ptr new_size =
     (if ptr = 0 then heap_allocate h new_size
      else let a = usub ptr sizeof_AllocationHeader in
        and_then (verify (a \<ge> h_chunks h \<and> ptr < h_chunks h + h_total_chunks h * h_chunk_size h)) (\<lambda>_.
        and_then (load32 (h_mem h) (a - h_chunks h)) (\<lambda>header.
        and_then (verify (usize (a + unat header * h_chunk_size h) \<le> h_chunks h + h_total_chunks h * h_chunk_size h)) (\<lambda>_.
        let old_size = usize (unat header * h_chunk_size h) in
        if old_size = new_size then Inr (h, ptr)
        else
          and_then (heap_allocate h new_size) (\<lambda>(h1, new_ptr).
          and_then (if new_ptr \<noteq> 0 then heap_copy h1 new_ptr ptr (min old_size new_size) else Inr h1) (\<lambda>h2.
          and_then (heap_deallocate h2 ptr) (\<lambda>h3. Inr (h3, new_ptr))))))))"

text \<open>A write into the payload of a live allocation keeps the invariant and every other allocation.\<close>

lemma heap_write_payload:
  assumes inv: "heap_inv h live" and t: "live t = Some m" and len: "length d = length (h_mem h)"
    and same: "\<And>j. j < length (h_mem h) \<Longrightarrow> j < t * h_chunk_size h + 4 \<or> (t + m) * h_chunk_size h \<le> j \<Longrightarrow> d ! j = h_mem h ! j"
  shows "heap_inv (h\<lparr>h_mem := d\<rparr>) live" "live u = Some k \<Longrightarrow> u \<noteq> t \<Longrightarrow> mem_same h (h\<lparr>h_mem := d\<rparr>) u k"
proof -
  let ?c = "h_chunk_size h"
  note D = heap_inv_D[OF inv]
  note r = live_range[OF D(7) t]
  have other: "mem_same h (h\<lparr>h_mem := d\<rparr>) u k" if u: "live u = Some k" "u \<noteq> t" for u k
  proof -
    have sep: "t + m \<le> u \<or> u + k \<le> t" using D(7) t u unfolding interval_map_def by metis
    show ?thesis
      by (rule mem_same_apart[OF _ sep])
        (use same heap_total_le[OF inv] live_range(2)[OF D(7) u(1)] in auto)
  qed
  then show "live u = Some k \<Longrightarrow> u \<noteq> t \<Longrightarrow> mem_same h (h\<lparr>h_mem := d\<rparr>) u k" .
  have "load32 d (u * ?c) = Inr (of_nat k)" if u: "live u = Some k" for u k
  proof (cases "u = t")
    case True
    have "?c \<le> m * ?c" using r(1) by simp
    then have "t * ?c + 4 < (t + m) * ?c" using D(1) unfolding add_mult_distrib by linarith
    then have "t * ?c + 4 \<le> length (h_mem h)" using heap_total_le[OF inv r(2)] by linarith
    then have "load32 d (t * ?c) = load32 (h_mem h) (t * ?c)"
      by (intro load32_cong[OF len]) (use same in auto)
    then show ?thesis using D(9)[OF t] True t u by simp
  next
    case False
    show ?thesis
      using mem_same_header[OF other[OF u False] live_range(1)[OF D(7) u] D(1)] len D(9)[OF u] by simp
  qed
  then show "heap_inv (h\<lparr>h_mem := d\<rparr>) live" using D len by (simp add: heap_inv_def sizeof_AllocationHeader_def)
qed

lemma nth_splice:
  assumes "i + n \<le> length d" "k + n \<le> length b" "j < length d"
  shows "(take i d @ take n (drop k b) @ drop (i + n) d) ! j = (if j < i \<or> i + n \<le> j then d ! j else b ! (k + (j - i)))"
proof -
  have "length (take n (drop k b)) = n" "length (take i d) = i" using assms by simp_all
  then show ?thesis using assms by (auto simp: nth_append simp del: length_take)
qed

lemma length_splice:
  "i + n \<le> length d \<Longrightarrow> k + n \<le> length b \<Longrightarrow> length (take i d @ take n (drop k b) @ drop (i + n) d) = length d"
  by simp

lemma heap_copy_spec:
  assumes inv: "heap_inv h live" and t: "live t = Some m" and s: "live s = Some n" and ts: "t \<noteq> s"
    and len: "len \<le> n * h_chunk_size h" "len + 4 \<le> m * h_chunk_size h"
    and slack: "4 \<le> length (bv_data (h_bitmap h))"
  shows "\<exists>h'. heap_copy h (heap_ptr h t) (heap_ptr h s) len = Inr h' \<and> heap_inv h' live \<and>
    h_chunk_size h' = h_chunk_size h \<and> h_chunks h' = h_chunks h \<and>
    (\<forall>u k. live u = Some k \<longrightarrow> u \<noteq> t \<longrightarrow> mem_same h h' u k) \<and>
    (\<forall>j. j < len \<longrightarrow> s * h_chunk_size h + 4 + j < (s + n) * h_chunk_size h \<longrightarrow>
       h_mem h' ! (t * h_chunk_size h + 4 + j) = h_mem h ! (s * h_chunk_size h + 4 + j))"
proof -
  let ?c = "h_chunk_size h" and ?b = "h_mem h @ bv_data (h_bitmap h)"
  note D = heap_inv_D[OF inv]
  let ?dst = "t * ?c + 4" and ?src = "s * ?c + 4"
  have tot: "(t + m) * ?c \<le> length (h_mem h)" "(s + n) * ?c \<le> length (h_mem h)"
    using heap_total_le[OF inv] live_range(2)[OF D(7)] t s by auto
  have e: "(t + m) * ?c = t * ?c + m * ?c" "(s + n) * ?c = s * ?c + n * ?c" by (simp_all add: add_mult_distrib)
  have fit: "?dst + len \<le> length (h_mem h)" "?src + len \<le> length ?b"
    unfolding length_append using tot len slack e by linarith+
  let ?d = "take ?dst (h_mem h) @ take len (drop ?src ?b) @ drop (?dst + len) (h_mem h)"
  have cp: "heap_copy h (heap_ptr h t) (heap_ptr h s) len = Inr (h\<lparr>h_mem := ?d\<rparr>)"
    using fit by (simp add: heap_copy_def heap_ptr_def Let_def)
  have nth: "?d ! j = (if j < ?dst \<or> ?dst + len \<le> j then h_mem h ! j else ?b ! (?src + (j - ?dst)))" if "j < length (h_mem h)" for j
    using nth_splice[OF fit that] .
  have len_d: "length ?d = length (h_mem h)" using length_splice[OF fit] .
  have out: "?d ! j = h_mem h ! j" if "j < length (h_mem h)" "j < ?dst \<or> (t + m) * ?c \<le> j" for j
  proof -
    have "j < ?dst \<or> ?dst + len \<le> j" using that(2) len(2) e(1) by linarith
    then show ?thesis using nth[OF that(1)] by (simp only: if_True)
  qed
  note W = heap_write_payload[OF inv t len_d out]
  have "?d ! (?dst + j) = h_mem h ! (?src + j)" if "j < len" "?src + j < (s + n) * ?c" for j
  proof -
    have j: "?dst + j < length (h_mem h)" "\<not> (?dst + j < ?dst \<or> ?dst + len \<le> ?dst + j)" "?src + j < length (h_mem h)"
      using that fit(1) tot(2) by linarith+
    show ?thesis unfolding nth[OF j(1)] using j(2,3) by (simp only: if_False add_diff_cancel_left' nth_append if_True)
  qed
  then show ?thesis using cp W by (intro exI[of _ "h\<lparr>h_mem := ?d\<rparr>"]) auto
qed

lemma heap_reallocate_unfold:
  assumes inv: "heap_inv h live" and s: "live s = Some n"
  shows "heap_reallocate h (heap_ptr h s) new_size =
    (if n * h_chunk_size h = new_size then Inr (h, heap_ptr h s)
     else and_then (heap_allocate h new_size) (\<lambda>(h1, new_ptr).
          and_then (if new_ptr \<noteq> 0 then heap_copy h1 new_ptr (heap_ptr h s) (min (n * h_chunk_size h) new_size) else Inr h1) (\<lambda>h2.
          and_then (heap_deallocate h2 (heap_ptr h s)) (\<lambda>h3. Inr (h3, new_ptr)))))"
proof -
  note D = heap_inv_D[OF inv]
  note r = live_range[OF D(7) s]
  have N: "s < h_total_chunks h" using r by simp
  note P = heap_ptr_facts[OF inv N]
  have n32: "unat (of_nat n :: u32) = n" using r D(10) by (simp add: unsigned_of_nat take_bit_nat_eq_self)
  have small: "(s + n) * h_chunk_size h \<le> h_total_chunks h * h_chunk_size h" using r(2) by (rule mult_le_mono1)
  then have u: "usize (n * h_chunk_size h) = n * h_chunk_size h"
    "(usize (h_chunks h + s * h_chunk_size h + n * h_chunk_size h) \<le> h_chunks h + h_total_chunks h * h_chunk_size h) = True"
    using D(3) by (auto simp: add_mult_distrib)
  have v: "(h_chunks h \<le> h_chunks h + s * h_chunk_size h \<and>
    heap_ptr h s < h_chunks h + h_total_chunks h * h_chunk_size h) = True" using P(3) by simp
  show ?thesis
    unfolding heap_reallocate_def Let_def sizeof_AllocationHeader_def P(2) v diff_add_inverse D(9)[OF s]
      and_then.simps verify_True n32 u
    using P(1) by (simp only: if_False)
qed


subsection \<open>Clients of the heap\<close>

lemma heap_new_spec:
  assumes c: "4 < chunk_size" and mem: "0 < memory" "memory + memory_size < 2 ^ 32" "memory_size \<le> length bytes"
    and clean: "\<And>i. i < memory_size div (chunk_size + 1) \<Longrightarrow>
      \<not> bit_at (drop (memory_size div (chunk_size + 1) * chunk_size) (take memory_size bytes)) i"
  shows "\<exists>h. heap_new chunk_size sa sf memory bytes memory_size = Inr h \<and> heap_inv h Map.empty \<and>
    h_allocated_chunks h = 0 \<and> h_chunks h = memory \<and> h_chunk_size h = chunk_size \<and>
    h_total_chunks h = memory_size div (chunk_size + 1)"
proof -
  let ?t = "memory_size div (chunk_size + 1)"
  have "?t * (chunk_size + 1) \<le> memory_size" by (rule div_times_less_eq_dividend)
  then have t: "?t * chunk_size + ?t \<le> memory_size" by (simp add: distrib_left)
  have t8: "(?t + 7) div 8 \<le> ?t" by (cases "?t = 0") (auto simp: div_le_dividend)
  have v: "?t * chunk_size + (?t + 7) div 8 \<le> memory_size" using t t8 by linarith
  let ?d = "drop (?t * chunk_size) (take memory_size bytes)"
  have len: "?t \<le> length ?d" using t mem(3) by simp
  have small: "?t < 2 ^ 32" using t mem by linarith
  have room: "0 < ?t \<Longrightarrow> bv_room (length ?d) \<lparr>bv_addr = memory + ?t * chunk_size, bv_data = ?d, bv_size = ?t\<rparr>"
    using len small t8 div_less_dividend[of 8 ?t] unfolding bv_room_def bv_wf_def size_in_bytes_def ceil_div_8
    by (simp del: div_less_dividend)
  have "interval_map Map.empty (bit_at ?d) ?t" "cnt (bit_at ?d) 0 ?t = 0"
    using clean by (auto simp: interval_map_def intro: cnt_const(2))
  then show ?thesis using c mem t v room len
    by (auto simp: heap_new_def calculate_chunks_def Let_def heap_inv_def sizeof_AllocationHeader_def)
qed

text \<open>
  What a client can do with a heap: build one on clean memory, allocate, give back a live
  allocation, and write into the payload of a live allocation.
\<close>

inductive heap_reach :: "heap \<Rightarrow> (nat \<Rightarrow> nat option) \<Rightarrow> bool" where
  reach_new: "heap_new chunk_size sa sf memory bytes memory_size = Inr h \<Longrightarrow> 4 < chunk_size \<Longrightarrow> 0 < memory \<Longrightarrow>
    memory + memory_size < 2 ^ 32 \<Longrightarrow> memory_size \<le> length bytes \<Longrightarrow>
    (\<And>i. i < memory_size div (chunk_size + 1) \<Longrightarrow>
      \<not> bit_at (drop (memory_size div (chunk_size + 1) * chunk_size) (take memory_size bytes)) i) \<Longrightarrow>
    heap_reach h Map.empty"
| reach_allocate: "heap_reach h live \<Longrightarrow> request_ok h nbytes \<Longrightarrow> heap_allocate h nbytes = Inr (h', p) \<Longrightarrow> p \<noteq> 0 \<Longrightarrow>
    heap_reach h' (live((p - 4 - h_chunks h) div h_chunk_size h \<mapsto> chunks_for h nbytes))"
| reach_deallocate: "heap_reach h live \<Longrightarrow> live s = Some n \<Longrightarrow> heap_deallocate h (heap_ptr h s) = Inr h' \<Longrightarrow>
    heap_reach h' (live(s := None))"
| reach_write: "heap_reach h live \<Longrightarrow> live s = Some n \<Longrightarrow> off + 4 < n * h_chunk_size h \<Longrightarrow>
    heap_reach (h\<lparr>h_mem := (h_mem h)[s * h_chunk_size h + 4 + off := v]\<rparr>) live"

lemma heap_ptr_chunk: "4 < h_chunk_size h \<Longrightarrow> (heap_ptr h s - 4 - h_chunks h) div h_chunk_size h = s"
  by (simp add: heap_ptr_def)

lemma heap_reach_inv: "heap_reach h live \<Longrightarrow> heap_inv h live"
proof (induction rule: heap_reach.induct)
  case (reach_new chunk_size sa sf memory bytes memory_size h)
  then show ?case using heap_new_spec[OF reach_new(2-6), of sa sf] by auto
next
  case (reach_allocate h live nbytes h' p)
  note spec = heap_allocate_spec[OF reach_allocate.IH reach_allocate.hyps(2)]
  then obtain s where s: "p = heap_ptr h s" "heap_inv h' (live(s \<mapsto> chunks_for h nbytes))"
    using reach_allocate.hyps(3,4) by auto
  show ?case unfolding s(1) heap_ptr_chunk[OF heap_inv_D(1)[OF reach_allocate.IH]] by (rule s(2))
next
  case (reach_deallocate h live s n h')
  obtain h'' where "heap_deallocate h (heap_ptr h s) = Inr h''" "heap_inv h'' (live(s := None))"
    using heap_deallocate_spec[OF reach_deallocate.IH reach_deallocate.hyps(2)] by blast
  then show ?case using reach_deallocate.hyps(3) by (metis sum.inject(2))
next
  case (reach_write h live s n off v)
  have "off + 4 + s * h_chunk_size h < (s + n) * h_chunk_size h" using reach_write.hyps(3) by (simp add: add_mult_distrib)
  then show ?case by (intro heap_write_payload(1)[OF reach_write.IH reach_write.hyps(2)]) auto
qed

text \<open>In every reachable state no request faults, and two live allocations never overlap.\<close>

theorem heap_never_faults:
  assumes "heap_reach h live"
  shows "request_ok h nbytes \<Longrightarrow> \<exists>h' p. heap_allocate h nbytes = Inr (h', p)"
    "live s = Some n \<Longrightarrow> \<exists>h'. heap_deallocate h (heap_ptr h s) = Inr h'"
    "live s = Some n \<Longrightarrow> live t = Some m \<Longrightarrow> s \<noteq> t \<Longrightarrow>
       heap_ptr h s + (n * h_chunk_size h - 4) < heap_ptr h t \<or> heap_ptr h t + (m * h_chunk_size h - 4) < heap_ptr h s"
proof -
  note inv = heap_reach_inv[OF assms]
  show "request_ok h nbytes \<Longrightarrow> \<exists>h' p. heap_allocate h nbytes = Inr (h', p)"
    using heap_allocate_spec[OF inv] by blast
  show "live s = Some n \<Longrightarrow> \<exists>h'. heap_deallocate h (heap_ptr h s) = Inr h'"
    using heap_deallocate_spec[OF inv] by blast
  assume st: "live s = Some n" "live t = Some m" "s \<noteq> t"
  note D = heap_inv_D[OF inv]
  have "s + n \<le> t \<or> t + m \<le> s" using D(7) st unfolding interval_map_def by metis
  then have "(s + n) * h_chunk_size h \<le> t * h_chunk_size h \<or> (t + m) * h_chunk_size h \<le> s * h_chunk_size h"
    by (metis mult_le_mono1)
  moreover have "h_chunk_size h \<le> n * h_chunk_size h" "h_chunk_size h \<le> m * h_chunk_size h"
    using live_range(1)[OF D(7) st(1)] live_range(1)[OF D(7) st(2)] by simp_all
  ultimately show "heap_ptr h s + (n * h_chunk_size h - 4) < heap_ptr h t \<or> heap_ptr h t + (m * h_chunk_size h - 4) < heap_ptr h s"
    using D(1) unfolding heap_ptr_def add_mult_distrib by linarith
qed

text \<open>A request within 35 bytes of the top of the address space wraps to zero chunks.\<close>

definition small_heap :: heap where
  "small_heap = \<lparr>h_chunk_size = 32, h_scrub_alloc = 0, h_scrub_free = 0, h_total_chunks = 2,
     h_allocated_chunks = 0, h_chunks = 4096, h_mem = replicate 64 0,
     h_bitmap = \<lparr>bv_addr = 4160, bv_data = [0, 0], bv_size = 2\<rparr>\<rparr>"

text \<open>A request so large that adding the header wraps \<open>size_t\<close> is taken for zero chunks: it returns a
  pointer into chunks that stay free.\<close>

theorem heap_allocate_huge:
  "heap_allocate small_heap 0xfffffffc = Inr (small_heap, 4100)"
  by code_simp

subsection \<open>Properties of the heap\<close>

text \<open>Six chunks of eight bytes, the first two of them one live allocation.\<close>

definition sample_heap :: heap where
  "sample_heap = \<lparr>h_chunk_size = 8, h_scrub_alloc = 0xbb, h_scrub_free = 0xaa, h_total_chunks = 6,
     h_allocated_chunks = 2, h_chunks = 4096, h_mem = 2 # replicate 47 0,
     h_bitmap = \<lparr>bv_addr = 4144, bv_data = [3, 0, 0, 0, 0, 0], bv_size = 6\<rparr>\<rparr>"

lemma sample_heap_bits: "bit_at [3, 0, 0, 0, 0, 0] i = (i < 2)" if "i < 6"
proof -
  from that have "i \<in> {0, 1, 2, 3, 4, 5}" by auto
  then show ?thesis by (auto simp: bit_at_def bit_numeral_rec)
qed

lemma sample_heap_inv: "heap_inv sample_heap [0 \<mapsto> 2]"
proof -
  have "interval_map [0 \<mapsto> 2] (bit_at [3, 0, 0, 0, 0, 0]) 6"
    using sample_heap_bits by (auto simp: interval_map_def split: if_splits)
  moreover have "cnt (bit_at [3, 0, 0, 0, 0, 0]) 0 6 = cnt (\<lambda>i. i < 2) 0 6"
    using sample_heap_bits by (intro cnt_cong) auto
  moreover have "cnt (\<lambda>i. i < 2) 0 6 = 2" by (simp add: cnt_def upt_rec)
  moreover have "load32 (2 # replicate 47 0) 0 = Inr (of_nat 2)" by (simp add: load32_def)
  ultimately show ?thesis
    by (auto simp: heap_inv_def sample_heap_def sizeof_AllocationHeader_def bv_room_def bv_wf_def size_in_bytes_def ceil_div_def split: if_splits)
qed

text \<open>C1: in every state a client can reach by building a heap on clean memory, allocating, freeing live
  allocations and writing into them, no allocation or deallocation of a live block trips a \<open>VERIFY\<close>, runs
  out of its memory or loops, and the payloads of two live allocations do not overlap.\<close>

theorem heap_clients_safe:
  assumes "heap_reach h live"
  shows "(\<forall>nbytes. request_ok h nbytes \<longrightarrow> (\<exists>h' p. heap_allocate h nbytes = Inr (h', p))) \<and>
    (\<forall>s n. live s = Some n \<longrightarrow> (\<exists>h'. heap_deallocate h (heap_ptr h s) = Inr h')) \<and>
    (\<forall>s n t m. live s = Some n \<and> live t = Some m \<and> s \<noteq> t \<longrightarrow>
       heap_ptr h s + (n * h_chunk_size h - 4) < heap_ptr h t \<or> heap_ptr h t + (m * h_chunk_size h - 4) < heap_ptr h s)"
  using heap_never_faults[OF assms] by blast

lemma small_heap_reach: "heap_reach small_heap Map.empty"
proof (rule reach_new[of 32 0 0 4096 "replicate 66 0" 66])
  show "heap_new 32 0 0 4096 (replicate 66 0) 66 = Inr small_heap"
    by (simp add: heap_new_def calculate_chunks_def small_heap_def numeral_2_eq_2)
qed (auto simp: bit_at_def)

definition small_heap_used :: heap where
  "small_heap_used = small_heap\<lparr>h_allocated_chunks := 1, h_mem := 1 # replicate 63 0,
     h_bitmap := \<lparr>bv_addr = 4160, bv_data = [1, 0], bv_size = 2\<rparr>\<rparr>"

lemma small_heap_used_reach: "heap_reach small_heap_used [0 \<mapsto> 1]"
proof -
  have a: "heap_allocate small_heap 10 = Inr (small_heap_used, 4100)" by code_simp
  have "request_ok small_heap 10" "(4100 - 4 - h_chunks small_heap) div h_chunk_size small_heap = 0"
    "chunks_for small_heap 10 = 1"
    by (simp_all add: request_ok_def small_heap_def chunks_for_def)
  then show ?thesis using reach_allocate[OF small_heap_reach _ a] by simp
qed

theorem heap_clients_safe_witness:
  "(\<exists>h' p. heap_allocate small_heap_used 5 = Inr (h', p)) \<and>
   (\<exists>h'. heap_deallocate small_heap_used (heap_ptr small_heap_used 0) = Inr h')"
  using heap_clients_safe[OF small_heap_used_reach]
  by (simp add: request_ok_def small_heap_used_def small_heap_def)

text \<open>C14: an allocation either fails, leaves the heap as it is, and then no run of free chunks is long enough;
  or it returns the payload of new chunks, disjoint from every live allocation, keeps the invariant
  with the new allocation added, and leaves the memory of every other allocation untouched.\<close>

theorem heap_allocate_correct:
  assumes "heap_inv h live" "request_ok h nbytes"
  shows "\<exists>h' p. heap_allocate h nbytes = Inr (h', p) \<and>
    (if p = 0 then h' = h \<and> (\<forall>u. u + chunks_for h nbytes \<le> h_total_chunks h \<longrightarrow>
        \<not> free_run (bit_at (bv_data (h_bitmap h))) u (chunks_for h nbytes))
     else \<exists>s. p = heap_ptr h s \<and> live s = None \<and> heap_inv h' (live(s \<mapsto> chunks_for h nbytes)) \<and>
       nbytes \<le> chunks_for h nbytes * h_chunk_size h - 4 \<and>
       (\<forall>t m. live t = Some m \<longrightarrow> (s + chunks_for h nbytes \<le> t \<or> t + m \<le> s) \<and> mem_same h h' t m))"
proof -
  have "nbytes \<le> chunks_for h nbytes * h_chunk_size h - 4"
    using chunks_for_room[OF heap_inv_D(1)[OF assms(1)], of nbytes] by linarith
  moreover have "(\<exists>h' p. heap_allocate h nbytes = Inr (h', p) \<and>
    (if p = 0 then h' = h \<and> (\<forall>u. u + chunks_for h nbytes \<le> h_total_chunks h \<longrightarrow>
        \<not> free_run (bit_at (bv_data (h_bitmap h))) u (chunks_for h nbytes))
     else \<exists>s. p = heap_ptr h s \<and> live s = None \<and> heap_inv h' (live(s \<mapsto> chunks_for h nbytes)) \<and>
       h_chunk_size h' = h_chunk_size h \<and> h_chunks h' = h_chunks h \<and> h_total_chunks h' = h_total_chunks h \<and>
       (\<forall>t m. live t = Some m \<longrightarrow> (s + chunks_for h nbytes \<le> t \<or> t + m \<le> s) \<and> mem_same h h' t m)))"
    by (rule heap_allocate_spec[OF assms])
  ultimately show ?thesis by (elim exE conjE) (intro exI conjI, assumption, auto split: if_splits)
qed

theorem heap_allocate_correct_witness:
  "\<exists>h' p. heap_allocate sample_heap 9 = Inr (h', p) \<and>
    (if p = 0 then h' = sample_heap \<and> (\<forall>u. u + chunks_for sample_heap 9 \<le> h_total_chunks sample_heap \<longrightarrow>
        \<not> free_run (bit_at (bv_data (h_bitmap sample_heap))) u (chunks_for sample_heap 9))
     else \<exists>s. p = heap_ptr sample_heap s \<and> [0 \<mapsto> 2 :: nat] s = None \<and> heap_inv h' ([0 \<mapsto> 2](s \<mapsto> chunks_for sample_heap 9)) \<and>
       9 \<le> chunks_for sample_heap 9 * h_chunk_size sample_heap - 4 \<and>
       (\<forall>t m. [0 \<mapsto> 2] t = Some m \<longrightarrow> (s + chunks_for sample_heap 9 \<le> t \<or> t + m \<le> s) \<and> mem_same sample_heap h' t m))"
  by (rule heap_allocate_correct[OF sample_heap_inv]) (simp add: request_ok_def sample_heap_def)

text \<open>C15: freeing a live allocation succeeds, gives exactly its chunks back, and leaves the memory of every
  other allocation untouched.\<close>

theorem heap_deallocate_correct:
  assumes "heap_inv h live" "live s = Some n"
  shows "\<exists>h'. heap_deallocate h (heap_ptr h s) = Inr h' \<and> heap_inv h' (live(s := None)) \<and>
    h_allocated_chunks h' + n = h_allocated_chunks h \<and>
    (\<forall>t m. live t = Some m \<longrightarrow> t \<noteq> s \<longrightarrow> mem_same h h' t m)"
  using heap_deallocate_spec[OF assms] by blast

theorem heap_deallocate_correct_witness:
  "\<exists>h'. heap_deallocate sample_heap (heap_ptr sample_heap 0) = Inr h' \<and> heap_inv h' ([0 \<mapsto> 2](0 := None)) \<and>
    h_allocated_chunks h' + 2 = h_allocated_chunks sample_heap \<and>
    (\<forall>t m. [0 \<mapsto> 2] t = Some m \<longrightarrow> t \<noteq> 0 \<longrightarrow> mem_same sample_heap h' t m)"
  by (rule heap_deallocate_correct[OF sample_heap_inv]) simp

theorem heap_double_free_caught_witness: "heap_deallocate sample_heap (heap_ptr sample_heap 3) = Inl VerifyFailed"
  by (rule heap_double_free_caught[OF sample_heap_inv]) (simp_all add: sample_heap_def sample_heap_bits)


end
