(* ===== verification/Kernel_ExpandableHeap.thy ===== *)
theory Kernel_ExpandableHeap
  imports Kernel_Heap
begin

text \<open>
  \<^verbatim>\<open>Kernel/Heap/Heap.h\<close>: \<open>ExpandableHeap\<close>, a main heap with a chain of subheaps that come and go with
  the memory they live in. The source of memory is the template parameter \<open>ExpandHeap\<close>; what the
  heap needs of it is the locale \<open>memory_provider\<close>.
\<close>

subsection \<open>ExpandableHeap\<close>

record subheap =
  sh_addr :: nat
  sh_heap :: heap
  sh_memory_size :: nat

record eheap =
  eh_main :: subheap
  eh_subs :: "subheap list"
  eh_expanding :: bool

definition eh_heaps :: "'g eheap_scheme \<Rightarrow> subheap list" where
  "eh_heaps e = eh_main e # eh_subs e"

definition set_heaps :: "'g eheap_scheme \<Rightarrow> subheap list \<Rightarrow> 'g eheap_scheme" where
  "set_heaps e hs = e\<lparr>eh_main := hd hs, eh_subs := tl hs\<rparr>"

text \<open>On i686: the heap's five words, the link and the size.\<close>

definition sizeof_SubHeap :: nat where
  "sizeof_SubHeap = 28"

definition eheap_calculate_memory_for_bytes :: "nat \<Rightarrow> nat \<Rightarrow> nat" where
  "eheap_calculate_memory_for_bytes chunk_size bytes =
     usize (sizeof_SubHeap + calculate_memory_for_bytes chunk_size bytes)"

text \<open>
  The template parameter \<open>ExpandHeap\<close> gives \<open>add_memory\<close> and \<open>remove_memory\<close>. Both may change the
  heap they belong to, and tell whether they did their work.
\<close>

definition expand_memory ::
    "('g eheap_scheme \<Rightarrow> nat \<Rightarrow> ('g eheap_scheme \<times> bool) result) \<Rightarrow> 'g eheap_scheme \<Rightarrow> nat
     \<Rightarrow> ('g eheap_scheme \<times> bool) result" where
  "expand_memory add_memory e nbytes =
     (if eh_expanding e then Inr (e, False)
      else and_then (add_memory (e\<lparr>eh_expanding := True\<rparr>) nbytes) (\<lambda>(e1, ok).
        Inr (e1\<lparr>eh_expanding := False\<rparr>, ok)))"

fun allocate_in :: "subheap list \<Rightarrow> nat \<Rightarrow> (subheap list \<times> nat) result" where
  "allocate_in [] nbytes = Inr ([], 0)"
| "allocate_in (sh # shs) nbytes =
     and_then (heap_allocate (sh_heap sh) nbytes) (\<lambda>(h, ptr).
     if ptr \<noteq> 0 then Inr (sh\<lparr>sh_heap := h\<rparr> # shs, ptr)
     else and_then (allocate_in shs nbytes) (\<lambda>(shs1, ptr). Inr (sh\<lparr>sh_heap := h\<rparr> # shs1, ptr)))"

function eheap_allocate_loop ::
    "('g eheap_scheme \<Rightarrow> nat \<Rightarrow> ('g eheap_scheme \<times> bool) result) \<Rightarrow> nat \<Rightarrow> 'g eheap_scheme \<Rightarrow> nat
     \<Rightarrow> ('g eheap_scheme \<times> nat) result" where
  "eheap_allocate_loop add_memory attempt e nbytes =
     and_then (allocate_in (eh_heaps e) nbytes) (\<lambda>(hs, ptr).
     let e1 = set_heaps e hs in
     if ptr \<noteq> 0 then Inr (e1, ptr)
     else if attempt \<ge> 2 then Inr (e1, 0)
     else and_then (expand_memory add_memory e1 nbytes) (\<lambda>(e2, ok).
       if ok then eheap_allocate_loop add_memory (attempt + 1) e2 nbytes else Inr (e2, 0)))"
  by pat_completeness auto
termination
  by (relation "measure (\<lambda>(add, attempt, e, n). 2 - attempt)") auto

definition eheap_allocate ::
    "('g eheap_scheme \<Rightarrow> nat \<Rightarrow> ('g eheap_scheme \<times> bool) result) \<Rightarrow> 'g eheap_scheme \<Rightarrow> nat
     \<Rightarrow> ('g eheap_scheme \<times> nat) result" where
  "eheap_allocate add_memory e nbytes = eheap_allocate_loop add_memory 0 e nbytes"

text \<open>\<open>add_subheap(memory, memory_size)\<close>; \<open>bytes\<close> is the memory behind the \<open>SubHeap\<close> object.\<close>

fun insert_subheap :: "subheap \<Rightarrow> subheap list \<Rightarrow> subheap list" where
  "insert_subheap new_heap [] = [new_heap]"
| "insert_subheap new_heap (next_heap # rest) =
     (if h_chunks (sh_heap new_heap) < h_chunks (sh_heap next_heap) then new_heap # next_heap # rest
      else next_heap # insert_subheap new_heap rest)"

definition add_subheap :: "'g eheap_scheme \<Rightarrow> nat \<Rightarrow> u8 list \<Rightarrow> nat \<Rightarrow> 'g eheap_scheme result" where
  "add_subheap e memory bytes memory_size =
     and_then (verify (memory_size > sizeof_SubHeap)) (\<lambda>_.
     let size1 = memory_size - sizeof_SubHeap; m = sh_heap (eh_main e) in
     and_then (heap_new (h_chunk_size m) (h_scrub_alloc m) (h_scrub_free m) (memory + sizeof_SubHeap) bytes size1) (\<lambda>h.
     Inr (e\<lparr>eh_subs := insert_subheap \<lparr>sh_addr = memory, sh_heap = h, sh_memory_size = size1\<rparr> (eh_subs e)\<rparr>)))"

text \<open>The first subheap that contains \<open>ptr\<close>, as a position in the chain.\<close>

fun find_subheap :: "subheap list \<Rightarrow> nat \<Rightarrow> nat option" where
  "find_subheap [] ptr = None"
| "find_subheap (sh # shs) ptr =
     (if heap_contains (sh_heap sh) ptr then Some 0 else map_option Suc (find_subheap shs ptr))"

definition eheap_deallocate ::
    "('g eheap_scheme \<Rightarrow> nat \<Rightarrow> ('g eheap_scheme \<times> bool) result) \<Rightarrow> 'g eheap_scheme \<Rightarrow> nat
     \<Rightarrow> 'g eheap_scheme result" where
  "eheap_deallocate remove_memory e ptr =
     (if ptr = 0 then Inr e
      else case find_subheap (eh_heaps e) ptr of
        None \<Rightarrow> Inl NotReached
      | Some i \<Rightarrow>
          let sh = eh_heaps e ! i in
          and_then (heap_deallocate (sh_heap sh) ptr) (\<lambda>h.
          let e1 = set_heaps e ((eh_heaps e)[i := sh\<lparr>sh_heap := h\<rparr>]) in
          if h_allocated_chunks h = 0 \<and> i \<noteq> 0 \<and> \<not> eh_expanding e1 then
            let e2 = e1\<lparr>eh_subs := take (i - 1) (eh_subs e1) @ drop i (eh_subs e1)\<rparr> in
            and_then (remove_memory e2 (sh_addr sh)) (\<lambda>(e3, ok).
            if \<not> ok then add_subheap e3 (sh_addr sh) (h_mem h @ bv_data (h_bitmap h)) (sh_memory_size sh)
            else Inr e3)
          else Inr e1))"

text \<open>
  \<open>reallocate\<close> runs \<open>Heap::reallocate\<close> of the subheap that contains \<open>ptr\<close> with this object as the
  heap to allocate from. The allocation may insert subheaps, so the subheap is found again by its
  address; the old block goes back to it by \<open>Heap::deallocate\<close>, without unlinking it.
\<close>

fun subheap_at :: "subheap list \<Rightarrow> nat \<Rightarrow> nat option" where
  "subheap_at [] addr = None"
| "subheap_at (sh # shs) addr = (if sh_addr sh = addr then Some 0 else map_option Suc (subheap_at shs addr))"

definition eheap_copy :: "'g eheap_scheme \<Rightarrow> nat \<Rightarrow> nat \<Rightarrow> nat \<Rightarrow> nat \<Rightarrow> 'g eheap_scheme result" where
  "eheap_copy e k new_ptr ptr len =
     (case find_subheap (eh_heaps e) new_ptr of None \<Rightarrow> Inl OutOfBounds
      | Some j \<Rightarrow>
          let src_heap = sh_heap (eh_heaps e ! k); dst_heap = sh_heap (eh_heaps e ! j);
              bytes = h_mem src_heap @ bv_data (h_bitmap src_heap);
              src = ptr - h_chunks src_heap; dst = new_ptr - h_chunks dst_heap in
          if dst + len \<le> length (h_mem dst_heap) \<and> src + len \<le> length bytes
          then Inr (set_heaps e ((eh_heaps e)[j := (eh_heaps e ! j)\<lparr>sh_heap :=
            dst_heap\<lparr>h_mem := take dst (h_mem dst_heap) @ take len (drop src bytes) @ drop (dst + len) (h_mem dst_heap)\<rparr>\<rparr>]))
          else Inl OutOfBounds)"

definition eheap_reallocate ::
    "('g eheap_scheme \<Rightarrow> nat \<Rightarrow> ('g eheap_scheme \<times> bool) result) \<Rightarrow> 'g eheap_scheme \<Rightarrow> nat \<Rightarrow> nat
     \<Rightarrow> ('g eheap_scheme \<times> nat) result" where
  "eheap_reallocate add_memory e ptr new_size =
     (if ptr = 0 then eheap_allocate add_memory e new_size
      else case find_subheap (eh_heaps e) ptr of
        None \<Rightarrow> Inl NotReached
      | Some i \<Rightarrow>
          let sh = eh_heaps e ! i; h = sh_heap sh; a = usub ptr sizeof_AllocationHeader in
          and_then (verify (a \<ge> h_chunks h \<and> ptr < h_chunks h + h_total_chunks h * h_chunk_size h)) (\<lambda>_.
          and_then (load32 (h_mem h) (a - h_chunks h)) (\<lambda>header.
          and_then (verify (usize (a + unat header * h_chunk_size h) \<le> h_chunks h + h_total_chunks h * h_chunk_size h)) (\<lambda>_.
          let old_size = usize (unat header * h_chunk_size h) in
          if old_size = new_size then Inr (e, ptr)
          else
            and_then (eheap_allocate add_memory e new_size) (\<lambda>(e1, new_ptr).
            case subheap_at (eh_heaps e1) (sh_addr sh) of None \<Rightarrow> Inl OutOfBounds
            | Some k \<Rightarrow>
                and_then (if new_ptr \<noteq> 0 then eheap_copy e1 k new_ptr ptr (min old_size new_size) else Inr e1) (\<lambda>e2.
                and_then (heap_deallocate (sh_heap (eh_heaps e2 ! k)) ptr) (\<lambda>h3.
                Inr (set_heaps e2 ((eh_heaps e2)[k := (eh_heaps e2 ! k)\<lparr>sh_heap := h3\<rparr>]), new_ptr))))))))"

definition eheap_contains :: "'g eheap_scheme \<Rightarrow> nat \<Rightarrow> bool" where
  "eheap_contains e ptr = list_ex (\<lambda>sh. heap_contains (sh_heap sh) ptr) (eh_heaps e)"

definition eheap_total_chunks :: "'g eheap_scheme \<Rightarrow> nat" where
  "eheap_total_chunks e = foldl (\<lambda>total sh. usize (total + h_total_chunks (sh_heap sh))) 0 (eh_heaps e)"

definition eheap_free_chunks :: "'g eheap_scheme \<Rightarrow> nat" where
  "eheap_free_chunks e = foldl (\<lambda>total sh. usize (total + free_chunks (sh_heap sh))) 0 (eh_heaps e)"

definition eheap_allocated_chunks :: "'g eheap_scheme \<Rightarrow> nat" where
  "eheap_allocated_chunks e = foldl (\<lambda>total sh. usize (total + h_allocated_chunks (sh_heap sh))) 0 (eh_heaps e)"

subsection \<open>The chain of subheaps\<close>

definition heap_region :: "heap \<Rightarrow> nat set" where
  "heap_region h = {h_chunks h ..< h_chunks h + h_total_chunks h * h_chunk_size h}"

definition same_layout :: "heap \<Rightarrow> heap \<Rightarrow> bool" where
  "same_layout h h' \<longleftrightarrow> h_chunk_size h' = h_chunk_size h \<and> h_chunks h' = h_chunks h \<and> h_total_chunks h' = h_total_chunks h"

lemma same_layoutD:
  assumes "same_layout h h'"
  shows "heap_region h' = heap_region h" "heap_ptr h' s = heap_ptr h s" "h_chunk_size h' = h_chunk_size h"
  using assms by (auto simp: same_layout_def heap_region_def heap_ptr_def)

definition chain_inv :: "subheap list \<Rightarrow> (nat \<Rightarrow> nat option) list \<Rightarrow> bool" where
  "chain_inv hs lives \<longleftrightarrow> list_all2 (\<lambda>sh live. heap_inv (sh_heap sh) live) hs lives \<and>
     (\<forall>i j. i < length hs \<longrightarrow> j < length hs \<longrightarrow> i \<noteq> j \<longrightarrow>
        heap_region (sh_heap (hs ! i)) \<inter> heap_region (sh_heap (hs ! j)) = {})"

lemma heap_allocate_cases:
  assumes "heap_inv h live" "request_ok h nbytes"
  obtains (failed) "heap_allocate h nbytes = Inr (h, 0)"
    | (taken) h' s where "heap_allocate h nbytes = Inr (h', heap_ptr h s)" "heap_ptr h s \<noteq> 0" "live s = None"
      "heap_inv h' (live(s \<mapsto> chunks_for h nbytes))" "same_layout h h'"
proof -
  obtain h' p where a: "heap_allocate h nbytes = Inr (h', p)"
    "if p = 0 then h' = h \<and> (\<forall>u. u + chunks_for h nbytes \<le> h_total_chunks h \<longrightarrow> \<not> free_run (bit_at (bv_data (h_bitmap h))) u (chunks_for h nbytes))
     else \<exists>s. p = heap_ptr h s \<and> live s = None \<and> heap_inv h' (live(s \<mapsto> chunks_for h nbytes)) \<and>
       h_chunk_size h' = h_chunk_size h \<and> h_chunks h' = h_chunks h \<and> h_total_chunks h' = h_total_chunks h \<and>
       (\<forall>t m. live t = Some m \<longrightarrow> (s + chunks_for h nbytes \<le> t \<or> t + m \<le> s) \<and> mem_same h h' t m)"
    using heap_allocate_spec[OF assms] by blast
  show thesis
  proof (cases "p = 0")
    case True
    then show ?thesis using a failed by simp
  next
    case False
    then obtain s where "p = heap_ptr h s" "live s = None" "heap_inv h' (live(s \<mapsto> chunks_for h nbytes))"
       "h_chunk_size h' = h_chunk_size h" "h_chunks h' = h_chunks h" "h_total_chunks h' = h_total_chunks h"
      using a(2) by auto
    then show ?thesis using a(1) taken[of h' s] False by (simp add: same_layout_def)
  qed
qed

text \<open>\<open>p\<close> is a new allocation in the \<open>i\<close>-th heap of the chain, at chunk \<open>s\<close>; the other heaps are unchanged.\<close>

definition taken_at :: "subheap list \<Rightarrow> (nat \<Rightarrow> nat option) list \<Rightarrow> nat \<Rightarrow> subheap list \<Rightarrow> nat \<Rightarrow> nat \<Rightarrow> nat \<Rightarrow> bool" where
  "taken_at hs lives nbytes hs' p i s \<longleftrightarrow>
     i < length hs \<and> p = heap_ptr (sh_heap (hs ! i)) s \<and> (lives ! i) s = None \<and>
     hs' = hs[i := (hs ! i)\<lparr>sh_heap := sh_heap (hs' ! i)\<rparr>] \<and>
     heap_inv (sh_heap (hs' ! i)) ((lives ! i)(s \<mapsto> chunks_for (sh_heap (hs ! i)) nbytes)) \<and>
     same_layout (sh_heap (hs ! i)) (sh_heap (hs' ! i))"

lemma taken_at_Cons: "taken_at hs lives nbytes hs' p i s \<Longrightarrow> taken_at (sh # hs) (live # lives) nbytes (sh # hs') p (Suc i) s"
  by (simp add: taken_at_def)

lemma allocate_in_spec:
  assumes "list_all2 (\<lambda>sh live. heap_inv (sh_heap sh) live) hs lives" "\<forall>sh \<in> set hs. request_ok (sh_heap sh) nbytes"
  shows "\<exists>hs' p. allocate_in hs nbytes = Inr (hs', p) \<and>
    (if p = 0 then hs' = hs else \<exists>i s. taken_at hs lives nbytes hs' p i s)"
  using assms
proof (induction hs lives rule: list_all2_induct)
  case (Cons sh hs live lives)
  have req: "request_ok (sh_heap sh) nbytes" using Cons.prems by simp
  show ?case
  proof (cases rule: heap_allocate_cases[OF Cons.hyps(1) req, case_names failed taken])
    case (taken h' s)
    let ?hs = "sh\<lparr>sh_heap := h'\<rparr> # hs"
    have "taken_at (sh # hs) (live # lives) nbytes ?hs (heap_ptr (sh_heap sh) s) 0 s"
      using taken by (simp add: taken_at_def)
    moreover have "allocate_in (sh # hs) nbytes = Inr (?hs, heap_ptr (sh_heap sh) s)" using taken by simp
    ultimately show ?thesis using taken(2) by (metis (mono_tags))
  next
    case failed
    obtain hs' q where h: "allocate_in hs nbytes = Inr (hs', q)"
      "if q = 0 then hs' = hs else \<exists>i s. taken_at hs lives nbytes hs' q i s"
      using Cons.IH Cons.prems by auto
    have eq: "allocate_in (sh # hs) nbytes = Inr (sh # hs', q)" using failed h(1) by simp
    show ?thesis
    proof (cases "q = 0")
      case True
      then show ?thesis using eq h(2) by simp
    next
      case False
      then obtain i s where "taken_at hs lives nbytes hs' q i s" using h(2) by auto
      then show ?thesis using eq False taken_at_Cons[of hs lives nbytes hs' q i s sh live] by (metis (mono_tags))
    qed
  qed
qed simp

lemma chain_heap_inv: "chain_inv hs lives \<Longrightarrow> i < length hs \<Longrightarrow> heap_inv (sh_heap (hs ! i)) (lives ! i)"
  by (simp add: chain_inv_def list_all2_conv_all_nth)

lemma chain_update:
  assumes "chain_inv hs lives" "i < length hs" "heap_inv h' live'" "same_layout (sh_heap (hs ! i)) h'"
  shows "chain_inv (hs[i := (hs ! i)\<lparr>sh_heap := h'\<rparr>]) (lives[i := live'])"
  using assms same_layoutD(1)[OF assms(4)] unfolding chain_inv_def by (auto simp: list_all2_update_cong nth_list_update)

text \<open>The pointer of a live allocation lies in the region of its own heap only.\<close>

lemma contains_region: "heap_contains h p \<Longrightarrow> 4 \<le> p \<Longrightarrow> p < 2 ^ 32 \<Longrightarrow> p \<in> heap_region h"
  by (auto simp: heap_contains_def heap_region_def sizeof_AllocationHeader_def Let_def split: if_splits)

lemma find_subheap_Some:
  assumes "find_subheap hs p = Some i"
  shows "i < length hs" "heap_contains (sh_heap (hs ! i)) p"
proof -
  have "i < length hs \<and> heap_contains (sh_heap (hs ! i)) p"
    using assms by (induction hs arbitrary: i) (auto split: if_splits)
  then show "i < length hs" "heap_contains (sh_heap (hs ! i)) p" by auto
qed

lemma find_subheap_None: "find_subheap hs p = None \<Longrightarrow> i < length hs \<Longrightarrow> \<not> heap_contains (sh_heap (hs ! i)) p"
  by (induction hs arbitrary: i) (auto split: if_splits simp: nth_Cons')

lemma find_subheap_live:
  assumes inv: "chain_inv hs lives" and i: "i < length hs" and s: "(lives ! i) s = Some n"
  shows "find_subheap hs (heap_ptr (sh_heap (hs ! i)) s) = Some i"
proof -
  let ?h = "sh_heap (hs ! i)" and ?p = "heap_ptr (sh_heap (hs ! i)) s"
  note hinv = chain_heap_inv[OF inv i]
  note D = heap_inv_D[OF hinv]
  have N: "s < h_total_chunks ?h" using live_range[OF D(7) s] by simp
  have con: "heap_contains ?h ?p" using heap_contains_ptr[OF hinv N] .
  have p: "4 \<le> ?p" "?p < 2 ^ 32" using heap_ptr_facts(3)[OF hinv N] D(3) by (auto simp: heap_ptr_def)
  obtain j where j: "find_subheap hs ?p = Some j" using find_subheap_None con i by (metis option.exhaust)
  note J = find_subheap_Some[OF j]
  have "?p \<in> heap_region (sh_heap (hs ! j))" "?p \<in> heap_region ?h" using contains_region p con J(2) by auto
  then have "i = j" using inv i J(1) unfolding chain_inv_def by blast
  then show ?thesis using j by simp
qed

text \<open>The provider of memory: \<open>DefaultExpandHeap\<close> never adds or removes any.\<close>

definition default_add_memory :: "'g eheap_scheme \<Rightarrow> nat \<Rightarrow> ('g eheap_scheme \<times> bool) result" where
  "default_add_memory e nbytes = Inr (e, False)"

definition default_remove_memory :: "'g eheap_scheme \<Rightarrow> nat \<Rightarrow> ('g eheap_scheme \<times> bool) result" where
  "default_remove_memory e memory = Inr (e, False)"

definition chunk_sizes :: "nat \<Rightarrow> 'g eheap_scheme \<Rightarrow> bool" where
  "chunk_sizes c e \<longleftrightarrow> (\<forall>sh \<in> set (eh_heaps e). h_chunk_size (sh_heap sh) = c)"

lemma eh_heaps_set [simp]: "hs \<noteq> [] \<Longrightarrow> eh_heaps (set_heaps e hs) = hs"
  by (simp add: eh_heaps_def set_heaps_def)

lemma eh_heaps_expanding [simp]: "eh_heaps (e\<lparr>eh_expanding := b\<rparr>) = eh_heaps e"
  by (simp add: eh_heaps_def)

lemma set_heaps_same [simp]: "set_heaps e (eh_heaps e) = e"
  by (simp add: eh_heaps_def set_heaps_def)

lemma eh_heaps_not_Nil [simp]: "eh_heaps e \<noteq> []"
  by (simp add: eh_heaps_def)

locale memory_provider =
  fixes add_memory :: "'g eheap_scheme \<Rightarrow> nat \<Rightarrow> ('g eheap_scheme \<times> bool) result" and c :: nat
  assumes add_law: "chain_inv (eh_heaps e) lives \<Longrightarrow> chunk_sizes c e \<Longrightarrow>
    \<exists>e' ok lives'. add_memory e nbytes = Inr (e', ok) \<and> chain_inv (eh_heaps e') lives' \<and> chunk_sizes c e'"
begin

lemma expand_ok:
  assumes "chain_inv (eh_heaps e) lives" "chunk_sizes c e"
  shows "\<exists>e' ok lives'. expand_memory add_memory e nbytes = Inr (e', ok) \<and> chain_inv (eh_heaps e') lives' \<and> chunk_sizes c e'"
proof (cases "eh_expanding e")
  case True
  then show ?thesis using assms by (auto simp: expand_memory_def)
next
  case False
  have "chain_inv (eh_heaps (e\<lparr>eh_expanding := True\<rparr>)) lives" "chunk_sizes c (e\<lparr>eh_expanding := True\<rparr>)"
    using assms by (simp_all add: chunk_sizes_def)
  from add_law[OF this, of nbytes] obtain e' ok lives' where
    "add_memory (e\<lparr>eh_expanding := True\<rparr>) nbytes = Inr (e', ok)" "chain_inv (eh_heaps e') lives'" "chunk_sizes c e'" by blast
  then show ?thesis using False by (auto simp: expand_memory_def chunk_sizes_def)
qed

lemma allocate_loop_ok:
  assumes "chain_inv (eh_heaps e) lives" "chunk_sizes c e" "nbytes + 4 + c - 1 < 2 ^ 32"
  shows "\<exists>e' p. eheap_allocate_loop add_memory attempt e nbytes = Inr (e', p) \<and>
    (\<exists>lives'. chain_inv (eh_heaps e') lives' \<and> (p \<noteq> 0 \<longrightarrow> (\<exists>i s n. i < length (eh_heaps e') \<and> p = heap_ptr (sh_heap (eh_heaps e' ! i)) s \<and>
       (lives' ! i) s = Some n \<and> nbytes + 4 \<le> n * c)))"
  using assms
proof (induction "2 - attempt" arbitrary: attempt e lives rule: less_induct)
  case less
  have req: "\<forall>sh \<in> set (eh_heaps e). request_ok (sh_heap sh) nbytes"
    using less.prems(2,3) by (simp add: chunk_sizes_def request_ok_def)
  have inv: "list_all2 (\<lambda>sh live. heap_inv (sh_heap sh) live) (eh_heaps e) lives"
    using less.prems(1) by (simp add: chain_inv_def)
  obtain hs p where a: "allocate_in (eh_heaps e) nbytes = Inr (hs, p)"
    "if p = 0 then hs = eh_heaps e else \<exists>i s. taken_at (eh_heaps e) lives nbytes hs p i s"
    using allocate_in_spec[OF inv req] by blast
  note eq = eheap_allocate_loop.simps[of add_memory attempt e nbytes, unfolded a(1) and_then.simps prod.case Let_def]
  show ?case
  proof (cases "p = 0")
    case False
    then obtain i s where t: "taken_at (eh_heaps e) lives nbytes hs p i s" using a(2) by auto
    let ?h = "sh_heap (hs ! i)" and ?n = "chunks_for (sh_heap (eh_heaps e ! i)) nbytes"
    have i: "i < length (eh_heaps e)" and hs: "hs = (eh_heaps e)[i := (eh_heaps e ! i)\<lparr>sh_heap := ?h\<rparr>]"
      using t by (auto simp: taken_at_def)
    have ci: "chain_inv hs (lives[i := (lives ! i)(s \<mapsto> ?n)])"
      using chain_update[OF less.prems(1) i, of ?h] t unfolding taken_at_def hs[symmetric] by blast
    have c: "h_chunk_size (sh_heap (eh_heaps e ! i)) = c" using less.prems(2) i by (simp add: chunk_sizes_def)
    have room: "nbytes + 4 \<le> ?n * c"
      using chunks_for_room[of "sh_heap (eh_heaps e ! i)" nbytes] heap_inv_D(1)[OF chain_heap_inv[OF less.prems(1) i]] c by simp
    have "length hs = length (eh_heaps e)" using hs by (metis length_list_update)
    moreover from this have "hs \<noteq> []" by (metis eh_heaps_not_Nil length_0_conv)
    moreover have "p = heap_ptr ?h s" using t same_layoutD(2)[of "sh_heap (eh_heaps e ! i)" ?h s] by (simp only: taken_at_def)
    moreover have "length lives = length (eh_heaps e)" using inv by (simp add: list_all2_lengthD)
    ultimately have "eheap_allocate_loop add_memory attempt e nbytes = Inr (set_heaps e hs, p)"
      "chain_inv (eh_heaps (set_heaps e hs)) (lives[i := (lives ! i)(s \<mapsto> ?n)])"
      "i < length (eh_heaps (set_heaps e hs)) \<and> p = heap_ptr (sh_heap (eh_heaps (set_heaps e hs) ! i)) s \<and>
       (lives[i := (lives ! i)(s \<mapsto> ?n)] ! i) s = Some ?n \<and> nbytes + 4 \<le> ?n * c"
      using eq False ci room i by simp_all
    then show ?thesis by blast
  next
    case True
    then have hs: "hs = eh_heaps e" using a(2) by simp
    show ?thesis
    proof (cases "attempt \<ge> 2")
      case True
      then show ?thesis using eq \<open>p = 0\<close> hs less.prems(1) by auto
    next
      case False
      obtain e' ok lives' where e': "expand_memory add_memory e nbytes = Inr (e', ok)" "chain_inv (eh_heaps e') lives'" "chunk_sizes c e'"
        using expand_ok[OF less.prems(1,2)] by blast
      show ?thesis
      proof (cases ok)
        case True
        have "2 - (attempt + 1) < 2 - attempt" using False by simp
        then show ?thesis using less.hyps[OF _ e'(2,3) less.prems(3), of "attempt + 1"] eq e'(1) True False \<open>p = 0\<close> hs by simp
      next
        case not: False
        then show ?thesis using eq e'(1,2) False \<open>p = 0\<close> hs by auto
      qed
    qed
  qed
qed

end

text \<open>Insertion keeps the chain sorted by address.\<close>

definition subs_sorted :: "subheap list \<Rightarrow> bool" where
  "subs_sorted hs \<longleftrightarrow> sorted (map (\<lambda>sh. h_chunks (sh_heap sh)) hs)"

lemma set_insert_subheap: "set (insert_subheap n hs) = insert n (set hs)"
  by (induction hs) auto

lemma insert_subheap_sorted: "subs_sorted hs \<Longrightarrow> subs_sorted (insert_subheap n hs)"
  by (induction hs) (auto simp: subs_sorted_def set_insert_subheap)

lemma eheap_deallocate_live:
  assumes inv: "chain_inv (eh_heaps e) lives" and i: "i < length (eh_heaps e)" and s: "(lives ! i) s = Some n"
  defines "sh \<equiv> eh_heaps e ! i"
  obtains h' where "heap_deallocate (sh_heap sh) (heap_ptr (sh_heap sh) s) = Inr h'"
    "h_allocated_chunks h' + n = h_allocated_chunks (sh_heap sh)"
    "chain_inv ((eh_heaps e)[i := sh\<lparr>sh_heap := h'\<rparr>]) (lives[i := (lives ! i)(s := None)])"
    "heap_inv h' ((lives ! i)(s := None))"
    "eheap_deallocate remove_memory e (heap_ptr (sh_heap sh) s) =
       (let e1 = set_heaps e ((eh_heaps e)[i := sh\<lparr>sh_heap := h'\<rparr>]) in
        if h_allocated_chunks h' = 0 \<and> i \<noteq> 0 \<and> \<not> eh_expanding e then
          and_then (remove_memory (e1\<lparr>eh_subs := take (i - 1) (eh_subs e1) @ drop i (eh_subs e1)\<rparr>) (sh_addr sh)) (\<lambda>(e3, ok).
          if \<not> ok then add_subheap e3 (sh_addr sh) (h_mem h' @ bv_data (h_bitmap h')) (sh_memory_size sh) else Inr e3)
        else Inr e1)"
proof -
  let ?p = "heap_ptr (sh_heap sh) s"
  have hinv: "heap_inv (sh_heap sh) (lives ! i)" unfolding sh_def using chain_heap_inv[OF inv i] .
  obtain h' where h': "heap_deallocate (sh_heap sh) ?p = Inr h'" "heap_inv h' ((lives ! i)(s := None))"
    "h_allocated_chunks h' + n = h_allocated_chunks (sh_heap sh)" "same_layout (sh_heap sh) h'"
    using heap_deallocate_spec[OF hinv s] unfolding same_layout_def by blast
  have p: "?p \<noteq> 0" by (simp add: heap_ptr_def)
  have f: "find_subheap (eh_heaps e) ?p = Some i" using find_subheap_live[OF inv i s] unfolding sh_def .
  have exp: "eh_expanding (set_heaps e hs) = eh_expanding e" for hs by (simp add: set_heaps_def)
  show thesis
  proof (rule that[OF h'(1) h'(3) _ h'(2)])
    show "chain_inv ((eh_heaps e)[i := sh\<lparr>sh_heap := h'\<rparr>]) (lives[i := (lives ! i)(s := None)])"
      using chain_update[OF inv i h'(2) h'(4)[unfolded sh_def]] unfolding sh_def .
    show "eheap_deallocate remove_memory e ?p =
       (let e1 = set_heaps e ((eh_heaps e)[i := sh\<lparr>sh_heap := h'\<rparr>]) in
        if h_allocated_chunks h' = 0 \<and> i \<noteq> 0 \<and> \<not> eh_expanding e then
          and_then (remove_memory (e1\<lparr>eh_subs := take (i - 1) (eh_subs e1) @ drop i (eh_subs e1)\<rparr>) (sh_addr sh)) (\<lambda>(e3, ok).
          if \<not> ok then add_subheap e3 (sh_addr sh) (h_mem h' @ bv_data (h_bitmap h')) (sh_memory_size sh) else Inr e3)
        else Inr e1)"
      unfolding eheap_deallocate_def f option.case Let_def sh_def[symmetric] h'(1) and_then.simps exp using p by simp
  qed
qed

lemma heap_empty_clean:
  assumes "heap_inv h live" "h_allocated_chunks h = 0" "i < h_total_chunks h"
  shows "\<not> bit_at (bv_data (h_bitmap h)) i" "live i = None"
proof -
  have "cnt (bit_at (bv_data (h_bitmap h))) 0 (h_total_chunks h) = 0" using assms heap_inv_D(8) by metis
  then show c: "\<not> bit_at (bv_data (h_bitmap h)) i"
    using assms(3) by (auto simp: cnt_def filter_empty_conv)
  show "live i = None"
  proof (rule ccontr)
    assume "live i \<noteq> None"
    then obtain n where "live i = Some n" by auto
    then have "bit_at (bv_data (h_bitmap h)) i" using heap_inv_D(7)[OF assms(1)] unfolding interval_map_def
      by (metis le_refl less_add_same_cancel1)
    then show False using c by simp
  qed
qed

interpretation default_heap: memory_provider default_add_memory c for c
  by unfold_locales (auto simp: default_add_memory_def)


text \<open>
  A subheap whose removal is refused comes back smaller: \<open>add_subheap\<close> takes the size of a
  \<open>SubHeap\<close> object off a size it was already taken off from. Its bitmap then lies in memory that
  held chunks, and keeps what was there.
\<close>

definition readd_heap :: eheap where
  "readd_heap = \<lparr>
     eh_main = \<lparr>sh_addr = 16, sh_heap = \<lparr>h_chunk_size = 32, h_scrub_alloc = 0xbb, h_scrub_free = 0xaa, h_total_chunks = 1,
       h_allocated_chunks = 0, h_chunks = 4096, h_mem = replicate 32 0,
       h_bitmap = \<lparr>bv_addr = 4128, bv_data = [0], bv_size = 1\<rparr>\<rparr>, sh_memory_size = 33\<rparr>,
     eh_subs = [\<lparr>sh_addr = 8164, sh_heap = \<lparr>h_chunk_size = 32, h_scrub_alloc = 0xbb, h_scrub_free = 0xaa, h_total_chunks = 3,
       h_allocated_chunks = 0, h_chunks = 8192, h_mem = replicate 96 0,
       h_bitmap = \<lparr>bv_addr = 8288, bv_data = replicate 17 0, bv_size = 3\<rparr>\<rparr>, sh_memory_size = 113\<rparr>],
     eh_expanding = False\<rparr>"

definition readd_result :: "eheap result" where
  "readd_result = and_then (eheap_allocate default_add_memory readd_heap 68) (\<lambda>(e, p). eheap_deallocate default_remove_memory e p)"

text \<open>A subheap whose removal is refused is put back with one chunk less and a bitmap on top of scrubbed
  memory: it counts no chunk as allocated, and yet a bit is set.\<close>

theorem eheap_readd_dirty:
  "and_then readd_result (\<lambda>e. Inr (map (\<lambda>sh. (h_total_chunks (sh_heap sh), h_allocated_chunks (sh_heap sh),
      bit_at (bv_data (h_bitmap (sh_heap sh))) 1)) (eh_subs e))) = Inr [(2, 0, True)]"
  by code_simp

subsection \<open>Properties of the expandable heap\<close>

definition sample_chain :: eheap where
  "sample_chain = \<lparr>eh_main = \<lparr>sh_addr = 16, sh_heap = sample_heap, sh_memory_size = 54\<rparr>, eh_subs = [], eh_expanding = False\<rparr>"

lemma sample_chain_inv: "chain_inv (eh_heaps sample_chain) [[0 \<mapsto> 2]]"
  using sample_heap_inv by (simp add: chain_inv_def sample_chain_def eh_heaps_def)





end
