(* ===== verification/AK_BinarySearch.thy ===== *)
theory AK_BinarySearch
  imports Prelude
begin

text \<open>
  The generic binary search of AK: what it returns, and that it finds a match on a haystack sorted
  for the comparator.
\<close>

subsection \<open>Binary search\<close>

text \<open>
  \<^verbatim>\<open>AK/BinarySearch.h\<close>. The comparator returns a negative, zero or positive \<open>int\<close>. The result is the index of
  the match and the value of \<open>*nearby_index\<close>.
\<close>

function binary_search_loop :: "('n \<Rightarrow> 'h \<Rightarrow> int) \<Rightarrow> 'h list \<Rightarrow> 'n \<Rightarrow> nat \<Rightarrow> nat \<Rightarrow> nat option \<times> nat" where
  "binary_search_loop comparator haystack needle low high =
     (if low \<le> high then
        let middle = low + (high - low) div 2;
            comparison = comparator needle (haystack ! middle) in
        if comparison < 0 then
          (if middle \<noteq> 0 then binary_search_loop comparator haystack needle low (middle - 1)
           else (None, min low high))
        else if comparison > 0 then binary_search_loop comparator haystack needle (middle + 1) high
        else (Some middle, middle)
      else (None, min low high))"
  by pat_completeness auto
termination
  by (relation "measure (\<lambda>(c, h, n, low, high). Suc high - low)") auto

declare binary_search_loop.simps [simp del]

definition binary_search :: "('n \<Rightarrow> 'h \<Rightarrow> int) \<Rightarrow> 'h list \<Rightarrow> 'n \<Rightarrow> nat option \<times> nat" where
  "binary_search comparator haystack needle =
     (if length haystack = 0 then (None, 0)
      else binary_search_loop comparator haystack needle 0 (length haystack - 1))"

lemma binary_search_loop_found:
  "binary_search_loop c xs x low high = (r, k) \<Longrightarrow> high < length xs \<Longrightarrow>
    k < length xs \<and> (case r of Some i \<Rightarrow> i = k \<and> c x (xs ! i) = 0 | None \<Rightarrow> True)"
proof (induction c xs x low high rule: binary_search_loop.induct)
  case (1 c xs x low high)
  let ?m = "low + (high - low) div 2"
  consider (stop) "\<not> low \<le> high" | (less) "low \<le> high" "c x (xs ! ?m) < 0" | (more) "low \<le> high" "c x (xs ! ?m) > 0"
    | (eq) "low \<le> high" "c x (xs ! ?m) = 0" by linarith
  then show ?case
  proof cases
    case stop
    then show ?thesis using "1.prems" by (subst (asm) binary_search_loop.simps) auto
  next
    case less
    have m: "?m \<le> high" using less(1) by simp
    show ?thesis
    proof (cases "?m = 0")
      case True
      then show ?thesis using "1.prems" less by (subst (asm) binary_search_loop.simps) auto
    next
      case False
      then have "binary_search_loop c xs x low (?m - 1) = (r, k)"
        using "1.prems"(1) less by (subst (asm) binary_search_loop.simps) (simp add: Let_def)
      then show ?thesis using "1.IH"(1)[OF less(1) refl refl less(2) False] "1.prems"(2) m by simp
    qed
  next
    case more
    have "binary_search_loop c xs x (?m + 1) high = (r, k)"
      using "1.prems"(1) more by (subst (asm) binary_search_loop.simps) (simp add: Let_def)
    then show ?thesis using "1.IH"(2)[OF more(1) refl refl] more(2) "1.prems"(2) by simp
  next
    case eq
    have "?m \<le> high" using eq(1) by simp
    then show ?thesis using "1.prems" eq by (subst (asm) binary_search_loop.simps) (auto simp: Let_def)
  qed
qed

text \<open>On a haystack that is sorted for the comparator the search finds what is there.\<close>

definition sorted_for :: "('n \<Rightarrow> 'h \<Rightarrow> int) \<Rightarrow> 'h list \<Rightarrow> 'n \<Rightarrow> bool" where
  "sorted_for c xs x \<longleftrightarrow> (\<forall>i j. i \<le> j \<longrightarrow> j < length xs \<longrightarrow> sgn (c x (xs ! j)) \<le> sgn (c x (xs ! i)))"

lemma binary_search_loop_complete:
  "binary_search_loop c xs x low high = (None, k) \<Longrightarrow> high < length xs \<Longrightarrow> sorted_for c xs x \<Longrightarrow>
    low \<le> i \<Longrightarrow> i \<le> high \<Longrightarrow> c x (xs ! i) \<noteq> 0"
proof (induction c xs x low high rule: binary_search_loop.induct)
  case (1 c xs x low high)
  let ?m = "low + (high - low) div 2"
  have lh: "low \<le> high" and m: "?m \<le> high" using "1.prems"(4,5) by auto
  consider (less) "c x (xs ! ?m) < 0" | (more) "c x (xs ! ?m) > 0" | (eq) "c x (xs ! ?m) = 0" by linarith
  then show ?case
  proof cases
    case less
    have right: "c x (xs ! i) \<noteq> 0" if "?m \<le> i"
      using "1.prems"(2,3,5) less that unfolding sorted_for_def by (metis le_less_trans less_irrefl sgn_0 sgn_neg neg_less_0_iff_less zero_less_one not_less)
    show ?thesis
    proof (cases "?m = 0")
      case False
      then have "binary_search_loop c xs x low (?m - 1) = (None, k)"
        using "1.prems"(1) less lh by (subst (asm) binary_search_loop.simps) (simp add: Let_def)
      then show ?thesis using "1.IH"(1)[OF lh refl refl less False] "1.prems"(2-4) m right by (cases "?m \<le> i") auto
    qed (use right in auto)
  next
    case more
    have left: "c x (xs ! i) \<noteq> 0" if "i \<le> ?m"
      using "1.prems"(2,3) more that m unfolding sorted_for_def by (metis le_less_trans less_irrefl sgn_0 sgn_pos zero_less_one not_less)
    have "binary_search_loop c xs x (?m + 1) high = (None, k)"
      using "1.prems"(1) more lh by (subst (asm) binary_search_loop.simps) (simp add: Let_def)
    then show ?thesis using "1.IH"(2)[OF lh refl refl] more "1.prems"(2,3,5) left by (cases "i \<le> ?m") auto
  next
    case eq
    then show ?thesis using "1.prems"(1) lh by (subst (asm) binary_search_loop.simps) (simp add: Let_def)
  qed
qed

lemma binary_search_found:
  "xs \<noteq> [] \<Longrightarrow> binary_search c xs x = (r, k) \<Longrightarrow> k < length xs \<and> (case r of Some i \<Rightarrow> i = k \<and> c x (xs ! i) = 0 | None \<Rightarrow> True)"
  using binary_search_loop_found[of c xs x 0 "length xs - 1" r k] by (simp add: binary_search_def)

lemma binary_search_complete:
  assumes "sorted_for c xs x" "y \<in> set xs" "c x y = 0"
  shows "\<exists>k. binary_search c xs x = (Some k, k) \<and> k < length xs \<and> c x (xs ! k) = 0"
proof -
  have ne: "xs \<noteq> []" using assms(2) by auto
  obtain r k where b: "binary_search c xs x = (r, k)" by (cases "binary_search c xs x")
  obtain i where i: "i < length xs" "xs ! i = y" using assms(2) by (auto simp: in_set_conv_nth)
  have "r \<noteq> None"
  proof
    assume "r = None"
    then have "binary_search_loop c xs x 0 (length xs - 1) = (None, k)" using b ne by (simp add: binary_search_def)
    moreover have "i \<le> length xs - 1" using i(1) by linarith
    ultimately show False using binary_search_loop_complete[OF _ _ assms(1), of 0 "length xs - 1" k i] i ne assms(3) by auto
  qed
  then show ?thesis using binary_search_found[OF ne b] b by auto
qed

definition default_comparator :: "'a::linorder \<Rightarrow> 'a \<Rightarrow> int" where
  "default_comparator lhs rhs = (if lhs > rhs then 1 else if lhs < rhs then -1 else 0)"

lemma default_comparator_antimono: "a \<le> b \<Longrightarrow> sgn (default_comparator x b) \<le> sgn (default_comparator x a)"
  by (cases x a rule: linorder_cases; cases x b rule: linorder_cases) (auto simp: default_comparator_def)

lemma default_comparator_sorted: "sorted xs \<Longrightarrow> sorted_for default_comparator xs x"
  by (simp add: sorted_for_def sorted_nth_mono default_comparator_antimono)

text \<open>On a sorted list \<open>binary_search\<close> returns the index of the needle when it is there, and nothing when it
  is not.\<close>

theorem binary_search_correct:
  assumes "sorted xs"
  shows "case binary_search default_comparator xs x of
     (Some k, j) \<Rightarrow> k = j \<and> k < length xs \<and> xs ! k = x
   | (None, j) \<Rightarrow> x \<notin> set xs"
proof (cases "x \<in> set xs")
  case True
  have "default_comparator x x = 0" by (simp add: default_comparator_def)
  then obtain k where "binary_search default_comparator xs x = (Some k, k)" "k < length xs" "default_comparator x (xs ! k) = 0"
    using binary_search_complete[OF default_comparator_sorted[OF assms] True] by blast
  then show ?thesis by (auto simp: default_comparator_def split: if_splits)
next
  case False
  obtain r k where b: "binary_search default_comparator xs x = (r, k)" by (cases "binary_search default_comparator xs x")
  show ?thesis
  proof (cases r)
    case None
    then show ?thesis using False b by simp
  next
    case (Some i)
    then have "xs \<noteq> []" using b by (auto simp: binary_search_def)
    from binary_search_found[OF this b] Some have "i < length xs" "default_comparator x (xs ! i) = 0" by auto
    then have "xs ! i = x" by (auto simp: default_comparator_def split: if_splits)
    then show ?thesis using \<open>i < length xs\<close> False by auto
  qed
qed

theorem binary_search_correct_witness:
  "case binary_search default_comparator [1, 4, 4, 9 :: int] 9 of
     (Some k, j) \<Rightarrow> k = j \<and> k < length [1, 4, 4, 9 :: int] \<and> [1, 4, 4, 9] ! k = (9 :: int)
   | (None, j) \<Rightarrow> 9 \<notin> set [1, 4, 4, 9 :: int]"
  by (rule binary_search_correct) simp

end
