(* ===== verification/Kernel_RangeAllocator.thy ===== *)
theory Kernel_RangeAllocator
  imports AK_BinarySearch
begin

text \<open>
  \<^verbatim>\<open>Kernel/VM/Range.h\<close>, \<^verbatim>\<open>Range.cpp\<close> and \<^verbatim>\<open>RangeAllocator.cpp\<close>: the allocator of virtual address ranges. Addresses are
  natural numbers below \<open>2 ^ 32\<close> and every offset wraps as \<open>FlatPtr\<close> does. The spin lock around each
  operation makes it atomic; it is not part of the state.
\<close>

subsection \<open>Ranges of virtual addresses\<close>

record range =
  r_base :: nat
  r_size :: nat

definition mk_range :: "nat \<Rightarrow> nat \<Rightarrow> range" where
  "mk_range b n = \<lparr>r_base = b, r_size = n\<rparr>"

definition PAGE_SIZE :: nat where
  "PAGE_SIZE = 4096"

text \<open>\<open>VirtualAddress::offset\<close> and \<open>is_page_aligned\<close>.\<close>

definition va_offset :: "nat \<Rightarrow> nat \<Rightarrow> nat" where
  "va_offset a n = usize (a + n)"

definition is_page_aligned :: "nat \<Rightarrow> bool" where
  "is_page_aligned a \<longleftrightarrow> of_nat a AND (0xfff :: u32) = 0"

definition r_end :: "range \<Rightarrow> nat" where
  "r_end r = va_offset (r_base r) (r_size r)"

definition range_contains_addr :: "range \<Rightarrow> nat \<Rightarrow> bool" where
  "range_contains_addr r vaddr \<longleftrightarrow> vaddr \<ge> r_base r \<and> vaddr < r_end r"

definition range_contains :: "range \<Rightarrow> nat \<Rightarrow> nat \<Rightarrow> bool" where
  "range_contains r b n =
     (if va_offset b n < b then False else b \<ge> r_base r \<and> va_offset b n \<le> r_end r)"

definition range_contains_range :: "range \<Rightarrow> range \<Rightarrow> bool" where
  "range_contains_range r other = range_contains r (r_base other) (r_size other)"

definition carve :: "range \<Rightarrow> range \<Rightarrow> range list result" where
  "carve r taken =
     and_then (verify (r_size taken mod PAGE_SIZE = 0)) (\<lambda>_.
     if taken = r then Inr []
     else Inr ((if r_base taken > r_base r then [mk_range (r_base r) (usub (r_base taken) (r_base r))] else []) @
               (if r_end taken < r_end r then [mk_range (r_end taken) (usub (r_end r) (r_end taken))] else [])))"

definition range_intersect :: "range \<Rightarrow> range \<Rightarrow> range result" where
  "range_intersect r other =
     (if r = other then Inr r
      else let new_base = max (r_base r) (r_base other); new_end = min (r_end r) (r_end other) in
        and_then (verify (new_base < new_end)) (\<lambda>_. Inr (mk_range new_base (usub new_end new_base))))"

subsection \<open>RangeAllocator\<close>

record range_allocator =
  ra_available :: "range list"
  ra_total :: range

definition insert_at :: "nat \<Rightarrow> 'a \<Rightarrow> 'a list \<Rightarrow> 'a list" where
  "insert_at i x xs = take i xs @ x # drop i xs"

definition remove_at :: "nat \<Rightarrow> 'a list \<Rightarrow> 'a list" where
  "remove_at i xs = take i xs @ drop (Suc i) xs"

definition initialize_with_range :: "nat \<Rightarrow> nat \<Rightarrow> range_allocator" where
  "initialize_with_range b n = \<lparr>ra_available = [mk_range b n], ra_total = mk_range b n\<rparr>"

definition initialize_from_parent :: "range_allocator \<Rightarrow> range_allocator" where
  "initialize_from_parent parent = \<lparr>ra_available = ra_available parent, ra_total = ra_total parent\<rparr>"

definition carve_at_index :: "range_allocator \<Rightarrow> nat \<Rightarrow> range \<Rightarrow> range_allocator result" where
  "carve_at_index ra index r =
     and_then (carve (ra_available ra ! index) r) (\<lambda>parts.
     and_then (verify (length parts \<ge> 1)) (\<lambda>_.
     and_then (verify (range_contains_range (ra_total ra) (parts ! 0))) (\<lambda>_.
     let avail = (ra_available ra)[index := parts ! 0] in
     if length parts = 2 then
       and_then (verify (range_contains_range (ra_total ra) (parts ! 1))) (\<lambda>_.
       Inr (ra\<lparr>ra_available := insert_at (index + 1) (parts ! 1) avail\<rparr>))
     else Inr (ra\<lparr>ra_available := avail\<rparr>))))"

text \<open>What \<open>allocate_specific\<close> and \<open>allocate_anywhere\<close> do with the range they settle on.\<close>

definition take_range :: "range_allocator \<Rightarrow> nat \<Rightarrow> range \<Rightarrow> (range_allocator \<times> range option) result" where
  "take_range ra i allocated =
     (if ra_available ra ! i = allocated
      then Inr (ra\<lparr>ra_available := remove_at i (ra_available ra)\<rparr>, Some allocated)
      else and_then (carve_at_index ra i allocated) (\<lambda>ra1. Inr (ra1, Some allocated)))"

function allocate_specific_loop :: "range_allocator \<Rightarrow> nat \<Rightarrow> nat \<Rightarrow> nat \<Rightarrow> (range_allocator \<times> range option) result" where
  "allocate_specific_loop ra b n i =
     (if i < length (ra_available ra) then
        and_then (verify (range_contains_range (ra_total ra) (mk_range b n))) (\<lambda>_.
        if \<not> range_contains (ra_available ra ! i) b n then allocate_specific_loop ra b n (i + 1)
        else take_range ra i (mk_range b n))
      else Inr (ra, None))"
  by pat_completeness auto
termination
  by (relation "measure (\<lambda>(ra, b, n, i). length (ra_available ra) - i)") auto

definition allocate_specific :: "range_allocator \<Rightarrow> nat \<Rightarrow> nat \<Rightarrow> (range_allocator \<times> range option) result" where
  "allocate_specific ra b n =
     (if n = 0 then Inr (ra, None)
      else and_then (verify (is_page_aligned b)) (\<lambda>_.
        and_then (verify (n mod PAGE_SIZE = 0)) (\<lambda>_. allocate_specific_loop ra b n 0)))"

definition addition_would_overflow :: "nat \<Rightarrow> nat \<Rightarrow> bool" where
  "addition_would_overflow a b \<longleftrightarrow> a + b \<ge> 2 ^ 32"

definition round_up_to_power_of_two :: "nat \<Rightarrow> nat \<Rightarrow> nat" where
  "round_up_to_power_of_two v p = unat (((of_nat v - 1) AND NOT (of_nat p - 1)) + (of_nat p :: u32))"

function allocate_anywhere_loop :: "range_allocator \<Rightarrow> nat \<Rightarrow> nat \<Rightarrow> nat \<Rightarrow> (range_allocator \<times> range option) result" where
  "allocate_anywhere_loop ra n alignment i =
     (if i < length (ra_available ra) then
        let effective_size = n + PAGE_SIZE * 2; available = ra_available ra ! i in
        if r_size available < effective_size + alignment then allocate_anywhere_loop ra n alignment (i + 1)
        else
          let initial_base = va_offset (r_base available) PAGE_SIZE;
              aligned_base = round_up_to_power_of_two initial_base alignment;
              allocated = mk_range aligned_base n in
          and_then (verify (range_contains_range (ra_total ra) allocated)) (\<lambda>_. take_range ra i allocated)
      else Inr (ra, None))"
  by pat_completeness auto
termination
  by (relation "measure (\<lambda>(ra, n, al, i). length (ra_available ra) - i)") auto

definition allocate_anywhere :: "range_allocator \<Rightarrow> nat \<Rightarrow> nat \<Rightarrow> (range_allocator \<times> range option) result" where
  "allocate_anywhere ra n alignment =
     (if n = 0 then Inr (ra, None)
      else and_then (verify (n mod PAGE_SIZE = 0)) (\<lambda>_.
        and_then (verify (alignment mod PAGE_SIZE = 0)) (\<lambda>_.
        if addition_would_overflow n (PAGE_SIZE * 2) then Inr (ra, None)
        else if addition_would_overflow (n + PAGE_SIZE * 2) alignment then Inr (ra, None)
        else allocate_anywhere_loop ra n alignment 0)))"

text \<open>The random addresses come from \<open>get_fast_random\<close>: \<open>rnd i\<close> is the one of attempt \<open>i\<close>.\<close>

definition maximum_randomization_attempts :: nat where
  "maximum_randomization_attempts = 1000"

function allocate_randomized_loop ::
    "(nat \<Rightarrow> nat) \<Rightarrow> range_allocator \<Rightarrow> nat \<Rightarrow> nat \<Rightarrow> nat \<Rightarrow> (range_allocator \<times> range option) result" where
  "allocate_randomized_loop rnd ra n alignment i =
     (if i < maximum_randomization_attempts then
        let random_address = round_up_to_power_of_two (rnd i) alignment in
        if \<not> range_contains (ra_total ra) random_address n then allocate_randomized_loop rnd ra n alignment (i + 1)
        else and_then (allocate_specific ra random_address n) (\<lambda>(ra1, r).
          case r of Some v \<Rightarrow> Inr (ra1, Some v)
          | None \<Rightarrow> allocate_randomized_loop rnd ra1 n alignment (i + 1))
      else allocate_anywhere ra n alignment)"
  by pat_completeness auto
termination
  by (relation "measure (\<lambda>(rnd, ra, n, al, i). maximum_randomization_attempts - i)") auto

definition allocate_randomized ::
    "(nat \<Rightarrow> nat) \<Rightarrow> range_allocator \<Rightarrow> nat \<Rightarrow> nat \<Rightarrow> (range_allocator \<times> range option) result" where
  "allocate_randomized rnd ra n alignment =
     (if n = 0 then Inr (ra, None)
      else and_then (verify (n mod PAGE_SIZE = 0)) (\<lambda>_.
        and_then (verify (alignment mod PAGE_SIZE = 0)) (\<lambda>_. allocate_randomized_loop rnd ra n alignment 0)))"

text \<open>\<open>Vector::insert_before_matching\<close>: the new list and the index of the new element.\<close>

function insert_before_matching :: "'a \<Rightarrow> ('a \<Rightarrow> bool) \<Rightarrow> nat \<Rightarrow> 'a list \<Rightarrow> 'a list \<times> nat" where
  "insert_before_matching v callback i xs =
     (if i < length xs then
        (if callback (xs ! i) then (insert_at i v xs, i) else insert_before_matching v callback (i + 1) xs)
      else (xs @ [v], length xs))"
  by pat_completeness auto
termination
  by (relation "measure (\<lambda>(v, c, i, xs). length xs - i)") auto

text \<open>The comparator subtracts two unsigned addresses and returns the difference as an \<open>int\<close>.\<close>

definition range_comparator :: "range \<Rightarrow> range \<Rightarrow> int" where
  "range_comparator a b = sint (of_nat (r_base a) - of_nat (r_end b) :: u32)"

definition ra_deallocate :: "range_allocator \<Rightarrow> range \<Rightarrow> range_allocator result" where
  "ra_deallocate ra r =
     and_then (verify (range_contains_range (ra_total ra) r)) (\<lambda>_.
     and_then (verify (r_size r \<noteq> 0)) (\<lambda>_.
     and_then (verify (r_size r mod PAGE_SIZE = 0)) (\<lambda>_.
     and_then (verify (r_base r < r_end r)) (\<lambda>_.
     and_then (verify (ra_available ra \<noteq> [])) (\<lambda>_.
     let (existing, nearby_index) = binary_search range_comparator (ra_available ra) r;
         (avail, inserted_index) =
           (case existing of
              Some k \<Rightarrow> ((ra_available ra)[k := mk_range (r_base (ra_available ra ! k))
                 (usize (r_size (ra_available ra ! k) + r_size r))], nearby_index)
            | None \<Rightarrow> insert_before_matching r (\<lambda>entry. r_base entry \<ge> r_end r) nearby_index (ra_available ra)) in
     if inserted_index < length avail - 1 \<and> r_end (avail ! inserted_index) = r_base (avail ! (inserted_index + 1))
     then Inr (ra\<lparr>ra_available := remove_at (inserted_index + 1)
            (avail[inserted_index := mk_range (r_base (avail ! inserted_index))
               (usize (r_size (avail ! inserted_index) + r_size (avail ! (inserted_index + 1))))])\<rparr>)
     else Inr (ra\<lparr>ra_available := avail\<rparr>))))))"

declare allocate_specific_loop.simps [simp del] allocate_anywhere_loop.simps [simp del]
  allocate_randomized_loop.simps [simp del] insert_before_matching.simps [simp del]


subsection \<open>The set of free addresses\<close>

definition addrs :: "range \<Rightarrow> nat set" where
  "addrs r = {r_base r ..< r_base r + r_size r}"

definition free_addrs :: "range list \<Rightarrow> nat set" where
  "free_addrs rs = (\<Union>r \<in> set rs. addrs r)"

fun apart :: "range list \<Rightarrow> bool" where
  "apart [] \<longleftrightarrow> True"
| "apart (r # rs) \<longleftrightarrow> addrs r \<inter> free_addrs rs = {} \<and> apart rs"

definition range_ok :: "range \<Rightarrow> range \<Rightarrow> bool" where
  "range_ok t r \<longleftrightarrow> 0 < r_size r \<and> r_base t \<le> r_base r \<and> r_base r + r_size r \<le> r_base t + r_size t \<and>
     PAGE_SIZE dvd r_base r \<and> PAGE_SIZE dvd r_size r"

definition ra_inv :: "range_allocator \<Rightarrow> bool" where
  "ra_inv ra \<longleftrightarrow> r_base (ra_total ra) + r_size (ra_total ra) < 2 ^ 32 \<and>
     (\<forall>r \<in> set (ra_available ra). range_ok (ra_total ra) r) \<and> apart (ra_available ra)"

definition ra_free :: "range_allocator \<Rightarrow> nat set" where
  "ra_free ra = free_addrs (ra_available ra)"

lemma free_addrs_simps [simp]:
  "free_addrs [] = {}" "free_addrs (r # rs) = addrs r \<union> free_addrs rs" "free_addrs (xs @ ys) = free_addrs xs \<union> free_addrs ys"
  by (auto simp: free_addrs_def)

lemma apart_append: "apart (xs @ ys) \<longleftrightarrow> apart xs \<and> apart ys \<and> free_addrs xs \<inter> free_addrs ys = {}"
  by (induction xs) auto

lemma mk_range_simps [simp]: "r_base (mk_range b n) = b" "r_size (mk_range b n) = n" "addrs (mk_range b n) = {b ..< b + n}"
  by (simp_all add: mk_range_def addrs_def)

lemma mk_range_eq: "mk_range b n = r \<longleftrightarrow> b = r_base r \<and> n = r_size r"
  by (cases r) (auto simp: mk_range_def)

lemma range_ok_end: "range_ok t r \<Longrightarrow> r_base t + r_size t < 2 ^ 32 \<Longrightarrow> r_end r = r_base r + r_size r"
  by (simp add: range_ok_def r_end_def va_offset_def)

lemma range_contains_ok:
  "r_base t + r_size t < 2 ^ 32 \<Longrightarrow> r_base t \<le> b \<Longrightarrow> b + n \<le> r_base t + r_size t \<Longrightarrow> range_contains t b n"
  by (simp add: range_contains_def va_offset_def r_end_def)

text \<open>Replacing one entry of the list by parts of it takes the rest of that entry off the free set.\<close>

lemma replace_entry:
  assumes "apart (xs @ r # ys)" "apart parts" "free_addrs parts = addrs r - A" "A \<subseteq> addrs r"
  shows "apart (xs @ parts @ ys)" "free_addrs (xs @ parts @ ys) = free_addrs (xs @ r # ys) - A"
proof -
  have d: "addrs r \<inter> free_addrs ys = {}" "free_addrs xs \<inter> addrs r = {}" "free_addrs xs \<inter> free_addrs ys = {}"
    "apart xs" "apart ys" using assms(1) by (auto simp: apart_append)
  show "apart (xs @ parts @ ys)" using d assms(2,3) by (auto simp: apart_append)
  show "free_addrs (xs @ parts @ ys) = free_addrs (xs @ r # ys) - A" using d assms(3,4) by auto
qed

lemma carve_parts:
  assumes "r_base r \<le> b" "b + n \<le> r_base r + r_size r" "0 < n" "PAGE_SIZE dvd n" "r_base r + r_size r < 2 ^ 32" "mk_range b n \<noteq> r"
  defines "parts \<equiv> (if b > r_base r then [mk_range (r_base r) (b - r_base r)] else []) @
      (if b + n < r_base r + r_size r then [mk_range (b + n) (r_base r + r_size r - (b + n))] else [])"
  shows "carve r (mk_range b n) = Inr parts" "apart parts" "free_addrs parts = addrs r - {b ..< b + n}"
    "parts \<noteq> []" "length parts \<le> 2"
proof -
  have e: "r_end r = r_base r + r_size r" "r_end (mk_range b n) = b + n"
    using assms(2,5) by (simp_all add: r_end_def va_offset_def)
  show "carve r (mk_range b n) = Inr parts"
    using assms(1-6) e by (auto simp: carve_def parts_def dvd_imp_mod_0)
  show "apart parts" "free_addrs parts = addrs r - {b ..< b + n}" "length parts \<le> 2"
    using assms(1-3) by (auto simp: parts_def addrs_def)
  show "parts \<noteq> []"
    using assms(1,2,6) by (auto simp: parts_def mk_range_eq)
qed

lemma carve_at_index_eq:
  assumes "i < length (ra_available ra)" "carve (ra_available ra ! i) r = Inr parts" "parts \<noteq> []" "length parts \<le> 2"
    "r_base (ra_total ra) + r_size (ra_total ra) < 2 ^ 32" "\<And>p. p \<in> set parts \<Longrightarrow> range_ok (ra_total ra) p"
  shows "carve_at_index ra i r = Inr (ra\<lparr>ra_available := take i (ra_available ra) @ parts @ drop (Suc i) (ra_available ra)\<rparr>)"
proof -
  have con: "range_contains_range (ra_total ra) p" if "p \<in> set parts" for p
    using assms(5) assms(6)[OF that] by (auto simp: range_contains_range_def range_ok_def intro: range_contains_ok)
  consider p where "parts = [p]" | p q where "parts = [p, q]"
    using assms(3,4) by (cases parts; cases "tl parts") auto
  then show ?thesis
    using assms(1,2) con
    by cases (auto simp: carve_at_index_def insert_at_def upd_conv_take_nth_drop)
qed

lemma take_range_spec:
  assumes inv: "ra_inv ra" and i: "i < length (ra_available ra)" and n: "0 < n" "PAGE_SIZE dvd n" "PAGE_SIZE dvd b"
    and sub: "r_base (ra_available ra ! i) \<le> b" "b + n \<le> r_base (ra_available ra ! i) + r_size (ra_available ra ! i)"
  shows "\<exists>ra'. take_range ra i (mk_range b n) = Inr (ra', Some (mk_range b n)) \<and> ra_inv ra' \<and>
    ra_total ra' = ra_total ra \<and> ra_free ra' = ra_free ra - {b ..< b + n}"
proof -
  let ?xs = "take i (ra_available ra)" and ?ys = "drop (Suc i) (ra_available ra)" and ?r = "ra_available ra ! i"
  have list: "ra_available ra = ?xs @ ?r # ?ys" using i by (rule id_take_nth_drop)
  have small: "r_base (ra_total ra) + r_size (ra_total ra) < 2 ^ 32" and ok: "range_ok (ra_total ra) ?r"
    and okall: "\<forall>r \<in> set (ra_available ra). range_ok (ra_total ra) r" and ap: "apart (?xs @ ?r # ?ys)"
    using inv i list by (auto simp: ra_inv_def)
  have A: "{b ..< b + n} \<subseteq> addrs ?r" using sub by (auto simp: addrs_def)
  define parts where "parts = (if mk_range b n = ?r then [] else (if b > r_base ?r then [mk_range (r_base ?r) (b - r_base ?r)] else []) @
      (if b + n < r_base ?r + r_size ?r then [mk_range (b + n) (r_base ?r + r_size ?r - (b + n))] else []))"
  have pok: "range_ok (ra_total ra) p" if "p \<in> set parts" for p
    using that ok sub n unfolding parts_def range_ok_def
    by (auto split: if_splits intro: dvd_diff_nat dvd_add)
  have r32: "r_base ?r + r_size ?r < 2 ^ 32" using ok small by (simp add: range_ok_def)
  have parts: "apart parts" "free_addrs parts = addrs ?r - {b ..< b + n}"
    using carve_parts(2,3)[OF sub n(1,2) r32] unfolding parts_def
    by (auto simp: mk_range_eq addrs_def simp del: free_addrs_simps apart.simps) auto
  let ?ra' = "ra\<lparr>ra_available := ?xs @ parts @ ?ys\<rparr>"
  have "take_range ra i (mk_range b n) = Inr (?ra', Some (mk_range b n))"
  proof (cases "mk_range b n = ?r")
    case True
    then show ?thesis by (simp add: take_range_def remove_at_def parts_def)
  next
    case False
    note c = carve_parts[OF sub n(1,2) r32 False]
    have p: "carve ?r (mk_range b n) = Inr parts" "parts \<noteq> []" "length parts \<le> 2"
      using c(1,4,5) False by (simp_all add: parts_def)
    have "carve_at_index ra i (mk_range b n) = Inr ?ra'"
      by (rule carve_at_index_eq[OF i p small pok])
    then show ?thesis using False by (auto simp: take_range_def)
  qed
  moreover have "ra_inv ?ra'"
    using small okall pok replace_entry(1)[OF ap parts A] by (auto simp: ra_inv_def dest: in_set_takeD in_set_dropD)
  moreover have "ra_free ?ra' = ra_free ra - {b ..< b + n}"
    using replace_entry(2)[OF ap parts A] list by (simp add: ra_free_def)
  ultimately show ?thesis by auto
qed


lemma page_aligned_iff:
  assumes "b < 2 ^ 32"
  shows "is_page_aligned b \<longleftrightarrow> PAGE_SIZE dvd b"
proof -
  have "of_nat b AND (0xfff :: u32) = take_bit 12 (of_nat b)" by (simp add: take_bit_eq_mask mask_eq_exp_minus_1)
  then have "unat (of_nat b AND (0xfff :: u32)) = take_bit 12 b"
    using assms by (simp add: unsigned_take_bit_eq unsigned_of_nat take_bit_nat_eq_self)
  also have "\<dots> = b mod 4096" by (simp add: take_bit_nat_def)
  finally show ?thesis
    unfolding is_page_aligned_def PAGE_SIZE_def dvd_eq_mod_eq_0 by (metis unat_eq_zero)
qed

lemma allocate_specific_loop_spec:
  assumes inv: "ra_inv ra" and n: "0 < n" "PAGE_SIZE dvd n" "PAGE_SIZE dvd b"
    and tot: "r_base (ra_total ra) \<le> b" "b + n \<le> r_base (ra_total ra) + r_size (ra_total ra)"
  shows "\<exists>ra' r. allocate_specific_loop ra b n i = Inr (ra', r) \<and> ra_inv ra' \<and> ra_total ra' = ra_total ra \<and>
    (case r of Some v \<Rightarrow> v = mk_range b n \<and> {b ..< b + n} \<subseteq> ra_free ra \<and> ra_free ra' = ra_free ra - {b ..< b + n}
     | None \<Rightarrow> ra' = ra \<and> (\<forall>j. i \<le> j \<longrightarrow> j < length (ra_available ra) \<longrightarrow> \<not> {b ..< b + n} \<subseteq> addrs (ra_available ra ! j)))"
proof (induction "length (ra_available ra) - i" arbitrary: i rule: less_induct)
  case less
  have small: "r_base (ra_total ra) + r_size (ra_total ra) < 2 ^ 32" using inv by (simp add: ra_inv_def)
  have con: "range_contains_range (ra_total ra) (mk_range b n)"
    using range_contains_ok[OF small tot] by (simp add: range_contains_range_def)
  have bn: "va_offset b n = b + n" using tot small by (simp add: va_offset_def)
  show ?case
  proof (cases "i < length (ra_available ra)")
    case False
    then show ?thesis using inv by (subst allocate_specific_loop.simps) auto
  next
    case True
    let ?r = "ra_available ra ! i"
    have "range_ok (ra_total ra) ?r" using inv True by (simp add: ra_inv_def)
    then have e: "r_end ?r = r_base ?r + r_size ?r" using range_ok_end small by blast
    have iff: "range_contains ?r b n \<longleftrightarrow> {b ..< b + n} \<subseteq> addrs ?r"
      using n(1) by (auto simp: range_contains_def bn e addrs_def)
    show ?thesis
    proof (cases "range_contains ?r b n")
      case True
      then have sub: "r_base ?r \<le> b" "b + n \<le> r_base ?r + r_size ?r" using e bn by (auto simp: range_contains_def split: if_splits)
      have "{b ..< b + n} \<subseteq> ra_free ra" using iff True nth_mem[OF \<open>i < _\<close>] unfolding ra_free_def free_addrs_def by blast
      moreover have "allocate_specific_loop ra b n i = take_range ra i (mk_range b n)"
        using True con \<open>i < _\<close> by (subst allocate_specific_loop.simps) simp
      ultimately show ?thesis using take_range_spec[OF inv \<open>i < _\<close> n sub] by auto
    next
      case not: False
      have eq: "allocate_specific_loop ra b n i = allocate_specific_loop ra b n (i + 1)"
        using not con True by (subst allocate_specific_loop.simps) simp
      have "length (ra_available ra) - (i + 1) < length (ra_available ra) - i" using True by simp
      from less.hyps[OF this] obtain ra' r where IH: "allocate_specific_loop ra b n (i + 1) = Inr (ra', r)" "ra_inv ra'"
        "ra_total ra' = ra_total ra"
        "case r of Some v \<Rightarrow> v = mk_range b n \<and> {b ..< b + n} \<subseteq> ra_free ra \<and> ra_free ra' = ra_free ra - {b ..< b + n}
         | None \<Rightarrow> ra' = ra \<and> (\<forall>j. i + 1 \<le> j \<longrightarrow> j < length (ra_available ra) \<longrightarrow> \<not> {b ..< b + n} \<subseteq> addrs (ra_available ra ! j))" by blast
      have "\<not> {b ..< b + n} \<subseteq> addrs (ra_available ra ! j)" if "r = None" "i \<le> j" "j < length (ra_available ra)" for j
        using IH(4) that not iff by (cases "j = i") auto
      then show ?thesis unfolding eq using IH by (cases r) auto
    qed
  qed
qed

lemma allocate_specific_spec:
  assumes inv: "ra_inv ra" and n: "0 < n" "PAGE_SIZE dvd n" "PAGE_SIZE dvd b"
    and tot: "r_base (ra_total ra) \<le> b" "b + n \<le> r_base (ra_total ra) + r_size (ra_total ra)"
  shows "\<exists>ra' r. allocate_specific ra b n = Inr (ra', r) \<and> ra_inv ra' \<and> ra_total ra' = ra_total ra \<and>
    (case r of Some v \<Rightarrow> v = mk_range b n \<and> {b ..< b + n} \<subseteq> ra_free ra \<and> ra_free ra' = ra_free ra - {b ..< b + n}
     | None \<Rightarrow> ra' = ra \<and> (\<forall>r \<in> set (ra_available ra). \<not> {b ..< b + n} \<subseteq> addrs r))"
proof -
  have "b < 2 ^ 32" using inv tot n(1) by (simp add: ra_inv_def)
  then have "allocate_specific ra b n = allocate_specific_loop ra b n 0"
    using n by (simp add: allocate_specific_def page_aligned_iff dvd_imp_mod_0)
  then show ?thesis using allocate_specific_loop_spec[OF assms, of 0] by (simp add: all_set_conv_all_nth cong: option.case_cong)
qed


lemma round_up_exact:
  assumes "0 < v" "v + 2 ^ k \<le> 2 ^ 32" "k < 32"
  shows "round_up_to_power_of_two v (2 ^ k) = ((v - 1) div 2 ^ k + 1) * 2 ^ k"
proof -
  have v32: "v < 2 ^ 32" using assms(2) by (smt (verit) less_add_same_cancel1 order_less_le_trans zero_less_numeral zero_less_power)
  have "(of_nat v :: u32) - 1 = of_nat (v - 1)" using assms(1) by (simp add: of_nat_diff)
  moreover have "NOT ((of_nat (2 ^ k) :: u32) - 1) = NOT (mask k)" by (simp add: mask_eq_exp_minus_1)
  moreover have "(w :: u32) AND NOT (mask k) = push_bit k (drop_bit k w)" for w
    by (rule bit_eqI) (auto simp: bit_and_iff bit_not_iff bit_mask_iff bit_push_bit_iff bit_drop_bit_eq)
  ultimately have "round_up_to_power_of_two v (2 ^ k) = unat (push_bit k (drop_bit k (of_nat (v - 1) :: u32)) + of_nat (2 ^ k))"
    by (simp add: round_up_to_power_of_two_def)
  also have "push_bit k (drop_bit k (of_nat (v - 1) :: u32)) = of_nat ((v - 1) div 2 ^ k * 2 ^ k)"
  proof -
    have "unat (of_nat (2 ^ k) :: u32) = 2 ^ k" using assms(3) by (simp only: unsigned_of_nat) (simp add: take_bit_nat_eq_self)
    then have "unat (2 ^ k :: u32) = 2 ^ k" by simp
    then have "drop_bit k (of_nat (v - 1) :: u32) = of_nat ((v - 1) div 2 ^ k)"
      using v32 by (simp add: drop_bit_eq_div of_nat_div unsigned_of_nat word_arith_nat_div take_bit_nat_eq_self)
    then show ?thesis by (simp add: push_bit_eq_mult)
  qed
  also have "unat (of_nat ((v - 1) div 2 ^ k * 2 ^ k) + of_nat (2 ^ k) :: u32) = ((v - 1) div 2 ^ k + 1) * 2 ^ k"
  proof -
    have "(v - 1) div 2 ^ k * 2 ^ k \<le> v - 1" by (rule div_times_less_eq_dividend)
    then have lt: "((v - 1) div 2 ^ k + 1) * 2 ^ k < 2 ^ 32"
      using assms(1,2) unfolding add_mult_distrib by linarith
    have "(of_nat ((v - 1) div 2 ^ k * 2 ^ k) + of_nat (2 ^ k) :: u32) = of_nat (((v - 1) div 2 ^ k + 1) * 2 ^ k)" by (simp add: algebra_simps)
    then show ?thesis using lt by (simp only: unsigned_of_nat take_bit_nat_eq_self) (simp add: take_bit_nat_eq_self)
  qed
  finally show ?thesis .
qed


lemma round_up_bounds:
  assumes "0 < v" "v + 2 ^ k \<le> 2 ^ 32" "k < 32"
  shows "v \<le> round_up_to_power_of_two v (2 ^ k)" "round_up_to_power_of_two v (2 ^ k) < v + 2 ^ k" "2 ^ k dvd round_up_to_power_of_two v (2 ^ k)"
proof -
  have "(v - 1) div 2 ^ k * 2 ^ k \<le> v - 1" "v - 1 < (v - 1) div 2 ^ k * 2 ^ k + 2 ^ k"
    using div_times_less_eq_dividend dividend_less_div_times[of "2 ^ k" "v - 1"] by auto
  then show "v \<le> round_up_to_power_of_two v (2 ^ k)" "round_up_to_power_of_two v (2 ^ k) < v + 2 ^ k"
    unfolding round_up_exact[OF assms] add_mult_distrib using assms(1) by linarith+
  show "2 ^ k dvd round_up_to_power_of_two v (2 ^ k)" unfolding round_up_exact[OF assms] by simp
qed

lemma page_dvd_pow: "12 \<le> k \<Longrightarrow> PAGE_SIZE dvd 2 ^ k"
  using le_imp_power_dvd[of 12 k "2 :: nat"] by (simp add: PAGE_SIZE_def)

text \<open>The range \<open>allocate_anywhere\<close> picks in a large enough entry: aligned, with a page to spare on both sides.\<close>

lemma anywhere_pick:
  assumes inv: "ra_inv ra" and r: "r \<in> set (ra_available ra)" and k: "12 \<le> k" "k < 32"
    and big: "n + PAGE_SIZE * 2 + 2 ^ k \<le> r_size r"
  defines "b \<equiv> round_up_to_power_of_two (va_offset (r_base r) PAGE_SIZE) (2 ^ k)"
  shows "r_base r + PAGE_SIZE \<le> b" "b + n + PAGE_SIZE \<le> r_base r + r_size r" "2 ^ k dvd b" "PAGE_SIZE dvd b"
proof -
  have ok: "range_ok (ra_total ra) r" "r_base (ra_total ra) + r_size (ra_total ra) < 2 ^ 32" using inv r by (auto simp: ra_inv_def)
  have o: "va_offset (r_base r) PAGE_SIZE = r_base r + PAGE_SIZE" "0 < r_base r + PAGE_SIZE" "r_base r + PAGE_SIZE + 2 ^ k \<le> 2 ^ 32"
    using ok big by (auto simp: va_offset_def range_ok_def PAGE_SIZE_def)
  note R = round_up_bounds[OF o(2,3) k(2), folded o(1), folded b_def]
  show "r_base r + PAGE_SIZE \<le> b" "b + n + PAGE_SIZE \<le> r_base r + r_size r" using R(1,2) o(1) big by linarith+
  show "2 ^ k dvd b" by (rule R(3))
  then show "PAGE_SIZE dvd b" using page_dvd_pow[OF k(1)] dvd_trans by blast
qed

lemma allocate_anywhere_loop_spec:
  assumes inv: "ra_inv ra" and n: "0 < n" "PAGE_SIZE dvd n" and k: "12 \<le> k" "k < 32"
  shows "\<exists>ra' r. allocate_anywhere_loop ra n (2 ^ k) i = Inr (ra', r) \<and> ra_inv ra' \<and> ra_total ra' = ra_total ra \<and>
    (case r of Some v \<Rightarrow> r_size v = n \<and> 2 ^ k dvd r_base v \<and>
        {r_base v - PAGE_SIZE ..< r_base v + n + PAGE_SIZE} \<subseteq> ra_free ra \<and> PAGE_SIZE \<le> r_base v \<and> ra_free ra' = ra_free ra - addrs v
     | None \<Rightarrow> ra' = ra \<and> (\<forall>j. i \<le> j \<longrightarrow> j < length (ra_available ra) \<longrightarrow> r_size (ra_available ra ! j) < n + PAGE_SIZE * 2 + 2 ^ k))"
proof (induction "length (ra_available ra) - i" arbitrary: i rule: less_induct)
  case less
  show ?case
  proof (cases "i < length (ra_available ra)")
    case False
    then show ?thesis using inv by (subst allocate_anywhere_loop.simps) auto
  next
    case i: True
    let ?r = "ra_available ra ! i"
    have mem: "?r \<in> set (ra_available ra)" using i by simp
    have ok: "range_ok (ra_total ra) ?r" "r_base (ra_total ra) + r_size (ra_total ra) < 2 ^ 32" using inv mem by (auto simp: ra_inv_def)
    show ?thesis
    proof (cases "r_size ?r < n + PAGE_SIZE * 2 + 2 ^ k")
      case True
      have eq: "allocate_anywhere_loop ra n (2 ^ k) i = allocate_anywhere_loop ra n (2 ^ k) (i + 1)"
        using True i by (subst allocate_anywhere_loop.simps) simp
      have "length (ra_available ra) - (i + 1) < length (ra_available ra) - i" using i by simp
      from less.hyps[OF this] obtain ra' r where IH: "allocate_anywhere_loop ra n (2 ^ k) (i + 1) = Inr (ra', r)" "ra_inv ra'"
        "ra_total ra' = ra_total ra"
        "case r of Some v \<Rightarrow> r_size v = n \<and> 2 ^ k dvd r_base v \<and>
          {r_base v - PAGE_SIZE ..< r_base v + n + PAGE_SIZE} \<subseteq> ra_free ra \<and> PAGE_SIZE \<le> r_base v \<and> ra_free ra' = ra_free ra - addrs v
         | None \<Rightarrow> ra' = ra \<and> (\<forall>j. i + 1 \<le> j \<longrightarrow> j < length (ra_available ra) \<longrightarrow> r_size (ra_available ra ! j) < n + PAGE_SIZE * 2 + 2 ^ k)"
        by blast
      have "r_size (ra_available ra ! j) < n + PAGE_SIZE * 2 + 2 ^ k" if "r = None" "i \<le> j" "j < length (ra_available ra)" for j
        using IH(4) that True by (cases "j = i") auto
      then show ?thesis unfolding eq using IH by (cases r) auto
    next
      case False
      then have big: "n + PAGE_SIZE * 2 + 2 ^ k \<le> r_size ?r" by simp
      define b where "b = round_up_to_power_of_two (va_offset (r_base ?r) PAGE_SIZE) (2 ^ k)"
      note P = anywhere_pick[OF inv mem k big, folded b_def]
      have sub: "r_base ?r \<le> b" "b + n \<le> r_base ?r + r_size ?r" using P(1,2) by linarith+
      have con: "range_contains_range (ra_total ra) (mk_range b n)"
        unfolding range_contains_range_def mk_range_simps
        by (rule range_contains_ok[OF ok(2)]) (use sub ok(1) in \<open>auto simp: range_ok_def\<close>)
      have eq: "allocate_anywhere_loop ra n (2 ^ k) i = take_range ra i (mk_range b n)"
        using i False con by (subst allocate_anywhere_loop.simps) (simp add: b_def Let_def)
      have "{b - PAGE_SIZE ..< b + n + PAGE_SIZE} \<subseteq> addrs ?r" using P(1,2) by (auto simp: addrs_def)
      then have "{b - PAGE_SIZE ..< b + n + PAGE_SIZE} \<subseteq> ra_free ra" using mem unfolding ra_free_def free_addrs_def by blast
      moreover have "PAGE_SIZE \<le> b" using P(1) by simp
      ultimately show ?thesis using take_range_spec[OF inv i n P(4) sub] P(3) unfolding eq by auto
    qed
  qed
qed


lemma allocate_anywhere_spec:
  assumes inv: "ra_inv ra" and n: "0 < n" "PAGE_SIZE dvd n" and k: "12 \<le> k" "k < 32"
  shows "\<exists>ra' r. allocate_anywhere ra n (2 ^ k) = Inr (ra', r) \<and> ra_inv ra' \<and> ra_total ra' = ra_total ra \<and>
    (case r of Some v \<Rightarrow> r_size v = n \<and> 2 ^ k dvd r_base v \<and>
        {r_base v - PAGE_SIZE ..< r_base v + n + PAGE_SIZE} \<subseteq> ra_free ra \<and> PAGE_SIZE \<le> r_base v \<and> ra_free ra' = ra_free ra - addrs v
     | None \<Rightarrow> ra' = ra \<and> (\<forall>r \<in> set (ra_available ra). r_size r < n + PAGE_SIZE * 2 + 2 ^ k))"
proof (cases "addition_would_overflow (n + PAGE_SIZE * 2) (2 ^ k)")
  case True
  have "r_size r < n + PAGE_SIZE * 2 + 2 ^ k" if "r \<in> set (ra_available ra)" for r
  proof -
    have "range_ok (ra_total ra) r" "r_base (ra_total ra) + r_size (ra_total ra) < 2 ^ 32" using inv that by (auto simp: ra_inv_def)
    then show ?thesis using True by (simp add: range_ok_def addition_would_overflow_def)
  qed
  moreover have "allocate_anywhere ra n (2 ^ k) = Inr (ra, None)"
    using n True page_dvd_pow[OF k(1)] by (simp add: allocate_anywhere_def dvd_imp_mod_0)
  ultimately show ?thesis using inv by simp
next
  case False
  moreover from False have "\<not> addition_would_overflow n (PAGE_SIZE * 2)"
    by (simp add: addition_would_overflow_def)
  ultimately have "allocate_anywhere ra n (2 ^ k) = allocate_anywhere_loop ra n (2 ^ k) 0"
    using n page_dvd_pow[OF k(1)] by (simp add: allocate_anywhere_def dvd_imp_mod_0)
  then show ?thesis using allocate_anywhere_loop_spec[OF assms, of 0]
    by (simp add: all_set_conv_all_nth cong: option.case_cong)
qed

subsection \<open>Giving a range back\<close>

definition ranges_ok :: "range \<Rightarrow> range list \<Rightarrow> bool" where
  "ranges_ok t rs \<longleftrightarrow> (\<forall>r \<in> set rs. range_ok t r) \<and> apart rs"

lemma insert_before_matching_split:
  "k \<le> length zs \<Longrightarrow> \<exists>xs ys. zs = xs @ ys \<and> insert_before_matching v c k zs = (xs @ v # ys, length xs)"
proof (induction v c k zs rule: insert_before_matching.induct)
  case (1 v c k zs)
  show ?case
  proof (cases "k < length zs \<and> \<not> c (zs ! k)")
    case True
    then have "insert_before_matching v c k zs = insert_before_matching v c (k + 1) zs"
      by (subst insert_before_matching.simps) simp
    then show ?thesis using 1 True by auto
  next
    case False
    then show ?thesis
    proof (cases "k < length zs")
      case True
      then have "insert_before_matching v c k zs = (take k zs @ v # drop k zs, length (take k zs))"
        using False by (subst insert_before_matching.simps) (simp add: insert_at_def)
      then show ?thesis by (metis append_take_drop_id)
    next
      case False
      then have "insert_before_matching v c k zs = (zs @ v # [], length zs)"
        by (subst insert_before_matching.simps) simp
      then show ?thesis by (metis append_Nil2)
    qed
  qed
qed

lemma comparator_zero:
  assumes "r_base a < 2 ^ 32" "r_end b < 2 ^ 32"
  shows "range_comparator a b = 0 \<longleftrightarrow> r_base a = r_end b"
proof -
  have "range_comparator a b = 0 \<longleftrightarrow> (of_nat (r_base a) :: u32) = of_nat (r_end b)"
    unfolding range_comparator_def by (metis eq_iff_diff_eq_0 signed_0 signed_word_eqI)
  also have "\<dots> \<longleftrightarrow> unat (of_nat (r_base a) :: u32) = unat (of_nat (r_end b) :: u32)" by (metis unsigned_word_eqI)
  also have "\<dots> \<longleftrightarrow> r_base a = r_end b" using assms by (simp add: unsigned_of_nat take_bit_nat_eq_self)
  finally show ?thesis .
qed

text \<open>The last step of \<open>deallocate\<close>: the entry at \<open>length xs\<close> swallows its right neighbour when they touch.\<close>

lemma merge_next:
  assumes ok: "ranges_ok t (xs @ r # ys)" and t: "r_base t + r_size t < 2 ^ 32"
  defines "zs \<equiv> xs @ r # ys" and "i \<equiv> length xs"
  shows "\<exists>rs. (if i < length zs - 1 \<and> r_end (zs ! i) = r_base (zs ! (i + 1))
      then remove_at (i + 1) (zs[i := mk_range (r_base (zs ! i)) (usize (r_size (zs ! i) + r_size (zs ! (i + 1))))])
      else zs) = rs \<and> ranges_ok t rs \<and> free_addrs rs = free_addrs zs"
proof (cases "i < length zs - 1 \<and> r_end (zs ! i) = r_base (zs ! (i + 1))")
  case False
  then show ?thesis using ok by (simp only: if_False zs_def) blast
next
  case True
  then obtain q ys' where ys: "ys = q # ys'" by (cases ys) (auto simp: zs_def i_def)
  have e: "r_end r = r_base q" using True by (simp add: zs_def i_def ys nth_append)
  have r: "range_ok t r" "range_ok t q" using ok ys by (auto simp: ranges_ok_def)
  have rq: "r_base r + r_size r = r_base q" using e range_ok_end[OF r(1) t] by simp
  have u: "usize (r_size r + r_size q) = r_size r + r_size q" using r rq t by (simp add: range_ok_def)
  let ?m = "mk_range (r_base r) (r_size r + r_size q)"
  have "addrs ?m = addrs r \<union> addrs q" using rq by (auto simp: addrs_def)
  moreover have "range_ok t ?m" using r rq by (auto simp: range_ok_def intro: dvd_add)
  ultimately have "ranges_ok t (xs @ ?m # ys')" "free_addrs (xs @ ?m # ys') = free_addrs zs"
    using ok unfolding ranges_ok_def zs_def ys by (auto simp: apart_append)
  moreover have "remove_at (i + 1) (zs[i := mk_range (r_base (zs ! i)) (usize (r_size (zs ! i) + r_size (zs ! (i + 1))))]) = xs @ ?m # ys'"
  proof -
    have "zs ! i = r" "zs ! (i + 1) = q" by (simp_all add: zs_def i_def ys nth_append)
    then have "zs[i := mk_range (r_base (zs ! i)) (usize (r_size (zs ! i) + r_size (zs ! (i + 1))))] = xs @ ?m # q # ys'"
      using u by (simp add: zs_def i_def ys)
    then show ?thesis by (simp add: remove_at_def i_def)
  qed
  ultimately show ?thesis unfolding if_P[OF True] by blast
qed

lemma ra_deallocate_spec:
  assumes inv: "ra_inv ra" and r: "range_ok (ra_total ra) r" and free: "addrs r \<inter> ra_free ra = {}" and ne: "ra_available ra \<noteq> []"
  shows "\<exists>ra'. ra_deallocate ra r = Inr ra' \<and> ra_inv ra' \<and> ra_total ra' = ra_total ra \<and> ra_free ra' = ra_free ra \<union> addrs r"
proof -
  let ?t = "ra_total ra" and ?zs = "ra_available ra"
  have t: "r_base ?t + r_size ?t < 2 ^ 32" and ok: "ranges_ok ?t ?zs" using inv by (auto simp: ra_inv_def ranges_ok_def)
  have con: "range_contains_range ?t r" "r_size r \<noteq> 0" "r_size r mod PAGE_SIZE = 0" "r_base r < r_end r" "r_base r < 2 ^ 32"
    using r t range_ok_end[OF r t] by (auto simp: range_ok_def range_contains_range_def dvd_imp_mod_0 intro: range_contains_ok)
  obtain ex k where bs: "binary_search range_comparator ?zs r = (ex, k)" by (cases "binary_search range_comparator ?zs r")
  note found = binary_search_found[OF ne bs]
  have step: "\<exists>xs q ys. (case ex of
              Some k' \<Rightarrow> (?zs[k' := mk_range (r_base (?zs ! k')) (usize (r_size (?zs ! k') + r_size r))], k)
            | None \<Rightarrow> insert_before_matching r (\<lambda>entry. r_base entry \<ge> r_end r) k ?zs) = (xs @ q # ys, length xs) \<and>
      ranges_ok ?t (xs @ q # ys) \<and> free_addrs (xs @ q # ys) = ra_free ra \<union> addrs r"
  proof (cases ex)
    case None
    obtain xs ys where s: "?zs = xs @ ys" "insert_before_matching r (\<lambda>entry. r_base entry \<ge> r_end r) k ?zs = (xs @ r # ys, length xs)"
      using insert_before_matching_split[of k ?zs r "\<lambda>entry. r_base entry \<ge> r_end r"] found by auto
    have "ranges_ok ?t (xs @ r # ys)" "free_addrs (xs @ r # ys) = ra_free ra \<union> addrs r"
      using ok r free unfolding ranges_ok_def ra_free_def s(1) by (auto simp: apart_append)
    then show ?thesis using None s(2) by auto
  next
    case (Some k')
    then have k: "k < length ?zs" "k' = k" "range_comparator r (?zs ! k) = 0" using found by auto
    let ?q = "?zs ! k" and ?xs = "take k ?zs" and ?ys = "drop (Suc k) ?zs"
    have list: "?zs = ?xs @ ?q # ?ys" using k(1) by (rule id_take_nth_drop)
    have q: "range_ok ?t ?q" using ok k(1) by (simp add: ranges_ok_def)
    have "r_end ?q < 2 ^ 32" by (simp only: r_end_def va_offset_def usize_less)
    then have adj: "r_base r = r_base ?q + r_size ?q" using comparator_zero con(5) k(3) range_ok_end[OF q t] by simp
    have u: "usize (r_size ?q + r_size r) = r_size ?q + r_size r" using q r adj t by (simp add: range_ok_def)
    let ?m = "mk_range (r_base ?q) (r_size ?q + r_size r)"
    have "addrs ?m = addrs ?q \<union> addrs r" using adj by (auto simp: addrs_def)
    moreover have "range_ok ?t ?m" using q r adj by (auto simp: range_ok_def intro: dvd_add)
    moreover have "ranges_ok ?t (?xs @ ?q # ?ys)" "ra_free ra = free_addrs (?xs @ ?q # ?ys)" using ok list by (simp_all add: ra_free_def)
    ultimately have "ranges_ok ?t (?xs @ ?m # ?ys)" "free_addrs (?xs @ ?m # ?ys) = ra_free ra \<union> addrs r"
      using free unfolding ranges_ok_def by (auto simp: apart_append)
    moreover have "?zs[k := ?m] = ?xs @ ?m # ?ys" "length ?xs = k" using k(1) by (simp_all add: upd_conv_take_nth_drop)
    ultimately show ?thesis using Some k(2) u by (intro exI[of _ ?xs] exI[of _ ?m] exI[of _ ?ys]) simp
  qed
  then obtain xs q ys where st: "(case ex of
              Some k' \<Rightarrow> (?zs[k' := mk_range (r_base (?zs ! k')) (usize (r_size (?zs ! k') + r_size r))], k)
            | None \<Rightarrow> insert_before_matching r (\<lambda>entry. r_base entry \<ge> r_end r) k ?zs) = (xs @ q # ys, length xs)"
      "ranges_ok ?t (xs @ q # ys)" "free_addrs (xs @ q # ys) = ra_free ra \<union> addrs r" by blast
  obtain rs where rs: "(if length xs < length (xs @ q # ys) - 1 \<and> r_end ((xs @ q # ys) ! length xs) = r_base ((xs @ q # ys) ! (length xs + 1))
      then remove_at (length xs + 1) ((xs @ q # ys)[length xs := mk_range (r_base ((xs @ q # ys) ! length xs)) (usize (r_size ((xs @ q # ys) ! length xs) + r_size ((xs @ q # ys) ! (length xs + 1))))])
      else (xs @ q # ys)) = rs" "ranges_ok ?t rs" "free_addrs rs = free_addrs (xs @ q # ys)"
    using merge_next[OF st(2) t] by blast
  have "ra_deallocate ra r = Inr (ra\<lparr>ra_available := rs\<rparr>)"
    unfolding ra_deallocate_def bs prod.case Let_def st(1) using con(1-4) ne rs(1) by (auto split: if_splits)
  then show ?thesis using rs(2,3) st(3) t by (simp add: ra_inv_def ranges_ok_def ra_free_def)
qed

lemma round_up_dvd:
  assumes "k < 32"
  shows "2 ^ k dvd round_up_to_power_of_two v (2 ^ k)"
proof -
  let ?x = "of_nat v - 1 :: u32"
  have "NOT ((of_nat (2 ^ k) :: u32) - 1) = NOT (mask k)" by (simp add: mask_eq_exp_minus_1)
  moreover have "?x AND NOT (mask k) = push_bit k (drop_bit k ?x)"
    by (rule bit_eqI) (auto simp: bit_and_iff bit_not_iff bit_mask_iff bit_push_bit_iff bit_drop_bit_eq)
  moreover have "(of_nat (2 ^ k) :: u32) = push_bit k 1" by (simp add: push_bit_eq_mult)
  ultimately have "(?x AND NOT (of_nat (2 ^ k) - 1)) + (of_nat (2 ^ k) :: u32) = push_bit k (drop_bit k ?x + 1)"
    by (simp only: push_bit_add)
  then have "take_bit k ((?x AND NOT (of_nat (2 ^ k) - 1)) + (of_nat (2 ^ k) :: u32)) = 0"
    by (simp only: take_bit_push_bit) simp
  then have "take_bit k (round_up_to_power_of_two v (2 ^ k)) = 0"
    unfolding round_up_to_power_of_two_def by (simp only: unsigned_take_bit_eq[symmetric]) simp
  then show ?thesis by (simp add: take_bit_eq_0_iff)
qed

lemma round_up_less: "round_up_to_power_of_two v p < 2 ^ 32"
proof -
  have "unat (w :: u32) < 2 ^ LENGTH(32)" for w by (rule unsigned_less)
  then show ?thesis unfolding round_up_to_power_of_two_def by simp
qed

lemma range_contains_no_wrap:
  assumes "range_contains t b n" "n < 2 ^ 32" "b < 2 ^ 32" "r_base t + r_size t < 2 ^ 32"
  shows "r_base t \<le> b" "b + n \<le> r_base t + r_size t"
proof -
  have "b + n < 2 ^ 32"
  proof (rule ccontr)
    assume w: "\<not> b + n < 2 ^ 32"
    then have "usize (b + n) = b + n - 2 ^ 32" using assms(2,3) by (simp add: usize_def mod_if)
    then show False using w assms(1,2) by (auto simp: range_contains_def va_offset_def split: if_splits)
  qed
  then show "r_base t \<le> b" "b + n \<le> r_base t + r_size t"
    using assms(1,4) by (auto simp: range_contains_def va_offset_def r_end_def split: if_splits)
qed

lemma allocate_randomized_loop_spec:
  assumes inv: "ra_inv ra" and n: "0 < n" "PAGE_SIZE dvd n" and k: "12 \<le> k" "k < 32" and n32: "n < 2 ^ 32"
  shows "\<exists>ra' r. allocate_randomized_loop rnd ra n (2 ^ k) i = Inr (ra', r) \<and> ra_inv ra' \<and> ra_total ra' = ra_total ra \<and>
    (case r of Some v \<Rightarrow> r_size v = n \<and> 2 ^ k dvd r_base v \<and> addrs v \<subseteq> ra_free ra \<and> ra_free ra' = ra_free ra - addrs v
     | None \<Rightarrow> ra' = ra)"
proof (induction "maximum_randomization_attempts - i" arbitrary: i rule: less_induct)
  case less
  let ?b = "round_up_to_power_of_two (rnd i) (2 ^ k)"
  show ?case
  proof (cases "i < maximum_randomization_attempts")
    case False
    obtain ra' r where "allocate_anywhere ra n (2 ^ k) = Inr (ra', r)" "ra_inv ra'" "ra_total ra' = ra_total ra"
      "case r of Some v \<Rightarrow> r_size v = n \<and> 2 ^ k dvd r_base v \<and>
        {r_base v - PAGE_SIZE ..< r_base v + n + PAGE_SIZE} \<subseteq> ra_free ra \<and> PAGE_SIZE \<le> r_base v \<and> ra_free ra' = ra_free ra - addrs v
       | None \<Rightarrow> ra' = ra \<and> (\<forall>r \<in> set (ra_available ra). r_size r < n + PAGE_SIZE * 2 + 2 ^ k)"
      using allocate_anywhere_spec[OF inv n k] by blast
    moreover have "allocate_randomized_loop rnd ra n (2 ^ k) i = allocate_anywhere ra n (2 ^ k)"
      using False by (subst allocate_randomized_loop.simps) simp
    ultimately show ?thesis by (cases r) (auto simp: addrs_def subset_iff)
  next
    case True
    then have dec: "maximum_randomization_attempts - (i + 1) < maximum_randomization_attempts - i" by simp
    have small: "r_base (ra_total ra) + r_size (ra_total ra) < 2 ^ 32" using inv by (simp add: ra_inv_def)
    have al: "2 ^ k dvd ?b" "PAGE_SIZE dvd ?b" using round_up_dvd[OF k(2), of "rnd i"] page_dvd_pow[OF k(1)] by (auto intro: dvd_trans)
    show ?thesis
    proof (cases "range_contains (ra_total ra) ?b n")
      case False
      then have "allocate_randomized_loop rnd ra n (2 ^ k) i = allocate_randomized_loop rnd ra n (2 ^ k) (i + 1)"
        using True by (subst allocate_randomized_loop.simps) simp
      then show ?thesis using less.hyps[OF dec] by simp
    next
      case con: True
      have e: "r_end (ra_total ra) = r_base (ra_total ra) + r_size (ra_total ra)" using small by (simp add: r_end_def va_offset_def)
      have tot: "r_base (ra_total ra) \<le> ?b" "?b + n \<le> r_base (ra_total ra) + r_size (ra_total ra)"
        using range_contains_no_wrap[OF con n32] small round_up_less by auto
      obtain ra' r where a: "allocate_specific ra ?b n = Inr (ra', r)" "ra_inv ra'" "ra_total ra' = ra_total ra"
        "case r of Some v \<Rightarrow> v = mk_range ?b n \<and> {?b ..< ?b + n} \<subseteq> ra_free ra \<and> ra_free ra' = ra_free ra - {?b ..< ?b + n}
         | None \<Rightarrow> ra' = ra \<and> (\<forall>r \<in> set (ra_available ra). \<not> {?b ..< ?b + n} \<subseteq> addrs r)"
        using allocate_specific_spec[OF inv n al(2) tot] by blast
      have eq: "allocate_randomized_loop rnd ra n (2 ^ k) i =
          (case r of Some v \<Rightarrow> Inr (ra', Some v) | None \<Rightarrow> allocate_randomized_loop rnd ra' n (2 ^ k) (i + 1))"
        using True con a(1) by (subst allocate_randomized_loop.simps) (cases r; simp add: Let_def)
      show ?thesis
      proof (cases r)
        case None
        then show ?thesis using eq a(4) less.hyps[OF dec] by simp
      next
        case (Some v)
        then show ?thesis using eq a al(1) by auto
      qed
    qed
  qed
qed


subsection \<open>Owners of ranges\<close>

text \<open>
  What the users of an allocator of address ranges rely on. \<open>owned\<close> is the list of ranges that are
  handed out; \<open>W\<close> is everything there is.
\<close>

definition pool_inv :: "('s \<Rightarrow> bool) \<Rightarrow> ('s \<Rightarrow> nat set) \<Rightarrow> nat set \<Rightarrow> 's \<Rightarrow> range list \<Rightarrow> bool" where
  "pool_inv ok free W s owned \<longleftrightarrow> ok s \<and> apart owned \<and> free s \<inter> free_addrs owned = {} \<and> free s \<union> free_addrs owned = W"

locale address_pool =
  fixes ok :: "'s \<Rightarrow> bool" and free :: "'s \<Rightarrow> nat set"
    and alloc :: "'s \<Rightarrow> 'q \<Rightarrow> ('s \<times> range option) result" and good :: "'s \<Rightarrow> 'q \<Rightarrow> bool"
    and dealloc :: "'s \<Rightarrow> range \<Rightarrow> 's result" and valid :: "'s \<Rightarrow> range \<Rightarrow> bool"
  assumes alloc_law: "ok s \<Longrightarrow> good s q \<Longrightarrow> \<exists>s' r. alloc s q = Inr (s', r) \<and> ok s' \<and>
      (case r of Some v \<Rightarrow> addrs v \<subseteq> free s \<and> free s' = free s - addrs v | None \<Rightarrow> s' = s)"
    and dealloc_law: "ok s \<Longrightarrow> valid s v \<Longrightarrow> addrs v \<inter> free s = {} \<Longrightarrow>
      \<exists>s'. dealloc s v = Inr s' \<and> ok s' \<and> free s' = free s \<union> addrs v"
begin

lemma alloc_keeps:
  assumes "pool_inv ok free W s owned" "good s q"
  shows "\<exists>s' r. alloc s q = Inr (s', r) \<and>
    (case r of Some v \<Rightarrow> addrs v \<inter> free_addrs owned = {} \<and> pool_inv ok free W s' (v # owned) | None \<Rightarrow> s' = s)"
proof -
  obtain s' r where a: "alloc s q = Inr (s', r)" "ok s'"
    "case r of Some v \<Rightarrow> addrs v \<subseteq> free s \<and> free s' = free s - addrs v | None \<Rightarrow> s' = s"
    using alloc_law assms unfolding pool_inv_def by blast
  then show ?thesis using assms(1) by (cases r) (auto simp: pool_inv_def)
qed

lemma dealloc_keeps:
  assumes "pool_inv ok free W s (xs @ v # ys)" "valid s v"
  shows "\<exists>s'. dealloc s v = Inr s' \<and> pool_inv ok free W s' (xs @ ys)"
proof -
  have "addrs v \<inter> free s = {}" "ok s" using assms(1) by (auto simp: pool_inv_def)
  then obtain s' where "dealloc s v = Inr s'" "ok s'" "free s' = free s \<union> addrs v"
    using dealloc_law[OF _ assms(2)] by blast
  then show ?thesis using assms(1) by (auto simp: pool_inv_def apart_append)
qed

end

definition anywhere_request :: "range_allocator \<Rightarrow> nat \<times> nat \<Rightarrow> bool" where
  "anywhere_request ra q \<longleftrightarrow> 0 < fst q \<and> PAGE_SIZE dvd fst q \<and> 12 \<le> snd q \<and> snd q < 32"

definition returnable :: "range_allocator \<Rightarrow> range \<Rightarrow> bool" where
  "returnable ra r \<longleftrightarrow> range_ok (ra_total ra) r \<and> ra_available ra \<noteq> []"

interpretation anywhere_pool: address_pool ra_inv ra_free "\<lambda>ra (n, k). allocate_anywhere ra n (2 ^ k)"
  anywhere_request ra_deallocate returnable
proof unfold_locales
  fix ra q
  assume a: "ra_inv ra" "anywhere_request ra q"
  obtain n k where q: "q = (n, k)" by (cases q)
  have "0 < n" "PAGE_SIZE dvd n" "12 \<le> k" "k < 32" using a(2) q by (auto simp: anywhere_request_def)
  from allocate_anywhere_spec[OF a(1) this] obtain ra' r where s: "allocate_anywhere ra n (2 ^ k) = Inr (ra', r)" "ra_inv ra'"
    "case r of Some v \<Rightarrow> r_size v = n \<and> 2 ^ k dvd r_base v \<and>
        {r_base v - PAGE_SIZE ..< r_base v + n + PAGE_SIZE} \<subseteq> ra_free ra \<and> PAGE_SIZE \<le> r_base v \<and> ra_free ra' = ra_free ra - addrs v
     | None \<Rightarrow> ra' = ra \<and> (\<forall>r \<in> set (ra_available ra). r_size r < n + PAGE_SIZE * 2 + 2 ^ k)" by blast
  then show "\<exists>ra' r. (case q of (n, k) \<Rightarrow> allocate_anywhere ra n (2 ^ k)) = Inr (ra', r) \<and> ra_inv ra' \<and>
      (case r of Some v \<Rightarrow> addrs v \<subseteq> ra_free ra \<and> ra_free ra' = ra_free ra - addrs v | None \<Rightarrow> ra' = ra)"
    using q by (cases r) (auto simp: addrs_def subset_iff)
next
  fix ra v
  assume "ra_inv ra" "returnable ra v" "addrs v \<inter> ra_free ra = {}"
  then show "\<exists>ra'. ra_deallocate ra v = Inr ra' \<and> ra_inv ra' \<and> ra_free ra' = ra_free ra \<union> addrs v"
    using ra_deallocate_spec[of ra v] by (auto simp: returnable_def)
qed

text \<open>
  The comparator of \<open>deallocate\<close> takes an unsigned difference for a signed one. When the range
  lies more than \<open>2 ^ 31\<close> bytes below other entries, the search runs past them, and the range lands
  behind an entry with a higher address.
\<close>

definition wide_allocator :: range_allocator where
  "wide_allocator = \<lparr>ra_available = [mk_range 0x00800000 0x1000, mk_range 0x90000000 0x1000, mk_range 0xa0000000 0x1000],
     ra_total = mk_range 0x00800000 0xbd800000\<rparr>"

definition sorted_ranges :: "range list \<Rightarrow> bool" where
  "sorted_ranges rs = sorted (map r_base rs)"

text \<open>\<open>deallocate\<close> does not keep the list of available ranges sorted by address, because its comparator
  returns an unsigned difference as an \<open>int\<close>: a range far below two others is put between them.\<close>

theorem wide_allocator_unsorted:
  "sorted_ranges (ra_available wide_allocator) \<and>
   (\<exists>ra'. ra_deallocate wide_allocator (mk_range 0x01000000 0x1000) = Inr ra' \<and> \<not> sorted_ranges (ra_available ra'))"
proof -
  have "ra_deallocate wide_allocator (mk_range 0x01000000 0x1000) = Inr (wide_allocator\<lparr>ra_available :=
    [mk_range 0x00800000 0x1000, mk_range 0x90000000 0x1000, mk_range 0x01000000 0x1000, mk_range 0xa0000000 0x1000]\<rparr>)"
    by code_simp
  then show ?thesis by (simp add: sorted_ranges_def wide_allocator_def)
qed


subsection \<open>Properties of the range allocator\<close>

definition sample_ranges :: range_allocator where
  "sample_ranges = \<lparr>ra_available = [mk_range 0x00800000 0x10000, mk_range 0x00820000 0x4000],
     ra_total = mk_range 0x00800000 0x1000000\<rparr>"

lemma sample_ranges_inv: "ra_inv sample_ranges"
  by (simp add: ra_inv_def sample_ranges_def range_ok_def PAGE_SIZE_def)

text \<open>C23: \<open>allocate_anywhere\<close> returns an aligned range of the requested size that was free, with a free page on
  either side of it, and takes exactly the range off the free addresses; it returns nothing only when
  no entry is large enough for the size, the alignment and the two guard pages.\<close>

theorem allocate_anywhere_correct:
  assumes "ra_inv ra" "0 < n" "PAGE_SIZE dvd n" "12 \<le> k" "k < 32"
  shows "\<exists>ra' r. allocate_anywhere ra n (2 ^ k) = Inr (ra', r) \<and> ra_inv ra' \<and> ra_total ra' = ra_total ra \<and>
    (case r of Some v \<Rightarrow> r_size v = n \<and> 2 ^ k dvd r_base v \<and>
        {r_base v - PAGE_SIZE ..< r_base v + n + PAGE_SIZE} \<subseteq> ra_free ra \<and> PAGE_SIZE \<le> r_base v \<and> ra_free ra' = ra_free ra - addrs v
     | None \<Rightarrow> ra' = ra \<and> (\<forall>r \<in> set (ra_available ra). r_size r < n + PAGE_SIZE * 2 + 2 ^ k))"
  by (rule allocate_anywhere_spec[OF assms])

theorem allocate_anywhere_correct_witness:
  "\<exists>ra' r. allocate_anywhere sample_ranges 0x2000 (2 ^ 12) = Inr (ra', r) \<and> ra_inv ra' \<and> ra_total ra' = ra_total sample_ranges \<and>
    (case r of Some v \<Rightarrow> r_size v = 0x2000 \<and> 2 ^ 12 dvd r_base v \<and>
        {r_base v - PAGE_SIZE ..< r_base v + 0x2000 + PAGE_SIZE} \<subseteq> ra_free sample_ranges \<and> PAGE_SIZE \<le> r_base v \<and>
        ra_free ra' = ra_free sample_ranges - addrs v
     | None \<Rightarrow> ra' = sample_ranges \<and> (\<forall>r \<in> set (ra_available sample_ranges). r_size r < 0x2000 + PAGE_SIZE * 2 + 2 ^ 12))"
  by (rule allocate_anywhere_correct[OF sample_ranges_inv]) (simp_all add: PAGE_SIZE_def)

text \<open>\<open>allocate_specific\<close> hands out the requested range exactly when one available entry contains it, and
  takes exactly that range off the free addresses.\<close>

theorem allocate_specific_correct:
  assumes "ra_inv ra" "0 < n" "PAGE_SIZE dvd n" "PAGE_SIZE dvd b"
    "r_base (ra_total ra) \<le> b" "b + n \<le> r_base (ra_total ra) + r_size (ra_total ra)"
  shows "\<exists>ra' r. allocate_specific ra b n = Inr (ra', r) \<and> ra_inv ra' \<and> ra_total ra' = ra_total ra \<and>
    (case r of Some v \<Rightarrow> v = mk_range b n \<and> {b ..< b + n} \<subseteq> ra_free ra \<and> ra_free ra' = ra_free ra - {b ..< b + n}
     | None \<Rightarrow> ra' = ra \<and> (\<forall>r \<in> set (ra_available ra). \<not> {b ..< b + n} \<subseteq> addrs r))"
  by (rule allocate_specific_spec[OF assms])

theorem allocate_specific_correct_witness:
  "\<exists>ra' r. allocate_specific sample_ranges 0x00803000 0x1000 = Inr (ra', r) \<and> ra_inv ra' \<and> ra_total ra' = ra_total sample_ranges \<and>
    (case r of Some v \<Rightarrow> v = mk_range 0x00803000 0x1000 \<and> {0x00803000 ..< 0x00803000 + 0x1000} \<subseteq> ra_free sample_ranges \<and>
        ra_free ra' = ra_free sample_ranges - {0x00803000 ..< 0x00803000 + 0x1000}
     | None \<Rightarrow> ra' = sample_ranges \<and> (\<forall>r \<in> set (ra_available sample_ranges). \<not> {0x00803000 ..< 0x00803000 + 0x1000} \<subseteq> addrs r))"
  by (rule allocate_specific_correct[OF sample_ranges_inv]) (simp_all add: PAGE_SIZE_def sample_ranges_def)





end
