(* ===== verification/Kernel_Lock.thy ===== *)
theory Kernel_Lock
  imports Prelude "HOL-Library.AList"
begin

text \<open>
  \<open>Kernel/Lock.cpp\<close> over \<open>Kernel/WaitQueue.cpp\<close>: a lock with exclusive and shared holders, as a system of threads whose
  steps interleave. The spin flag \<open>m_lock\<close> guards the sections in which the lock's fields change; the wait queue is
  used outside of them. Threads are numbers.
\<close>

subsection \<open>The wait queue\<close>

text \<open>A blocker is the thread it blocks and its flag \<open>m_did_unblock\<close>.\<close>

record queue_blocker =
  qb_thread :: nat
  m_did_unblock :: bool

record wait_queue =
  m_wake_requested :: bool
  m_should_block :: bool
  m_blockers :: "queue_blocker list"

definition wait_queue_new :: wait_queue where
  "wait_queue_new = \<lparr>m_wake_requested = False, m_should_block = True, m_blockers = []\<rparr>"

definition should_block :: "bool \<Rightarrow> wait_queue \<Rightarrow> wait_queue" where
  "should_block block q = q\<lparr>m_should_block := block\<rparr>"

definition should_add_blocker :: "wait_queue \<Rightarrow> bool \<times> wait_queue" where
  "should_add_blocker q =
     (if m_wake_requested q \<or> \<not> m_should_block q then (False, q\<lparr>m_wake_requested := False\<rparr>) else (True, q))"

definition add_blocker :: "queue_blocker \<Rightarrow> wait_queue \<Rightarrow> bool \<times> wait_queue" where
  "add_blocker b q =
     (case should_add_blocker q of (False, q) \<Rightarrow> (False, q) | (True, q) \<Rightarrow> (True, q\<lparr>m_blockers := m_blockers q @ [b]\<rparr>))"

fun remove_first_matching :: "('a \<Rightarrow> bool) \<Rightarrow> 'a list \<Rightarrow> 'a list" where
  "remove_first_matching p [] = []"
| "remove_first_matching p (x # xs) = (if p x then xs else x # remove_first_matching p xs)"

definition remove_blocker :: "nat \<Rightarrow> wait_queue \<Rightarrow> wait_queue" where
  "remove_blocker t q = q\<lparr>m_blockers := remove_first_matching (\<lambda>b. qb_thread b = t) (m_blockers q)\<rparr>"

text \<open>\<open>QueueBlocker::unblock\<close>: whether the blocker is unblocked by this call.\<close>

definition blocker_unblock :: "queue_blocker \<Rightarrow> bool" where
  "blocker_unblock b = (\<not> m_did_unblock b)"

text \<open>
  \<open>BlockCondition::do_unblock\<close> with the callbacks of the three operations, which unblock at most \<open>wake_count\<close>
  blockers: the blockers that stay, and the threads that are woken.
\<close>

fun do_unblock :: "nat option \<Rightarrow> queue_blocker list \<Rightarrow> queue_blocker list \<times> nat list" where
  "do_unblock wake_count [] = ([], [])"
| "do_unblock wake_count (b # bs) =
     (if wake_count = Some 0 then (b # bs, [])
      else if blocker_unblock b then
        (case do_unblock (map_option (\<lambda>n. n - 1) wake_count) bs of (left, woken) \<Rightarrow> (left, qb_thread b # woken))
      else
        (case do_unblock wake_count bs of (left, woken) \<Rightarrow> (b # left, woken)))"

definition unblock_and_note :: "nat option \<Rightarrow> wait_queue \<Rightarrow> nat list \<times> wait_queue" where
  "unblock_and_note wake_count q =
     (case do_unblock wake_count (m_blockers q) of (left, woken) \<Rightarrow>
        (woken, q\<lparr>m_blockers := left, m_wake_requested := (woken = [])\<rparr>))"

definition wake_one :: "wait_queue \<Rightarrow> nat list \<times> wait_queue" where
  "wake_one q = unblock_and_note (Some 1) q"

definition wake_n :: "nat \<Rightarrow> wait_queue \<Rightarrow> nat list \<times> wait_queue" where
  "wake_n wake_count q = (if wake_count = 0 then ([], q) else unblock_and_note (Some wake_count) q)"

definition wake_all :: "wait_queue \<Rightarrow> nat list \<times> wait_queue" where
  "wake_all q = unblock_and_note None q"

subsection \<open>The lock\<close>

datatype lock_mode = Unlocked | Shared | Exclusive

record lock =
  m_lock :: bool
  m_queue :: wait_queue
  m_mode :: lock_mode
  m_times_locked :: nat
  m_holder :: "nat option"
  m_shared_holders :: "(nat \<times> nat) list"

definition lock_new :: lock where
  "lock_new = \<lparr>m_lock = False, m_queue = wait_queue_new, m_mode = Unlocked, m_times_locked = 0, m_holder = None,
     m_shared_holders = []\<rparr>"

text \<open>
  What the operations do between \<open>m_lock.exchange(true)\<close> and \<open>m_lock.store(false)\<close>. \<open>lock\<close> either has the lock then or
  goes to wait.
\<close>

definition lock_section :: "nat \<Rightarrow> lock_mode \<Rightarrow> lock \<Rightarrow> (bool \<times> lock) result" where
  "lock_section current_thread mode l =
     (case m_mode l of
        Unlocked \<Rightarrow>
          and_then (verify (m_holder l = None)) (\<lambda>_.
          and_then (verify (m_shared_holders l = [])) (\<lambda>_.
          and_then
            (if mode = Exclusive then Inr (l\<lparr>m_mode := mode, m_holder := Some current_thread\<rparr>)
             else and_then (verify (mode = Shared)) (\<lambda>_. Inr (l\<lparr>m_mode := mode, m_shared_holders := [(current_thread, 1)]\<rparr>)))
            (\<lambda>l.
          and_then (verify (m_times_locked l = 0)) (\<lambda>_.
            Inr (True, l\<lparr>m_times_locked := usize (m_times_locked l + 1), m_queue := should_block True (m_queue l), m_lock := False\<rparr>)))))
      | Exclusive \<Rightarrow>
          and_then (verify (m_holder l \<noteq> None)) (\<lambda>_.
            if m_holder l \<noteq> Some current_thread then Inr (False, l\<lparr>m_lock := False\<rparr>)
            else
              and_then (verify (m_shared_holders l = [])) (\<lambda>_.
              and_then (verify (mode = Exclusive \<or> mode = Shared)) (\<lambda>_.
              and_then (verify (m_times_locked l > 0)) (\<lambda>_.
                Inr (True, l\<lparr>m_times_locked := usize (m_times_locked l + 1), m_lock := False\<rparr>)))))
      | Shared \<Rightarrow>
          and_then (verify (m_holder l = None)) (\<lambda>_.
            if mode \<noteq> Shared then Inr (False, l\<lparr>m_lock := False\<rparr>)
            else
              and_then (verify (m_times_locked l > 0)) (\<lambda>_.
              and_then (verify (m_shared_holders l \<noteq> [])) (\<lambda>_.
                Inr (True, l\<lparr>m_times_locked := usize (m_times_locked l + 1),
                  m_shared_holders := AList.update current_thread
                    (case map_of (m_shared_holders l) current_thread of Some v \<Rightarrow> usize (v + 1) | None \<Rightarrow> 1) (m_shared_holders l),
                  m_lock := False\<rparr>)))))"

text \<open>\<open>unlock\<close> releases one hold of the thread; the flag is \<open>unlocked_last\<close>.\<close>

definition unlock_section :: "nat \<Rightarrow> lock \<Rightarrow> (bool \<times> lock) result" where
  "unlock_section current_thread l =
     (let current_mode = m_mode l in
      and_then (verify (current_mode \<noteq> Unlocked)) (\<lambda>_.
      and_then (verify (m_times_locked l > 0)) (\<lambda>_.
      let l = l\<lparr>m_times_locked := m_times_locked l - 1\<rparr> in
      and_then
        (if current_mode = Exclusive then
           and_then (verify (m_holder l = Some current_thread)) (\<lambda>_.
           and_then (verify (m_shared_holders l = [])) (\<lambda>_.
             Inr (if m_times_locked l = 0 then l\<lparr>m_holder := None\<rparr> else l)))
         else
           and_then (verify (m_holder l = None)) (\<lambda>_.
             case map_of (m_shared_holders l) current_thread of
               None \<Rightarrow> Inl VerifyFailed
             | Some v \<Rightarrow>
                 if v > 1 then Inr (l\<lparr>m_shared_holders := AList.update current_thread (v - 1) (m_shared_holders l)\<rparr>)
                 else and_then (verify (v > 0)) (\<lambda>_. Inr (l\<lparr>m_shared_holders := AList.delete current_thread (m_shared_holders l)\<rparr>))))
        (\<lambda>l.
      let unlocked_last = (m_times_locked l = 0) in
      if unlocked_last then
        and_then (verify (if current_mode = Exclusive then m_holder l = None else m_shared_holders l = [])) (\<lambda>_.
          Inr (True, l\<lparr>m_mode := Unlocked, m_queue := should_block False (m_queue l), m_lock := False\<rparr>))
      else Inr (False, l\<lparr>m_lock := False\<rparr>)))))"

text \<open>
  \<open>force_unlock_if_locked\<close>: the mode it returns, the count to restore, and whether it goes on to \<open>wake_one\<close>, which it
  does not where it returns early.
\<close>

definition force_unlock_section :: "nat \<Rightarrow> lock \<Rightarrow> (lock_mode \<times> nat \<times> bool \<times> lock) result" where
  "force_unlock_section current_thread l =
     (case m_mode l of
        Exclusive \<Rightarrow>
          if m_holder l \<noteq> Some current_thread then Inr (Unlocked, 0, False, l\<lparr>m_lock := False\<rparr>)
          else
            and_then (verify (m_times_locked l > 0)) (\<lambda>_.
              Inr (Exclusive, m_times_locked l, True,
                l\<lparr>m_holder := None, m_times_locked := 0, m_mode := Unlocked, m_queue := should_block False (m_queue l), m_lock := False\<rparr>))
      | Shared \<Rightarrow>
          and_then (verify (m_holder l = None)) (\<lambda>_.
            case map_of (m_shared_holders l) current_thread of
              None \<Rightarrow> Inr (Unlocked, 0, False, l\<lparr>m_lock := False\<rparr>)
            | Some v \<Rightarrow>
                and_then (verify (v > 0)) (\<lambda>_.
                let l = l\<lparr>m_shared_holders := AList.delete current_thread (m_shared_holders l)\<rparr> in
                and_then (verify (m_times_locked l \<ge> v)) (\<lambda>_.
                let l = l\<lparr>m_times_locked := m_times_locked l - v\<rparr> in
                Inr (Shared, v, True,
                  (if m_times_locked l = 0 then l\<lparr>m_mode := Unlocked, m_queue := should_block False (m_queue l)\<rparr> else l)\<lparr>m_lock := False\<rparr>))))
      | Unlocked \<Rightarrow> Inr (Unlocked, 0, True, l\<lparr>m_lock := False\<rparr>))"

text \<open>\<open>restore_lock\<close>: whether the lock is taken again; where it is not, the caller yields and tries again.\<close>

definition restore_section :: "nat \<Rightarrow> lock_mode \<Rightarrow> nat \<Rightarrow> lock \<Rightarrow> (bool \<times> lock) result" where
  "restore_section current_thread mode lock_count l =
     (case mode of
        Exclusive \<Rightarrow>
          if m_mode l \<noteq> Unlocked then Inr (False, l\<lparr>m_lock := False\<rparr>)
          else
            and_then (verify (m_times_locked l = 0)) (\<lambda>_.
            and_then (verify (m_holder l = None)) (\<lambda>_.
            and_then (verify (m_shared_holders l = [])) (\<lambda>_.
              Inr (True, l\<lparr>m_mode := Exclusive, m_times_locked := lock_count, m_holder := Some current_thread,
                m_queue := should_block True (m_queue l), m_lock := False\<rparr>))))
      | Shared \<Rightarrow>
          let expected_mode = m_mode l in
          if expected_mode = Exclusive then Inr (False, l\<lparr>m_lock := False\<rparr>)
          else
            and_then (verify (expected_mode = Shared \<or> m_times_locked l = 0)) (\<lambda>_.
            and_then (verify (m_holder l = None)) (\<lambda>_.
            and_then (verify ((expected_mode = Unlocked) = (m_shared_holders l = []))) (\<lambda>_.
            and_then (verify (map_of (m_shared_holders l) current_thread = None)) (\<lambda>_.
              Inr (True, l\<lparr>m_mode := Shared, m_times_locked := usize (m_times_locked l + lock_count),
                m_shared_holders := AList.update current_thread lock_count (m_shared_holders l),
                m_queue := should_block True (m_queue l), m_lock := False\<rparr>)))))
      | Unlocked \<Rightarrow> Inl NotReached)"

definition clear_waiters :: "lock \<Rightarrow> (nat list \<times> lock) result" where
  "clear_waiters l =
     and_then (verify (m_mode l \<noteq> Shared)) (\<lambda>_.
       case wake_all (m_queue l) of (woken, q) \<Rightarrow> Inr (woken, l\<lparr>m_queue := q\<rparr>))"


subsection \<open>Holds\<close>

text \<open>How often a thread holds the lock.\<close>

definition holds :: "lock \<Rightarrow> nat \<Rightarrow> nat" where
  "holds l t =
     (case m_mode l of
        Unlocked \<Rightarrow> 0
      | Exclusive \<Rightarrow> if m_holder l = Some t then m_times_locked l else 0
      | Shared \<Rightarrow> (case map_of (m_shared_holders l) t of Some v \<Rightarrow> v | None \<Rightarrow> 0))"

definition lock_wf :: "lock \<Rightarrow> bool" where
  "lock_wf l \<longleftrightarrow> m_times_locked l < 2 ^ 32 \<and>
     (case m_mode l of
        Unlocked \<Rightarrow> m_times_locked l = 0 \<and> m_holder l = None \<and> m_shared_holders l = []
      | Exclusive \<Rightarrow> 0 < m_times_locked l \<and> m_holder l \<noteq> None \<and> m_shared_holders l = []
      | Shared \<Rightarrow> m_holder l = None \<and> m_shared_holders l \<noteq> [] \<and> distinct (map fst (m_shared_holders l))
          \<and> (\<forall>v \<in> snd ` set (m_shared_holders l). 0 < v) \<and> m_times_locked l = sum_list (map snd (m_shared_holders l)))"

definition count_of :: "(nat \<times> nat) list \<Rightarrow> nat \<Rightarrow> nat" where
  "count_of al t = (case map_of al t of Some v \<Rightarrow> v | None \<Rightarrow> 0)"

lemma count_of_update: "count_of (AList.update t v al) = (count_of al)(t := v)"
  by (auto simp: count_of_def update_conv' fun_eq_iff)

lemma count_of_delete: "count_of (AList.delete t al) = (count_of al)(t := 0)"
  by (auto simp: count_of_def delete_conv' fun_eq_iff)

lemma count_of_Nil: "count_of [] = (\<lambda>_. 0)"
  by (simp add: count_of_def fun_eq_iff)

lemma sum_update: "distinct (map fst al) \<Longrightarrow> sum_list (map snd (AList.update t v al)) + count_of al t = sum_list (map snd al) + v"
  by (induction al) (auto simp: count_of_def split: option.splits dest: map_of_SomeD)

lemma delete_fresh: "t \<notin> fst ` set al \<Longrightarrow> AList.delete t al = al"
  by (induction al) auto

lemma sum_delete: "distinct (map fst al) \<Longrightarrow> sum_list (map snd (AList.delete t al)) + count_of al t = sum_list (map snd al)"
  by (induction al) (auto simp: count_of_def delete_fresh split: option.splits)

lemma set_update: "snd ` set (AList.update t v al) \<subseteq> insert v (snd ` set al)"
  by (induction al) auto

lemma pos_update: "\<forall>v \<in> snd ` set al. 0 < v \<Longrightarrow> 0 < v \<Longrightarrow> \<forall>w \<in> snd ` set (AList.update t v al). 0 < (w::nat)"
proof
  fix w
  assume a: "\<forall>v \<in> snd ` set al. 0 < v" "0 < v" "w \<in> snd ` set (AList.update t v al)"
  then have "w = v \<or> w \<in> snd ` set al" using subsetD[OF set_update a(3)] by simp
  then show "0 < w" using a(1,2) by blast
qed

lemma set_delete: "snd ` set (AList.delete t al) \<subseteq> snd ` set al"
  by (induction al) auto

lemma update_not_Nil: "AList.update t v al \<noteq> []"
  by (cases al) auto

lemma sum_zero_Nil: "\<forall>v \<in> snd ` set al. 0 < v \<Longrightarrow> sum_list (map snd al) = (0::nat) \<longleftrightarrow> al = []"
  by (cases al) auto

lemma holds_simps:
  "m_mode l = Unlocked \<Longrightarrow> holds l = (\<lambda>_. 0)"
  "m_mode l = Exclusive \<Longrightarrow> holds l = (\<lambda>t. if m_holder l = Some t then m_times_locked l else 0)"
  "m_mode l = Shared \<Longrightarrow> holds l = count_of (m_shared_holders l)"
  by (auto simp: holds_def count_of_def fun_eq_iff)

lemma holds_frame [simp]: "holds (l\<lparr>m_lock := b\<rparr>) = holds l" "holds (l\<lparr>m_queue := q\<rparr>) = holds l"
  by (auto simp: holds_def fun_eq_iff split: lock_mode.splits)

lemma lock_wf_frame [simp]: "lock_wf (l\<lparr>m_lock := b\<rparr>) = lock_wf l" "lock_wf (l\<lparr>m_queue := q\<rparr>) = lock_wf l"
  by (auto simp: lock_wf_def split: lock_mode.splits)

lemma count_of_le: "count_of al t \<le> sum_list (map snd al)"
  by (induction al) (auto simp: count_of_def split: option.splits)

lemma holds_le: "lock_wf l \<Longrightarrow> holds l t \<le> m_times_locked l"
  using count_of_le[of "m_shared_holders l" t] by (cases "m_mode l") (auto simp: holds_simps lock_wf_def)

lemma lock_section_spec:
  assumes "lock_wf l" "mode \<noteq> Unlocked" "m_times_locked l + 1 < 2 ^ 32"
  obtains l' where "lock_section t mode l = Inr (True, l')" "lock_wf l'" "\<not> m_lock l'" "holds l' = (holds l)(t := holds l t + 1)"
      "m_mode l' \<noteq> Unlocked" "m_queue l' = (if m_mode l = Unlocked then should_block True (m_queue l) else m_queue l)"
      "m_mode l' = (if m_mode l = Unlocked then mode else m_mode l)" "m_mode l = Exclusive \<longrightarrow> 0 < holds l t" "m_mode l = Shared \<longrightarrow> mode = Shared"
  | "lock_section t mode l = Inr (False, l\<lparr>m_lock := False\<rparr>)" "m_mode l \<noteq> Unlocked"
proof (cases "m_mode l")
  case Unlocked
  let ?l = "if mode = Exclusive then l\<lparr>m_mode := mode, m_holder := Some t\<rparr> else l\<lparr>m_mode := mode, m_shared_holders := [(t, 1)]\<rparr>"
  let ?l' = "?l\<lparr>m_times_locked := 1, m_queue := should_block True (m_queue l), m_lock := False\<rparr>"
  have "mode = Exclusive \<or> mode = Shared" using assms(2) by (cases mode) auto
  then show ?thesis
    using assms Unlocked by (intro that(1)[of ?l']) (auto simp: lock_section_def lock_wf_def holds_def fun_eq_iff)
next
  case Exclusive
  then have h: "m_holder l \<noteq> None" "m_shared_holders l = []" "0 < m_times_locked l" using assms(1) by (auto simp: lock_wf_def)
  have m: "mode = Exclusive \<or> mode = Shared" using assms(2) by (cases mode) auto
  show ?thesis
  proof (cases "m_holder l = Some t")
    case True
    then show ?thesis using Exclusive h m assms
      by (intro that(1)[of "l\<lparr>m_times_locked := m_times_locked l + 1, m_lock := False\<rparr>"])
        (auto simp: lock_section_def lock_wf_def holds_simps fun_eq_iff)
  next
    case False
    then show ?thesis using Exclusive h by (intro that(2)) (auto simp: lock_section_def)
  qed
next
  case Shared
  let ?sh = "m_shared_holders l"
  have h: "m_holder l = None" "?sh \<noteq> []" "distinct (map fst ?sh)" "\<forall>v \<in> snd ` set ?sh. 0 < v" "m_times_locked l = sum_list (map snd ?sh)"
    using assms(1) Shared by (auto simp: lock_wf_def)
  have p: "0 < m_times_locked l" using h(2,5) sum_zero_Nil[OF h(4)] by (simp del: sum_list_eq_0_iff)
  show ?thesis
  proof (cases "mode = Shared")
    case True
    let ?c = "count_of ?sh t"
    have c: "(case map_of ?sh t of Some v \<Rightarrow> usize (v + 1) | None \<Rightarrow> 1) = ?c + 1"
      using count_of_le[of ?sh t] h(5) assms(3) by (auto simp: count_of_def split: option.splits)
    let ?l' = "l\<lparr>m_times_locked := m_times_locked l + 1, m_shared_holders := AList.update t (?c + 1) ?sh, m_lock := False\<rparr>"
    have "lock_section t mode l = Inr (True, ?l')" using True Shared h p c assms(3) by (simp add: lock_section_def)
    moreover have "lock_wf ?l'"
      using Shared h assms(3) sum_update[OF h(3), of t "?c + 1"] pos_update[OF h(4), of "?c + 1" t]
      by (simp add: lock_wf_def update_not_Nil distinct_update)
    ultimately show ?thesis using Shared True by (intro that(1)[of ?l']) (auto simp: holds_simps count_of_update)
  next
    case False
    then show ?thesis using Shared h by (intro that(2)) (auto simp: lock_section_def)
  qed
qed


lemma unlock_section_spec:
  assumes "lock_wf l" "0 < holds l t"
  obtains unlocked_last l' where "unlock_section t l = Inr (unlocked_last, l')" "lock_wf l'" "\<not> m_lock l'"
    "holds l' = (holds l)(t := holds l t - 1)" "unlocked_last = (m_mode l' = Unlocked)" "m_mode l' = Unlocked \<or> m_mode l' = m_mode l"
    "m_queue l' = (if unlocked_last then should_block False (m_queue l) else m_queue l)"
proof (cases "m_mode l")
  case Unlocked
  then show ?thesis using assms(2) by (simp add: holds_simps)
next
  case Exclusive
  then have h: "m_holder l = Some t" "m_shared_holders l = []" "0 < m_times_locked l"
    using assms by (auto simp: lock_wf_def holds_simps split: if_splits)
  let ?n = "m_times_locked l - 1"
  let ?l' = "if ?n = 0 then l\<lparr>m_times_locked := ?n, m_holder := None, m_mode := Unlocked, m_queue := should_block False (m_queue l), m_lock := False\<rparr>
    else l\<lparr>m_times_locked := ?n, m_lock := False\<rparr>"
  have "unlock_section t l = Inr (?n = 0, ?l')" using Exclusive h by (simp add: unlock_section_def Let_def)
  then show ?thesis using Exclusive h assms(1)
    by (intro that[of "?n = 0" ?l']) (auto simp: lock_wf_def holds_def fun_eq_iff split: if_splits)
next
  case Shared
  let ?sh = "m_shared_holders l" and ?c = "count_of (m_shared_holders l) t"
  have h: "m_holder l = None" "?sh \<noteq> []" "distinct (map fst ?sh)" "\<forall>v \<in> snd ` set ?sh. 0 < v" "m_times_locked l = sum_list (map snd ?sh)"
    "m_times_locked l < 2 ^ 32" using assms(1) Shared by (auto simp: lock_wf_def)
  have c: "map_of ?sh t = Some ?c" "0 < ?c" using assms(2) Shared by (auto simp: holds_simps count_of_def split: option.splits)
  have p: "0 < m_times_locked l" using count_of_le[of ?sh t] c h(5) by simp
  define sh where "sh = (if ?c > 1 then AList.update t (?c - 1) ?sh else AList.delete t ?sh)"
  have sum: "sum_list (map snd sh) + 1 = m_times_locked l"
    using sum_update[OF h(3), of t "?c - 1"] sum_delete[OF h(3), of t] c(2) h(5) by (auto simp: sh_def)
  have pos: "\<forall>v \<in> snd ` set sh. 0 < v"
    using pos_update[OF h(4), of "?c - 1" t] set_delete[of t ?sh] h(4) unfolding sh_def by (cases "?c > 1") (simp, fastforce)
  have cnt: "count_of sh = (count_of ?sh)(t := ?c - 1)" using c(2) by (auto simp: sh_def count_of_update count_of_delete)
  have ne: "sh = [] \<longleftrightarrow> m_times_locked l - 1 = 0" using sum_zero_Nil[OF pos] sum by linarith
  have d: "distinct (map fst sh)" using h(3) by (simp add: sh_def distinct_update distinct_delete)
  let ?n = "m_times_locked l - 1"
  let ?l' = "if ?n = 0 then l\<lparr>m_times_locked := ?n, m_shared_holders := sh, m_mode := Unlocked, m_queue := should_block False (m_queue l), m_lock := False\<rparr>
    else l\<lparr>m_times_locked := ?n, m_shared_holders := sh, m_lock := False\<rparr>"
  have "unlock_section t l = Inr (?n = 0, ?l')"
    using Shared h(1) c p ne unfolding sh_def by (cases "?c > 1") (auto simp: unlock_section_def Let_def update_not_Nil)
  moreover have "lock_wf ?l'" using Shared h(1,6) sum pos d ne by (auto simp: lock_wf_def)
  moreover have "holds ?l' = (holds l)(t := holds l t - 1)" using Shared cnt ne by (auto simp: holds_simps count_of_Nil)
  ultimately show ?thesis using Shared by (intro that[of "?n = 0" ?l']) (auto split: if_splits)
qed

lemma force_unlock_section_spec:
  assumes "lock_wf l"
  obtains m wakes l' where "force_unlock_section t l = Inr (m, holds l t, wakes, l')" "lock_wf l'" "\<not> m_lock l'"
    "holds l' = (holds l)(t := 0)" "m = (if holds l t = 0 then Unlocked else m_mode l)" "m_mode l' = Unlocked \<or> m_mode l' = m_mode l"
    "m_mode l' = Unlocked \<longrightarrow> wakes"
    "m_queue l' = (if m_mode l' = Unlocked \<and> m_mode l \<noteq> Unlocked then should_block False (m_queue l) else m_queue l)"
    "m_times_locked l' + holds l t = m_times_locked l"
proof (cases "m_mode l")
  case Unlocked
  then show ?thesis using assms
    by (intro that[of Unlocked True "l\<lparr>m_lock := False\<rparr>"]) (auto simp: force_unlock_section_def holds_simps lock_wf_def)
next
  case Exclusive
  then have h: "m_holder l \<noteq> None" "m_shared_holders l = []" "0 < m_times_locked l" using assms by (auto simp: lock_wf_def)
  show ?thesis
  proof (cases "m_holder l = Some t")
    case True
    let ?l' = "l\<lparr>m_holder := None, m_times_locked := 0, m_mode := Unlocked, m_queue := should_block False (m_queue l), m_lock := False\<rparr>"
    show ?thesis using True Exclusive h assms
      by (intro that[of Exclusive True ?l']) (auto simp: force_unlock_section_def holds_simps lock_wf_def)
  next
    case False
    then show ?thesis using Exclusive h assms
      by (intro that[of Unlocked False "l\<lparr>m_lock := False\<rparr>"]) (auto simp: force_unlock_section_def holds_simps lock_wf_def)
  qed
next
  case Shared
  let ?sh = "m_shared_holders l" and ?c = "count_of (m_shared_holders l) t"
  have h: "m_holder l = None" "?sh \<noteq> []" "distinct (map fst ?sh)" "\<forall>v \<in> snd ` set ?sh. 0 < v" "m_times_locked l = sum_list (map snd ?sh)"
    "m_times_locked l < 2 ^ 32" using assms(1) Shared by (auto simp: lock_wf_def)
  show ?thesis
  proof (cases "map_of ?sh t")
    case None
    then have "?c = 0" by (simp add: count_of_def)
    then show ?thesis using None Shared h(1) assms
      by (intro that[of Unlocked False "l\<lparr>m_lock := False\<rparr>"]) (auto simp: force_unlock_section_def holds_simps lock_wf_def)
  next
    case (Some v)
    then have v: "v = ?c" "0 < v" using h(4) map_of_SomeD[OF Some] by (force simp: count_of_def)+
    let ?d = "AList.delete t ?sh"
    have sum: "sum_list (map snd ?d) + v = m_times_locked l" using sum_delete[OF h(3), of t] v h(5) by simp
    have pos: "\<forall>w \<in> snd ` set ?d. 0 < w" using set_delete[of t ?sh] h(4) by blast
    have ne: "?d = [] \<longleftrightarrow> m_times_locked l - v = 0" using sum_zero_Nil[OF pos] sum by linarith
    let ?l1 = "l\<lparr>m_shared_holders := ?d, m_times_locked := m_times_locked l - v\<rparr>"
    let ?l' = "(if m_times_locked l - v = 0 then ?l1\<lparr>m_mode := Unlocked, m_queue := should_block False (m_queue l)\<rparr> else ?l1)\<lparr>m_lock := False\<rparr>"
    have "force_unlock_section t l = Inr (Shared, v, True, ?l')"
      using Some Shared h(1) v sum by (simp add: force_unlock_section_def Let_def)
    moreover have "lock_wf ?l'" using Shared h(1,6) sum pos ne distinct_delete[OF h(3)] by (auto simp: lock_wf_def)
    moreover have "holds ?l' = (holds l)(t := 0)" using Shared ne by (auto simp: holds_simps count_of_Nil count_of_delete[symmetric])
    ultimately show ?thesis using Shared v sum by (intro that[of Shared True ?l']) (auto simp: holds_simps)
  qed
qed

lemma restore_section_spec:
  assumes "lock_wf l" "mode \<noteq> Unlocked" "0 < c" "m_times_locked l + c < 2 ^ 32" "holds l t = 0"
  obtains l' where "restore_section t mode c l = Inr (True, l')" "lock_wf l'" "\<not> m_lock l'" "holds l' = (holds l)(t := c)"
      "m_mode l' = mode" "m_queue l' = should_block True (m_queue l)" "m_mode l = Unlocked \<or> m_mode l = Shared \<and> mode = Shared"
  | "restore_section t mode c l = Inr (False, l\<lparr>m_lock := False\<rparr>)" "m_mode l \<noteq> Unlocked"
proof (cases mode)
  case Unlocked
  then show ?thesis using assms(2) by simp
next
  case Exclusive
  show ?thesis
  proof (cases "m_mode l = Unlocked")
    case True
    then show ?thesis using Exclusive assms
      by (intro that(1)[of "l\<lparr>m_mode := Exclusive, m_times_locked := c, m_holder := Some t, m_queue := should_block True (m_queue l), m_lock := False\<rparr>"])
        (auto simp: restore_section_def lock_wf_def holds_def fun_eq_iff)
  next
    case False
    then show ?thesis using Exclusive by (intro that(2)) (auto simp: restore_section_def)
  qed
next
  case Shared
  show ?thesis
  proof (cases "m_mode l = Exclusive")
    case True
    then show ?thesis using Shared by (intro that(2)) (auto simp: restore_section_def)
  next
    case False
    let ?sh = "m_shared_holders l"
    have h: "m_holder l = None" "distinct (map fst ?sh)" "\<forall>v \<in> snd ` set ?sh. 0 < v" "m_times_locked l = sum_list (map snd ?sh)"
      "(m_mode l = Unlocked) = (?sh = [])" "holds l = count_of ?sh"
      using assms(1) False by (cases "m_mode l"; auto simp: lock_wf_def holds_simps count_of_Nil)+
    have z: "map_of ?sh t = None" "count_of ?sh t = 0"
      using assms(5) h(3,6) map_of_SomeD[of ?sh t] by (force simp: count_of_def split: option.splits)+
    let ?l' = "l\<lparr>m_mode := Shared, m_times_locked := m_times_locked l + c, m_shared_holders := AList.update t c ?sh,
      m_queue := should_block True (m_queue l), m_lock := False\<rparr>"
    have t0: "m_mode l = Shared \<or> m_times_locked l = 0" using False h(4,5) by (cases "m_mode l") auto
    have "restore_section t mode c l = Inr (True, ?l')"
      using Shared False h(1,5) z(1) t0 assms(4) by (simp add: restore_section_def Let_def)
    moreover have "lock_wf ?l'"
      using h(1) assms(3,4) sum_update[OF h(2), of t c] pos_update[OF h(3), of c t] h(4) z(2)
      by (simp add: lock_wf_def update_not_Nil distinct_update h(2))
    moreover have "holds ?l' = (holds l)(t := c)" by (simp add: holds_simps(3) count_of_update h(6))
    ultimately show ?thesis using Shared False by (intro that(1)[of ?l']) (auto intro: lock_mode.exhaust)
  qed
qed


subsection \<open>Threads\<close>

text \<open>
  Where a thread is in an operation. \<open>Locking\<close>, \<open>Unlocking\<close>, \<open>ForceUnlocking\<close> and \<open>Restoring\<close> are before the exchange of
  \<open>m_lock\<close>, the states named \<open>In\<dots>\<close> between the exchange and the store. \<open>Waiting\<close> is before \<open>m_queue.wait_forever\<close>,
  \<open>Blocked\<close> within it; \<open>Waking\<close> and \<open>ForceWaking\<close> are before \<open>m_queue.wake_one\<close>. \<open>Released\<close> is a thread that has given
  up the lock by force and owes itself a \<open>restore_lock\<close>.
\<close>

datatype lock_pc =
    Running
  | Locking lock_mode
  | InLock lock_mode
  | Waiting lock_mode
  | Blocked lock_mode
  | Unlocking
  | InUnlock
  | Waking
  | ForceUnlocking
  | InForce
  | ForceWaking lock_mode nat
  | Released lock_mode nat
  | Restoring lock_mode nat
  | InRestore lock_mode nat

text \<open>
  What the callers of the lock have seen is kept beside it: how often a thread was granted the lock by calls that have
  returned, less the releases; whether it was granted exclusive use; and what it had when it last gave the lock up by
  force. No operation of the lock reads these.
\<close>

record lock_system =
  sys_lock :: lock
  sys_pc :: "nat \<Rightarrow> lock_pc"
  sys_granted :: "nat \<Rightarrow> nat"
  sys_exclusive :: "nat \<Rightarrow> bool"
  sys_saved :: "nat \<Rightarrow> nat \<times> bool"

definition lock_system_new :: lock_system where
  "lock_system_new = \<lparr>sys_lock = lock_new, sys_pc = (\<lambda>_. Running), sys_granted = (\<lambda>_. 0), sys_exclusive = (\<lambda>_. False), sys_saved = (\<lambda>_. (0, False))\<rparr>"

text \<open>A call of \<open>lock\<close>, of \<open>unlock\<close>, of \<open>force_unlock_if_locked\<close> and of \<open>restore_lock\<close> has taken effect for the thread.\<close>

definition grant :: "nat \<Rightarrow> lock_mode \<Rightarrow> lock_system \<Rightarrow> lock_system" where
  "grant t mode s = s\<lparr>sys_granted := (sys_granted s)(t := sys_granted s t + 1), sys_exclusive := (sys_exclusive s)(t := sys_exclusive s t \<or> mode = Exclusive)\<rparr>"

definition ungrant :: "nat \<Rightarrow> lock_system \<Rightarrow> lock_system" where
  "ungrant t s = s\<lparr>sys_granted := (sys_granted s)(t := sys_granted s t - 1), sys_exclusive := (sys_exclusive s)(t := sys_exclusive s t \<and> sys_granted s t > 1)\<rparr>"

definition give_up :: "nat \<Rightarrow> lock_system \<Rightarrow> lock_system" where
  "give_up t s = s\<lparr>sys_saved := (sys_saved s)(t := (sys_granted s t, sys_exclusive s t)), sys_granted := (sys_granted s)(t := 0), sys_exclusive := (sys_exclusive s)(t := False)\<rparr>"

definition regain :: "nat \<Rightarrow> lock_system \<Rightarrow> lock_system" where
  "regain t s = s\<lparr>sys_granted := (sys_granted s)(t := fst (sys_saved s t)), sys_exclusive := (sys_exclusive s)(t := snd (sys_saved s t))\<rparr>"

fun resume :: "lock_pc \<Rightarrow> lock_pc" where
  "resume (Blocked mode) = Locking mode"
| "resume pc = pc"

definition wake :: "nat list \<Rightarrow> (nat \<Rightarrow> lock_pc) \<Rightarrow> nat \<Rightarrow> lock_pc" where
  "wake woken pc t = (if t \<in> set woken then resume (pc t) else pc t)"

abbreviation enter :: "lock_system \<Rightarrow> nat \<Rightarrow> lock_pc \<Rightarrow> lock_system" where
  "enter s t pc \<equiv> s\<lparr>sys_lock := (sys_lock s)\<lparr>m_lock := True\<rparr>, sys_pc := (sys_pc s)(t := pc)\<rparr>"

abbreviation leave :: "lock_system \<Rightarrow> nat \<Rightarrow> lock \<Rightarrow> lock_pc \<Rightarrow> lock_system" where
  "leave s t l pc \<equiv> s\<lparr>sys_lock := l, sys_pc := (sys_pc s)(t := pc)\<rparr>"

abbreviation queue_step :: "lock_system \<Rightarrow> wait_queue \<Rightarrow> (nat \<Rightarrow> lock_pc) \<Rightarrow> lock_system" where
  "queue_step s q pc \<equiv> s\<lparr>sys_lock := (sys_lock s)\<lparr>m_queue := q\<rparr>, sys_pc := pc\<rparr>"

text \<open>
  A step of a thread inside an operation. A thread that finds \<open>m_lock\<close> taken yields, which changes nothing. The number of
  holds stays below \<open>2\<^sup>3\<^sup>2\<close>.
\<close>

inductive inner_step :: "lock_system \<Rightarrow> lock_system \<Rightarrow> bool" where
  exchange: "sys_pc s t = Locking mode \<Longrightarrow> \<not> m_lock (sys_lock s) \<Longrightarrow> inner_step s (enter s t (InLock mode))"
| acquire: "sys_pc s t = InLock mode \<Longrightarrow> m_times_locked (sys_lock s) + 1 < 2 ^ 32
     \<Longrightarrow> lock_section t mode (sys_lock s) = Inr (acquired, l)
     \<Longrightarrow> inner_step s (if acquired then grant t mode (leave s t l Running) else leave s t l (Waiting mode))"
| wait: "sys_pc s t = Waiting mode \<Longrightarrow> add_blocker \<lparr>qb_thread = t, m_did_unblock = False\<rparr> (m_queue (sys_lock s)) = (added, q)
     \<Longrightarrow> inner_step s (queue_step s q ((sys_pc s)(t := if added then Blocked mode else Locking mode)))"
| exchange_unlock: "sys_pc s t = Unlocking \<Longrightarrow> \<not> m_lock (sys_lock s) \<Longrightarrow> inner_step s (enter s t InUnlock)"
| unlock: "sys_pc s t = InUnlock \<Longrightarrow> unlock_section t (sys_lock s) = Inr (unlocked_last, l)
     \<Longrightarrow> inner_step s (ungrant t (leave s t l (if unlocked_last then Waking else Running)))"
| wake_waiter: "sys_pc s t = Waking \<Longrightarrow> wake_one (m_queue (sys_lock s)) = (woken, q)
     \<Longrightarrow> inner_step s (queue_step s q (wake woken ((sys_pc s)(t := Running))))"
| exchange_force: "sys_pc s t = ForceUnlocking \<Longrightarrow> \<not> m_lock (sys_lock s) \<Longrightarrow> inner_step s (enter s t InForce)"
| force_unlock: "sys_pc s t = InForce \<Longrightarrow> force_unlock_section t (sys_lock s) = Inr (mode, count, wakes, l)
     \<Longrightarrow> inner_step s (give_up t (leave s t l (if wakes then ForceWaking mode count else Released mode count)))"
| force_wake: "sys_pc s t = ForceWaking mode count \<Longrightarrow> wake_one (m_queue (sys_lock s)) = (woken, q)
     \<Longrightarrow> inner_step s (queue_step s q (wake woken ((sys_pc s)(t := Released mode count))))"
| exchange_restore: "sys_pc s t = Restoring mode count \<Longrightarrow> \<not> m_lock (sys_lock s) \<Longrightarrow> inner_step s (enter s t (InRestore mode count))"
| restore: "sys_pc s t = InRestore mode count \<Longrightarrow> m_times_locked (sys_lock s) + count < 2 ^ 32
     \<Longrightarrow> restore_section t mode count (sys_lock s) = Inr (restored, l)
     \<Longrightarrow> inner_step s (if restored then regain t (leave s t l Running) else leave s t l (Restoring mode count))"

text \<open>
  A step from outside: a thread calls an operation, or a signal ends the wait of a blocked thread. A thread unlocks only
  what it was granted, and restores what it gave up.
\<close>

inductive outer_step :: "lock_system \<Rightarrow> lock_system \<Rightarrow> bool" where
  request: "sys_pc s t = Running \<Longrightarrow> mode \<noteq> Unlocked \<Longrightarrow> outer_step s (s\<lparr>sys_pc := (sys_pc s)(t := Locking mode)\<rparr>)"
| release: "sys_pc s t = Running \<Longrightarrow> 0 < sys_granted s t \<Longrightarrow> outer_step s (s\<lparr>sys_pc := (sys_pc s)(t := Unlocking)\<rparr>)"
| force: "sys_pc s t = Running \<Longrightarrow> outer_step s (s\<lparr>sys_pc := (sys_pc s)(t := ForceUnlocking)\<rparr>)"
| reclaim: "sys_pc s t = Released mode count
     \<Longrightarrow> outer_step s (s\<lparr>sys_pc := (sys_pc s)(t := if mode = Unlocked then Running else Restoring mode count)\<rparr>)"
| interrupt: "sys_pc s t = Blocked mode
     \<Longrightarrow> outer_step s (queue_step s (remove_blocker t (m_queue (sys_lock s))) ((sys_pc s)(t := Locking mode)))"

definition lock_step :: "lock_system \<Rightarrow> lock_system \<Rightarrow> bool" where
  "lock_step s s' \<longleftrightarrow> inner_step s s' \<or> outer_step s s'"

inductive lock_reach :: "lock_system \<Rightarrow> bool" where
  start: "lock_reach lock_system_new"
| next_step: "lock_reach s \<Longrightarrow> lock_step s s' \<Longrightarrow> lock_reach s'"

subsection \<open>The invariant\<close>

fun in_section :: "lock_pc \<Rightarrow> bool" where
  "in_section (InLock mode) = True"
| "in_section InUnlock = True"
| "in_section InForce = True"
| "in_section (InRestore mode count) = True"
| "in_section pc = False"

fun is_blocked :: "lock_pc \<Rightarrow> bool" where
  "is_blocked (Blocked mode) = True"
| "is_blocked pc = False"

fun is_waiting :: "lock_pc \<Rightarrow> bool" where
  "is_waiting (Waiting mode) = True"
| "is_waiting pc = False"

text \<open>A thread that will come to see that the lock is free, or tell another one.\<close>

fun is_active :: "lock_pc \<Rightarrow> bool" where
  "is_active (Locking mode) = True"
| "is_active (InLock mode) = True"
| "is_active (Waiting mode) = True"
| "is_active Waking = True"
| "is_active (ForceWaking mode count) = True"
| "is_active pc = False"

text \<open>What a thread's place says of its holds and of the arguments it goes on with.\<close>

fun pc_ok :: "nat \<Rightarrow> lock_pc \<Rightarrow> bool" where
  "pc_ok h (Locking mode) = (mode \<noteq> Unlocked)"
| "pc_ok h (InLock mode) = (mode \<noteq> Unlocked)"
| "pc_ok h (Waiting mode) = (mode \<noteq> Unlocked)"
| "pc_ok h (Blocked mode) = (mode \<noteq> Unlocked)"
| "pc_ok h Unlocking = (0 < h)"
| "pc_ok h InUnlock = (0 < h)"
| "pc_ok h (ForceWaking mode count) = (if mode = Unlocked then True else 0 < count \<and> count < 2 ^ 32 \<and> h = 0)"
| "pc_ok h (Released mode count) = (if mode = Unlocked then True else 0 < count \<and> count < 2 ^ 32 \<and> h = 0)"
| "pc_ok h (Restoring mode count) = (mode \<noteq> Unlocked \<and> 0 < count \<and> count < 2 ^ 32 \<and> h = 0)"
| "pc_ok h (InRestore mode count) = (mode \<noteq> Unlocked \<and> 0 < count \<and> count < 2 ^ 32 \<and> h = 0)"
| "pc_ok h pc = True"

definition spin_ok :: "bool \<Rightarrow> (nat \<Rightarrow> lock_pc) \<Rightarrow> bool" where
  "spin_ok taken pc \<longleftrightarrow> (if taken then (\<exists>t. \<forall>u. in_section (pc u) = (u = t)) else (\<forall>u. \<not> in_section (pc u)))"

definition blocked :: "(nat \<Rightarrow> lock_pc) \<Rightarrow> nat set" where
  "blocked pc = {t. is_blocked (pc t)}"

lemma blocked_upd: "blocked (pc(t := p)) = (if is_blocked p then insert t (blocked pc) else blocked pc - {t})"
  by (auto simp: blocked_def)

definition queue_ok :: "wait_queue \<Rightarrow> (nat \<Rightarrow> lock_pc) \<Rightarrow> bool" where
  "queue_ok q pc \<longleftrightarrow> distinct (map qb_thread (m_blockers q)) \<and> (\<forall>b \<in> set (m_blockers q). \<not> m_did_unblock b)
     \<and> qb_thread ` set (m_blockers q) = blocked pc"

definition nobody_waits :: "(nat \<Rightarrow> lock_pc) \<Rightarrow> bool" where
  "nobody_waits pc \<longleftrightarrow> (\<forall>t. \<not> is_blocked (pc t) \<and> \<not> is_waiting (pc t))"

definition cared_for :: "(nat \<Rightarrow> lock_pc) \<Rightarrow> bool" where
  "cared_for pc \<longleftrightarrow> ((\<exists>t. is_blocked (pc t)) \<longrightarrow> (\<exists>t. is_active (pc t)))"

definition wakeup_ok :: "lock \<Rightarrow> (nat \<Rightarrow> lock_pc) \<Rightarrow> bool" where
  "wakeup_ok l pc \<longleftrightarrow> (m_mode l = Unlocked \<longrightarrow> (\<not> m_should_block (m_queue l) \<or> nobody_waits pc) \<and> cared_for pc)"

definition lock_inv :: "lock_system \<Rightarrow> bool" where
  "lock_inv s \<longleftrightarrow> lock_wf (sys_lock s) \<and> spin_ok (m_lock (sys_lock s)) (sys_pc s) \<and> (\<forall>t. pc_ok (holds (sys_lock s) t) (sys_pc s t))
     \<and> queue_ok (m_queue (sys_lock s)) (sys_pc s) \<and> wakeup_ok (sys_lock s) (sys_pc s)"

text \<open>What the callers have seen is not part of this invariant.\<close>

lemma lock_inv_seen [simp]: "lock_inv (grant t mode s) = lock_inv s" "lock_inv (ungrant t s) = lock_inv s" "lock_inv (give_up t s) = lock_inv s" "lock_inv (regain t s) = lock_inv s"
  by (simp_all add: lock_inv_def grant_def ungrant_def give_up_def regain_def)

lemma lock_inv_new: "lock_inv lock_system_new"
  by (simp add: lock_inv_def lock_system_new_def lock_new_def lock_wf_def spin_ok_def queue_ok_def blocked_def wakeup_ok_def nobody_waits_def cared_for_def wait_queue_new_def)


lemma spin_ok_cong: "spin_ok taken pc \<Longrightarrow> \<forall>u. in_section (pc' u) = in_section (pc u) \<Longrightarrow> spin_ok taken pc'"
  by (simp add: spin_ok_def)

lemma spin_ok_enter: "spin_ok False pc \<Longrightarrow> in_section p \<Longrightarrow> spin_ok True (pc(t := p))"
  by (auto simp: spin_ok_def intro: exI[of _ t])

lemma spin_ok_leave: "spin_ok taken pc \<Longrightarrow> in_section (pc t) \<Longrightarrow> \<not> in_section p \<Longrightarrow> spin_ok False (pc(t := p))"
  unfolding spin_ok_def by (cases taken) auto

lemma nobody_waits_upd: "nobody_waits pc \<Longrightarrow> \<not> is_blocked p \<Longrightarrow> \<not> is_waiting p \<Longrightarrow> nobody_waits (pc(t := p))"
  by (simp add: nobody_waits_def)

lemma cared_for_upd: "cared_for pc \<Longrightarrow> \<not> is_blocked p \<Longrightarrow> (is_active (pc t) \<longrightarrow> is_active p) \<Longrightarrow> cared_for (pc(t := p))"
  unfolding cared_for_def by (metis fun_upd_apply)

lemma cared_for_active: "is_active (pc t) \<Longrightarrow> cared_for pc"
  by (auto simp: cared_for_def)

lemma wakeup_upd:
  "wakeup_ok l pc \<Longrightarrow> \<not> is_blocked p \<Longrightarrow> \<not> is_waiting p \<Longrightarrow> (is_active (pc t) \<longrightarrow> is_active p) \<Longrightarrow> wakeup_ok l (pc(t := p))"
  unfolding wakeup_ok_def using nobody_waits_upd[of pc p t] cared_for_upd[of pc p t] by blast

lemma pc_step_inv:
  assumes "lock_inv s" "\<not> in_section (sys_pc s t)" "\<not> is_blocked (sys_pc s t)" "\<not> is_active (sys_pc s t)"
    and "\<not> in_section pc" "\<not> is_blocked pc" "\<not> is_waiting pc" "pc_ok (holds (sys_lock s) t) pc"
  shows "lock_inv (s\<lparr>sys_pc := (sys_pc s)(t := pc)\<rparr>)"
proof -
  have "spin_ok (m_lock (sys_lock s)) ((sys_pc s)(t := pc))"
    by (rule spin_ok_cong[of _ "sys_pc s"]) (use assms(1,2,5) in \<open>simp_all add: lock_inv_def\<close>)
  moreover have "queue_ok (m_queue (sys_lock s)) ((sys_pc s)(t := pc))"
    using assms(1,3,6) by (auto simp: lock_inv_def queue_ok_def blocked_upd) (auto simp: blocked_def)
  moreover have "wakeup_ok (sys_lock s) ((sys_pc s)(t := pc))"
    by (rule wakeup_upd) (use assms(1,4,6,7) in \<open>simp_all add: lock_inv_def\<close>)
  ultimately show ?thesis using assms(1,8) by (auto simp: lock_inv_def)
qed

lemma enter_inv:
  assumes "lock_inv s" "\<not> m_lock (sys_lock s)" "\<not> is_blocked (sys_pc s t)" "is_active (sys_pc s t) \<longrightarrow> is_active pc"
    and "in_section pc" "pc_ok (holds (sys_lock s) t) pc"
  shows "lock_inv (enter s t pc)"
proof -
  let ?s = "enter s t pc"
  have n: "\<not> is_blocked pc" "\<not> is_waiting pc" using assms(5) by (cases pc; simp)+
  have "spin_ok True (sys_pc ?s)" using assms(1,2,5) by (simp add: lock_inv_def spin_ok_enter)
  moreover have "queue_ok (m_queue (sys_lock s)) (sys_pc ?s)" using assms(1,3) n(1) by (auto simp: lock_inv_def queue_ok_def blocked_upd) (auto simp: blocked_def)
  moreover have "wakeup_ok (sys_lock s) (sys_pc ?s)" using assms(1,4) n by (simp add: lock_inv_def wakeup_upd)
  then have "wakeup_ok (sys_lock ?s) (sys_pc ?s)" by (simp add: wakeup_ok_def)
  ultimately show ?thesis using assms(1,6) by (simp add: lock_inv_def)
qed

lemma leave_inv:
  assumes "lock_inv s" "in_section (sys_pc s t)" "\<not> in_section pc" "\<not> is_blocked pc"
    and l: "lock_wf l" "\<not> m_lock l" "\<forall>u. u \<noteq> t \<longrightarrow> holds l u = holds (sys_lock s) u" "pc_ok (holds l t) pc"
      "m_blockers (m_queue l) = m_blockers (m_queue (sys_lock s))"
    and w: "m_mode l = Unlocked \<Longrightarrow> \<not> is_waiting pc \<and>
      (if m_mode (sys_lock s) = Unlocked
       then m_should_block (m_queue l) = m_should_block (m_queue (sys_lock s)) \<and> (is_active (sys_pc s t) \<longrightarrow> is_active pc)
       else \<not> m_should_block (m_queue l) \<and> is_active pc)"
  shows "lock_inv (leave s t l pc)"
proof -
  let ?s = "leave s t l pc"
  have nb: "\<not> is_blocked (sys_pc s t)" using assms(2) by (cases "sys_pc s t") auto
  have "spin_ok (m_lock (sys_lock s)) (sys_pc s)" using assms(1) by (simp add: lock_inv_def)
  then have "spin_ok (m_lock l) (sys_pc ?s)" using spin_ok_leave[of _ "sys_pc s" t pc] assms(2,3) l(2) by simp
  moreover have "queue_ok (m_queue l) (sys_pc ?s)" using assms(1,4) nb l(5) by (auto simp: lock_inv_def queue_ok_def blocked_upd) (auto simp: blocked_def)
  moreover have "\<forall>u. pc_ok (holds l u) (sys_pc ?s u)" using assms(1) l(3,4) by (auto simp: lock_inv_def)
  moreover have "wakeup_ok l (sys_pc ?s)"
  proof (cases "m_mode l = Unlocked")
    case True
    then have w': "\<not> is_waiting pc" "if m_mode (sys_lock s) = Unlocked
       then m_should_block (m_queue l) = m_should_block (m_queue (sys_lock s)) \<and> (is_active (sys_pc s t) \<longrightarrow> is_active pc)
       else \<not> m_should_block (m_queue l) \<and> is_active pc" using w by auto
    show ?thesis
    proof (cases "m_mode (sys_lock s) = Unlocked")
      case u: True
      have "wakeup_ok (sys_lock s) (sys_pc s)" using assms(1) by (simp add: lock_inv_def)
      then have "wakeup_ok (sys_lock s) ((sys_pc s)(t := pc))" by (rule wakeup_upd) (use w' u assms(4) in simp_all)
      then show ?thesis using True u w' by (simp add: wakeup_ok_def)
    next
      case False
      then show ?thesis using w' cared_for_active[of "(sys_pc s)(t := pc)" t] by (simp add: wakeup_ok_def)
    qed
  qed (simp add: wakeup_ok_def)
  ultimately show ?thesis using l(1) by (simp add: lock_inv_def)
qed

lemma add_blocker_cases:
  "add_blocker b q = (if m_wake_requested q \<or> \<not> m_should_block q then (False, q\<lparr>m_wake_requested := False\<rparr>)
     else (True, q\<lparr>m_blockers := m_blockers q @ [b]\<rparr>))"
  by (simp add: add_blocker_def should_add_blocker_def)

lemma do_unblock_none [simp]: "do_unblock (Some 0) bs = (bs, [])"
  by (cases bs) auto

lemma wake_one_cases:
  assumes "\<forall>b \<in> set (m_blockers q). \<not> m_did_unblock b"
  shows "wake_one q = (case m_blockers q of [] \<Rightarrow> ([], q\<lparr>m_wake_requested := True\<rparr>)
     | b # bs \<Rightarrow> ([qb_thread b], q\<lparr>m_blockers := bs, m_wake_requested := False\<rparr>))"
  using assms by (cases "m_blockers q") (auto simp: wake_one_def unblock_and_note_def blocker_unblock_def)

lemma remove_first_thread:
  "distinct (map f xs) \<Longrightarrow> remove_first_matching (\<lambda>x. f x = t) xs = filter (\<lambda>x. f x \<noteq> t) xs"
proof (induction xs)
  case (Cons x xs)
  have "filter (\<lambda>y. f y \<noteq> t) xs = xs" if "f x = t"
  proof (rule filter_True)
    show "\<forall>y \<in> set xs. f y \<noteq> t" using Cons.prems that by (metis distinct.simps(2) image_eqI list.set_map list.simps(9))
  qed
  then show ?case using Cons by auto
qed simp

text \<open>A step of the queue: the lock's own fields stay as they are.\<close>

lemma queue_step_inv:
  assumes i: "lock_inv s" and q: "queue_ok q pc" "m_should_block q = m_should_block (m_queue (sys_lock s))"
    and sec: "\<forall>u. in_section (pc u) = in_section (sys_pc s u)" and ok: "\<forall>u. pc_ok (holds (sys_lock s) u) (pc u)"
    and w: "m_mode (sys_lock s) = Unlocked \<Longrightarrow> cared_for pc"
    and b: "m_mode (sys_lock s) = Unlocked \<Longrightarrow> m_should_block q \<Longrightarrow> nobody_waits pc"
  shows "lock_inv (queue_step s q pc)"
proof -
  have "spin_ok (m_lock (sys_lock s)) pc" by (rule spin_ok_cong[of _ "sys_pc s"]) (use i sec in \<open>simp_all add: lock_inv_def\<close>)
  moreover have "wakeup_ok ((sys_lock s)\<lparr>m_queue := q\<rparr>) pc" using w b by (auto simp: wakeup_ok_def)
  ultimately show ?thesis using i q(1) ok by (simp add: lock_inv_def)
qed

lemma wait_inv:
  assumes i: "lock_inv s" and t: "sys_pc s t = Waiting mode"
    and a: "add_blocker \<lparr>qb_thread = t, m_did_unblock = False\<rparr> (m_queue (sys_lock s)) = (added, q)"
  shows "lock_inv (queue_step s q ((sys_pc s)(t := if added then Blocked mode else Locking mode)))"
proof (rule queue_step_inv[OF i])
  let ?q = "m_queue (sys_lock s)" and ?pc = "(sys_pc s)(t := if added then Blocked mode else Locking mode)"
  have m: "mode \<noteq> Unlocked" using i t unfolding lock_inv_def by (metis pc_ok.simps(3))
  have qo: "queue_ok ?q (sys_pc s)" using i by (simp add: lock_inv_def)
  have nt: "t \<notin> blocked (sys_pc s)" using t by (simp add: blocked_def)
  show "queue_ok q ?pc"
  proof (cases "m_wake_requested ?q \<or> \<not> m_should_block ?q")
    case True
    then show ?thesis using a qo nt by (auto simp: add_blocker_cases queue_ok_def blocked_upd)
  next
    case False
    have "t \<notin> qb_thread ` set (m_blockers ?q)" using qo nt by (simp add: queue_ok_def)
    moreover have "added" "q = ?q\<lparr>m_blockers := m_blockers ?q @ [\<lparr>qb_thread = t, m_did_unblock = False\<rparr>]\<rparr>"
      using False a by (simp_all add: add_blocker_cases)
    ultimately show ?thesis using qo by (simp add: queue_ok_def blocked_upd)
  qed
  show "m_should_block q = m_should_block ?q" using a by (auto simp: add_blocker_cases split: if_splits)
  show "\<forall>u. in_section (?pc u) = in_section (sys_pc s u)" using t by simp
  show "\<forall>u. pc_ok (holds (sys_lock s) u) (?pc u)" using i m by (simp add: lock_inv_def)
  assume u: "m_mode (sys_lock s) = Unlocked"
  then have "\<not> m_should_block ?q" using i t unfolding lock_inv_def wakeup_ok_def nobody_waits_def by (metis is_waiting.simps(1))
  then have nq: "\<not> added" "\<not> m_should_block q" using a by (auto simp: add_blocker_cases split: if_splits)
  then show "cared_for ?pc" by (intro cared_for_active[of _ t]) simp
  show "nobody_waits ?pc" if "m_should_block q" using nq that by simp
qed

lemma interrupt_inv:
  assumes i: "lock_inv s" and t: "sys_pc s t = Blocked mode"
  shows "lock_inv (queue_step s (remove_blocker t (m_queue (sys_lock s))) ((sys_pc s)(t := Locking mode)))"
proof (rule queue_step_inv[OF i])
  let ?q = "m_queue (sys_lock s)" and ?pc = "(sys_pc s)(t := Locking mode)"
  have m: "mode \<noteq> Unlocked" using i t unfolding lock_inv_def by (metis pc_ok.simps(4))
  have qo: "queue_ok ?q (sys_pc s)" using i by (simp add: lock_inv_def)
  then have "m_blockers (remove_blocker t ?q) = filter (\<lambda>b. qb_thread b \<noteq> t) (m_blockers ?q)"
    by (simp add: remove_blocker_def remove_first_thread queue_ok_def)
  then show "queue_ok (remove_blocker t ?q) ?pc" using qo by (auto simp: queue_ok_def distinct_map_filter blocked_upd)
  show "m_should_block (remove_blocker t ?q) = m_should_block ?q" by (simp add: remove_blocker_def)
  show "\<forall>u. in_section (?pc u) = in_section (sys_pc s u)" using t by simp
  show "\<forall>u. pc_ok (holds (sys_lock s) u) (?pc u)" using i m by (simp add: lock_inv_def)
  assume u: "m_mode (sys_lock s) = Unlocked"
  show "cared_for ?pc" by (intro cared_for_active[of _ t]) simp
  have "\<not> m_should_block ?q" using i t u unfolding lock_inv_def wakeup_ok_def nobody_waits_def by (metis is_blocked.simps(1))
  then show "nobody_waits ?pc" if "m_should_block (remove_blocker t ?q)"
    using that by (simp add: remove_blocker_def)
qed

lemma resume_simps [simp]:
  "\<not> is_blocked (resume p)" "in_section (resume p) = in_section p" "is_waiting (resume p) = is_waiting p" "pc_ok h p \<Longrightarrow> pc_ok h (resume p)"
  by (cases p; simp)+

lemma resume_active: "is_blocked p \<Longrightarrow> is_active (resume p)"
  by (cases p) simp_all

lemma wake_inv:
  assumes i: "lock_inv s" and t: "\<not> in_section (sys_pc s t)" "\<not> is_blocked (sys_pc s t)"
    and pc: "\<not> in_section pc" "\<not> is_blocked pc" "\<not> is_waiting pc" "pc_ok (holds (sys_lock s) t) pc"
    and a: "wake_one (m_queue (sys_lock s)) = (woken, q)"
  shows "lock_inv (queue_step s q (wake woken ((sys_pc s)(t := pc))))"
proof (rule queue_step_inv[OF i])
  let ?q = "m_queue (sys_lock s)" and ?pc = "wake woken ((sys_pc s)(t := pc))"
  have qo: "queue_ok ?q (sys_pc s)" using i by (simp add: lock_inv_def)
  have c: "(m_blockers ?q = [] \<and> woken = [] \<and> m_blockers q = []) \<or>
      (\<exists>b bs. m_blockers ?q = b # bs \<and> woken = [qb_thread b] \<and> m_blockers q = bs)"
    and sb: "m_should_block q = m_should_block ?q"
    using a qo wake_one_cases[of ?q] by (auto simp: queue_ok_def split: list.splits)
  have eff: "?pc u = (if u \<in> set woken then resume (sys_pc s u) else if u = t then pc else sys_pc s u)" for u
    using c qo t(2) by (auto simp: wake_def queue_ok_def blocked_def)
  have wb: "is_blocked (sys_pc s u)" if "u \<in> set woken" for u using that c qo by (auto simp: queue_ok_def blocked_def)
  show "queue_ok q ?pc" using c
  proof
    assume "m_blockers ?q = [] \<and> woken = [] \<and> m_blockers q = []"
    then show ?thesis using qo t(2) pc(2) by (auto simp: queue_ok_def wake_def blocked_def)
  next
    assume "\<exists>b bs. m_blockers ?q = b # bs \<and> woken = [qb_thread b] \<and> m_blockers q = bs"
    then obtain b bs where b: "m_blockers ?q = b # bs" "woken = [qb_thread b]" "m_blockers q = bs" by blast
    have "is_blocked (?pc u) \<longleftrightarrow> is_blocked (sys_pc s u) \<and> u \<noteq> qb_thread b" for u
      using b(2) t(2) pc(2) wb[of u] unfolding eff by auto
    then have "blocked ?pc = blocked (sys_pc s) - {qb_thread b}" by (auto simp: blocked_def)
    moreover have "blocked (sys_pc s) = insert (qb_thread b) (qb_thread ` set bs)" "qb_thread b \<notin> qb_thread ` set bs"
      using qo b(1) by (simp_all add: queue_ok_def)
    ultimately have "qb_thread ` set bs = blocked ?pc" by simp
    then show ?thesis using qo b(1,3) by (simp add: queue_ok_def)
  qed
  show "m_should_block q = m_should_block ?q" by (rule sb)
  show "\<forall>u. in_section (?pc u) = in_section (sys_pc s u)"
    using t(1) pc(1) by (auto simp: eff)
  have "pc_ok (holds (sys_lock s) u) (sys_pc s u)" for u using i by (simp add: lock_inv_def)
  then show "\<forall>u. pc_ok (holds (sys_lock s) u) (?pc u)" using pc(4) by (auto simp: eff)
  assume u: "m_mode (sys_lock s) = Unlocked"
  show "cared_for ?pc" using c
  proof
    assume "m_blockers ?q = [] \<and> woken = [] \<and> m_blockers q = []"
    then show ?thesis using qo pc(2) by (auto simp: queue_ok_def wake_def cared_for_def blocked_def)
  next
    assume "\<exists>b bs. m_blockers ?q = b # bs \<and> woken = [qb_thread b] \<and> m_blockers q = bs"
    then obtain b bs where "m_blockers ?q = b # bs" "woken = [qb_thread b]" "m_blockers q = bs" by blast
    then have "is_active (?pc (qb_thread b))" using wb[of "qb_thread b"] unfolding eff by (simp add: resume_active)
    then show ?thesis by (rule cared_for_active)
  qed
  assume "m_should_block q"
  then have "nobody_waits (sys_pc s)" using i u sb unfolding lock_inv_def wakeup_ok_def by blast
  then show "nobody_waits ?pc" using pc(2,3) by (auto simp: nobody_waits_def eff)
qed


lemma acquire_inv:
  assumes i: "lock_inv s" and t: "sys_pc s t = InLock mode" "m_times_locked (sys_lock s) + 1 < 2 ^ 32"
    and a: "lock_section t mode (sys_lock s) = Inr (acquired, l)"
  shows "lock_inv (leave s t l (if acquired then Running else Waiting mode))"
proof -
  have w: "lock_wf (sys_lock s)" and m: "mode \<noteq> Unlocked" using i t(1) unfolding lock_inv_def by (auto, metis pc_ok.simps(2))
  show ?thesis
  proof (rule lock_section_spec[OF w m t(2), of t])
    fix l'
    assume "lock_section t mode (sys_lock s) = Inr (True, l')" "lock_wf l'" "\<not> m_lock l'"
      "holds l' = (holds (sys_lock s))(t := holds (sys_lock s) t + 1)" "m_mode l' \<noteq> Unlocked"
      "m_queue l' = (if m_mode (sys_lock s) = Unlocked then should_block True (m_queue (sys_lock s)) else m_queue (sys_lock s))"
    then show ?thesis using a t(1) by (intro leave_inv[OF i]) (auto simp: should_block_def)
  next
    assume "lock_section t mode (sys_lock s) = Inr (False, (sys_lock s)\<lparr>m_lock := False\<rparr>)" "m_mode (sys_lock s) \<noteq> Unlocked"
    then show ?thesis using a t(1) w m by (intro leave_inv[OF i]) auto
  qed
qed

lemma unlock_inv:
  assumes i: "lock_inv s" and t: "sys_pc s t = InUnlock" and a: "unlock_section t (sys_lock s) = Inr (unlocked_last, l)"
  shows "lock_inv (leave s t l (if unlocked_last then Waking else Running))"
proof -
  have w: "lock_wf (sys_lock s)" and h: "0 < holds (sys_lock s) t" using i t unfolding lock_inv_def by (auto, metis pc_ok.simps(6))
  show ?thesis
  proof (rule unlock_section_spec[OF w h])
    fix last l'
    assume u: "unlock_section t (sys_lock s) = Inr (last, l')" "lock_wf l'" "\<not> m_lock l'"
      "holds l' = (holds (sys_lock s))(t := holds (sys_lock s) t - 1)" "last = (m_mode l' = Unlocked)"
      "m_queue l' = (if last then should_block False (m_queue (sys_lock s)) else m_queue (sys_lock s))"
    have "m_mode (sys_lock s) \<noteq> Unlocked" using h by (auto simp: holds_simps)
    then show ?thesis using a t u by (intro leave_inv[OF i]) (auto simp: should_block_def)
  qed
qed

lemma force_unlock_inv:
  assumes i: "lock_inv s" and t: "sys_pc s t = InForce"
    and a: "force_unlock_section t (sys_lock s) = Inr (mode, count, wakes, l)"
  shows "lock_inv (leave s t l (if wakes then ForceWaking mode count else Released mode count))"
proof -
  have w: "lock_wf (sys_lock s)" using i by (simp add: lock_inv_def)
  show ?thesis
  proof (rule force_unlock_section_spec[OF w, of t])
    fix m wk l'
    assume u: "force_unlock_section t (sys_lock s) = Inr (m, holds (sys_lock s) t, wk, l')" "lock_wf l'" "\<not> m_lock l'"
      "holds l' = (holds (sys_lock s))(t := 0)" "m = (if holds (sys_lock s) t = 0 then Unlocked else m_mode (sys_lock s))"
      "m_mode l' = Unlocked \<longrightarrow> wk"
      "m_queue l' = (if m_mode l' = Unlocked \<and> m_mode (sys_lock s) \<noteq> Unlocked then should_block False (m_queue (sys_lock s)) else m_queue (sys_lock s))"
    have "holds (sys_lock s) t < 2 ^ 32" using holds_le[OF w, of t] w by (simp add: lock_wf_def)
    then show ?thesis using a t u by (intro leave_inv[OF i]) (auto simp: should_block_def split: if_splits)
  qed
qed

lemma restore_inv:
  assumes i: "lock_inv s" and t: "sys_pc s t = InRestore mode count" "m_times_locked (sys_lock s) + count < 2 ^ 32"
    and a: "restore_section t mode count (sys_lock s) = Inr (restored, l)"
  shows "lock_inv (leave s t l (if restored then Running else Restoring mode count))"
proof -
  have w: "lock_wf (sys_lock s)" and m: "mode \<noteq> Unlocked" "0 < count" "holds (sys_lock s) t = 0"
    using i t(1) unfolding lock_inv_def by (auto, (metis pc_ok.simps(10))+)
  show ?thesis
  proof (rule restore_section_spec[OF w m(1,2) t(2) m(3)])
    fix l'
    assume "restore_section t mode count (sys_lock s) = Inr (True, l')" "lock_wf l'" "\<not> m_lock l'"
      "holds l' = (holds (sys_lock s))(t := count)" "m_mode l' = mode" "m_queue l' = should_block True (m_queue (sys_lock s))"
    then show ?thesis using a t(1) m(1) by (intro leave_inv[OF i]) (auto simp: should_block_def)
  next
    assume "restore_section t mode count (sys_lock s) = Inr (False, (sys_lock s)\<lparr>m_lock := False\<rparr>)" "m_mode (sys_lock s) \<noteq> Unlocked"
    then show ?thesis using a t w m by (intro leave_inv[OF i]) auto
  qed
qed

lemma inner_step_inv: "inner_step s s' \<Longrightarrow> lock_inv s \<Longrightarrow> lock_inv s'"
proof (induction rule: inner_step.induct)
  case (wake_waiter s t woken q)
  then show ?case by (intro wake_inv) simp_all
next
  case (force_wake s t mode count woken q)
  have "pc_ok (holds (sys_lock s) t) (sys_pc s t)" using force_wake(3) by (simp add: lock_inv_def)
  then show ?case using force_wake by (intro wake_inv) simp_all
next
  case (exchange s t mode)
  have "pc_ok (holds (sys_lock s) t) (sys_pc s t)" using exchange(3) by (simp add: lock_inv_def)
  then show ?case using exchange by (intro enter_inv) simp_all
next
  case (exchange_unlock s t)
  have "pc_ok (holds (sys_lock s) t) (sys_pc s t)" using exchange_unlock(3) by (simp add: lock_inv_def)
  then show ?case using exchange_unlock by (intro enter_inv) simp_all
next
  case (exchange_restore s t mode count)
  have "pc_ok (holds (sys_lock s) t) (sys_pc s t)" using exchange_restore(3) by (simp add: lock_inv_def)
  then show ?case using exchange_restore by (intro enter_inv) simp_all
next
  case (exchange_force s t)
  then show ?case by (intro enter_inv) simp_all
next
  case (acquire s t mode acquired l)
  then show ?case using acquire_inv[OF acquire(4,1-3)] by (cases acquired) simp_all
next
  case (restore s t mode count restored l)
  then show ?case using restore_inv[OF restore(4,1-3)] by (cases restored) simp_all
next
  case (unlock s t unlocked_last l)
  then show ?case using unlock_inv[OF unlock(3,1,2)] by simp
next
  case (force_unlock s t mode count wakes l)
  then show ?case using force_unlock_inv[OF force_unlock(3,1,2)] by simp
next
  case (wait s t mode added q)
  then show ?case by (intro wait_inv)
qed

text \<open>What the callers have seen agrees with the lock.\<close>

fun saved_ok :: "nat \<times> bool \<Rightarrow> lock_pc \<Rightarrow> bool" where
  "saved_ok sv (ForceWaking mode count) = (mode = Unlocked \<or> sv = (count, mode = Exclusive))"
| "saved_ok sv (Released mode count) = (mode = Unlocked \<or> sv = (count, mode = Exclusive))"
| "saved_ok sv (Restoring mode count) = (sv = (count, mode = Exclusive))"
| "saved_ok sv (InRestore mode count) = (sv = (count, mode = Exclusive))"
| "saved_ok sv pc = True"

definition seen_ok :: "lock_system \<Rightarrow> bool" where
  "seen_ok s \<longleftrightarrow> (\<forall>t. sys_granted s t = holds (sys_lock s) t \<and> sys_exclusive s t = (m_mode (sys_lock s) = Exclusive \<and> 0 < holds (sys_lock s) t)
     \<and> saved_ok (sys_saved s t) (sys_pc s t))"

lemma saved_resume: "saved_ok sv pc \<Longrightarrow> saved_ok sv (resume pc)"
  by (cases pc) simp_all

lemma seen_pc: "seen_ok s \<Longrightarrow> saved_ok (sys_saved s t) pc \<Longrightarrow> seen_ok (s\<lparr>sys_pc := (sys_pc s)(t := pc)\<rparr>)"
  by (simp add: seen_ok_def)

lemma seen_enter: "seen_ok s \<Longrightarrow> saved_ok (sys_saved s t) pc \<Longrightarrow> seen_ok (enter s t pc)"
  by (simp add: seen_ok_def)

lemma seen_queue: "seen_ok s \<Longrightarrow> saved_ok (sys_saved s t) pc \<Longrightarrow> seen_ok (queue_step s q (wake woken ((sys_pc s)(t := pc))))"
  by (simp add: seen_ok_def wake_def saved_resume)

lemma wake_none [simp]: "wake [] pc = pc"
  by (simp add: wake_def fun_eq_iff)

lemma exclusive_one: "lock_wf l \<Longrightarrow> m_mode l = Exclusive \<Longrightarrow> 0 < holds l t \<Longrightarrow> 0 < holds l u \<Longrightarrow> t = u"
  by (auto simp: holds_simps split: if_splits)

lemma inner_step_seen:
  assumes "inner_step s s'" "lock_inv s" "seen_ok s"
  shows "seen_ok s'"
  using assms(1)
proof cases
  case (exchange t mode)
  then show ?thesis using assms(3) by (simp add: seen_enter)
next
  case (exchange_unlock t)
  then show ?thesis using assms(3) by (simp add: seen_enter)
next
  case (exchange_force t)
  then show ?thesis using assms(3) by (simp add: seen_enter)
next
  case (exchange_restore t mode count)
  moreover have "saved_ok (sys_saved s t) (sys_pc s t)" using assms(3) by (simp add: seen_ok_def)
  ultimately show ?thesis using assms(3) by (simp add: seen_enter)
next
  case (wait t mode added q)
  then show ?thesis using seen_queue[OF assms(3), where t = t and pc = "if added then Blocked mode else Locking mode" and woken = "[]"] by simp
next
  case (wake_waiter t woken q)
  then show ?thesis using seen_queue[OF assms(3), where t = t and pc = Running] by simp
next
  case (force_wake t mode count woken q)
  moreover have "saved_ok (sys_saved s t) (sys_pc s t)" using assms(3) by (simp add: seen_ok_def)
  ultimately show ?thesis using seen_queue[OF assms(3), where t = t and pc = "Released mode count"] by simp
next
  case (acquire t mode acquired l)
  have w: "lock_wf (sys_lock s)" and m: "mode \<noteq> Unlocked" using assms(2) acquire(2) unfolding lock_inv_def by (auto, metis pc_ok.simps(2))
  show ?thesis
  proof (rule lock_section_spec[OF w m acquire(3), of t])
    fix l'
    assume l: "lock_section t mode (sys_lock s) = Inr (True, l')" "holds l' = (holds (sys_lock s))(t := holds (sys_lock s) t + 1)"
      "m_mode l' = (if m_mode (sys_lock s) = Unlocked then mode else m_mode (sys_lock s))" "m_mode (sys_lock s) = Exclusive \<longrightarrow> 0 < holds (sys_lock s) t"
      "m_mode (sys_lock s) = Shared \<longrightarrow> mode = Shared"
    then show ?thesis using acquire assms(3) by (cases "m_mode (sys_lock s)") (auto simp: seen_ok_def grant_def holds_simps)
  next
    assume "lock_section t mode (sys_lock s) = Inr (False, (sys_lock s)\<lparr>m_lock := False\<rparr>)"
    then show ?thesis using acquire assms(3) by (auto simp: seen_ok_def)
  qed
next
  case (unlock t unlocked_last l)
  have w: "lock_wf (sys_lock s)" and h: "0 < holds (sys_lock s) t" using assms(2) unlock(2) unfolding lock_inv_def by (auto, metis pc_ok.simps(6))
  show ?thesis
  proof (rule unlock_section_spec[OF w h])
    fix b l'
    assume u: "unlock_section t (sys_lock s) = Inr (b, l')" "holds l' = (holds (sys_lock s))(t := holds (sys_lock s) t - 1)"
      "m_mode l' = Unlocked \<or> m_mode l' = m_mode (sys_lock s)" "lock_wf l'"
    have "m_mode l' = Unlocked \<Longrightarrow> holds (sys_lock s) t = 1 \<and> (\<forall>u. u \<noteq> t \<longrightarrow> holds (sys_lock s) u = 0)"
      using u(2) h holds_simps(1)[of l'] by (metis One_nat_def Suc_pred fun_upd_apply)
    then show ?thesis using unlock u assms(3) by (auto simp: seen_ok_def ungrant_def)
  qed
next
  case (force_unlock t mode count wakes l)
  have w: "lock_wf (sys_lock s)" using assms(2) by (simp add: lock_inv_def)
  show ?thesis
  proof (rule force_unlock_section_spec[OF w, of t])
    fix m wk l'
    assume u: "force_unlock_section t (sys_lock s) = Inr (m, holds (sys_lock s) t, wk, l')" "holds l' = (holds (sys_lock s))(t := 0)"
      "m = (if holds (sys_lock s) t = 0 then Unlocked else m_mode (sys_lock s))" "m_mode l' = Unlocked \<or> m_mode l' = m_mode (sys_lock s)"
    have "m_mode l' = Unlocked \<Longrightarrow> u \<noteq> t \<Longrightarrow> holds (sys_lock s) u = 0" for u using u(2) holds_simps(1)[of l'] by (metis fun_upd_apply)
    moreover have "m = Exclusive \<Longrightarrow> m_mode (sys_lock s) = Exclusive" using u(3) by (cases "holds (sys_lock s) t = 0") simp_all
    ultimately show ?thesis using force_unlock u assms(3) by (auto simp: seen_ok_def give_up_def)
  qed
next
  case (restore t mode count restored l)
  have w: "lock_wf (sys_lock s)" and m: "mode \<noteq> Unlocked" "0 < count" "holds (sys_lock s) t = 0"
    using assms(2) restore(2) unfolding lock_inv_def by (auto, (metis pc_ok.simps(10))+)
  have sv: "sys_saved s t = (count, mode = Exclusive)" using assms(3) restore(2) unfolding seen_ok_def by (metis saved_ok.simps(4))
  show ?thesis
  proof (rule restore_section_spec[OF w m(1,2) restore(3) m(3)])
    fix l'
    assume "restore_section t mode count (sys_lock s) = Inr (True, l')" "holds l' = (holds (sys_lock s))(t := count)" "m_mode l' = mode"
      "m_mode (sys_lock s) = Unlocked \<or> m_mode (sys_lock s) = Shared \<and> mode = Shared"
    then show ?thesis using restore assms(3) sv m by (auto simp: seen_ok_def regain_def holds_simps)
  next
    assume "restore_section t mode count (sys_lock s) = Inr (False, (sys_lock s)\<lparr>m_lock := False\<rparr>)"
    then show ?thesis using restore assms(3) sv by (auto simp: seen_ok_def)
  qed
qed

lemma outer_step_inv:
  assumes "outer_step s s'" "lock_inv s" "seen_ok s"
  shows "lock_inv s' \<and> seen_ok s'"
proof -
  have p: "pc_ok (holds (sys_lock s) t) (sys_pc s t)" "saved_ok (sys_saved s t) (sys_pc s t)" "sys_granted s t = holds (sys_lock s) t" for t
    using assms(2,3) by (simp_all add: lock_inv_def seen_ok_def)
  show ?thesis using assms(1)
  proof cases
    case (request t mode)
    then show ?thesis using assms(2,3) by (auto intro!: pc_step_inv seen_pc)
  next
    case (release t)
    then show ?thesis using assms(2,3) p(3)[of t] by (auto intro!: pc_step_inv seen_pc)
  next
    case (force t)
    then show ?thesis using assms(2,3) by (auto intro!: pc_step_inv seen_pc)
  next
    case (reclaim t mode count)
    then show ?thesis using assms(2,3) p(1,2)[of t] by (auto intro!: pc_step_inv seen_pc)
  next
    case (interrupt t mode)
    then show ?thesis using interrupt_inv[OF assms(2)] seen_queue[OF assms(3), where t = t and pc = "Locking mode" and woken = "[]"] by simp
  qed
qed

lemma lock_step_inv: "lock_step s s' \<Longrightarrow> lock_inv s \<Longrightarrow> seen_ok s \<Longrightarrow> lock_inv s' \<and> seen_ok s'"
  using inner_step_inv inner_step_seen outer_step_inv by (auto simp: lock_step_def)

lemma lock_reach_inv: "lock_reach s \<Longrightarrow> lock_inv s \<and> seen_ok s"
proof (induction rule: lock_reach.induct)
  case start
  have "seen_ok lock_system_new" by (simp add: seen_ok_def lock_system_new_def lock_new_def holds_def)
  then show ?case using lock_inv_new by blast
next
  case (next_step s s')
  then show ?case using lock_step_inv by blast
qed

subsection \<open>What the lock guarantees\<close>

lemma holds_exclusive: "lock_wf l \<Longrightarrow> m_mode l = Exclusive \<Longrightarrow> \<exists>!t. 0 < holds l t"
  by (auto simp: lock_wf_def holds_simps split: if_splits)

lemma holds_unlocked: "lock_wf l \<Longrightarrow> m_mode l = Unlocked \<longleftrightarrow> (\<forall>t. holds l t = 0)"
proof (cases "m_mode l")
  case Shared
  moreover assume "lock_wf l"
  ultimately obtain t v al where "m_shared_holders l = (t, v) # al" "0 < v" by (cases "m_shared_holders l") (auto simp: lock_wf_def)
  then have "holds l t \<noteq> 0" using Shared by (simp add: holds_simps count_of_def)
  then show ?thesis using Shared by auto
qed (auto simp: lock_wf_def holds_simps)

text \<open>A thread's section, when it comes to it, fails no assertion.\<close>

definition section_total :: "nat \<Rightarrow> lock_pc \<Rightarrow> lock \<Rightarrow> bool" where
  "section_total t pc l \<longleftrightarrow>
     (case pc of
        InLock mode \<Rightarrow> m_times_locked l + 1 < 2 ^ 32 \<longrightarrow> (\<exists>r. lock_section t mode l = Inr r)
      | InUnlock \<Rightarrow> (\<exists>r. unlock_section t l = Inr r)
      | InForce \<Rightarrow> (\<exists>r. force_unlock_section t l = Inr r)
      | InRestore mode count \<Rightarrow> m_times_locked l + count < 2 ^ 32 \<longrightarrow> (\<exists>r. restore_section t mode count l = Inr r)
      | _ \<Rightarrow> True)"

lemma lock_inv_total:
  assumes "lock_inv s"
  shows "section_total t (sys_pc s t) (sys_lock s)"
proof -
  have w: "lock_wf (sys_lock s)" and p: "pc_ok (holds (sys_lock s) t) (sys_pc s t)" using assms by (auto simp: lock_inv_def)
  show ?thesis
  proof (cases "sys_pc s t")
    case (InLock mode)
    then show ?thesis using p lock_section_spec[OF w, of mode t] by (auto simp: section_total_def) metis
  next
    case InUnlock
    then show ?thesis using p unlock_section_spec[OF w, of t] by (auto simp: section_total_def) metis
  next
    case InForce
    then show ?thesis using force_unlock_section_spec[OF w, of t] by (auto simp: section_total_def) metis
  next
    case (InRestore mode count)
    then show ?thesis using p restore_section_spec[OF w, of mode count t] by (auto simp: section_total_def) metis
  qed (simp_all add: section_total_def)
qed

text \<open>
  From a state in which nobody holds the lock and somebody wants it, it is taken by one of those who want it, with
  steps of threads that are inside an operation already.
\<close>

fun wants_lock :: "lock_pc \<Rightarrow> bool" where
  "wants_lock (Locking mode) = True"
| "wants_lock (InLock mode) = True"
| "wants_lock (Waiting mode) = True"
| "wants_lock (Blocked mode) = True"
| "wants_lock (Restoring mode count) = True"
| "wants_lock (InRestore mode count) = True"
| "wants_lock pc = False"

lemma resume_wants [simp]: "wants_lock (resume pc) = wants_lock pc"
  by (cases pc) simp_all

lemma sys_pc_seen [simp]: "sys_pc (grant t mode s) = sys_pc s" "sys_pc (ungrant t s) = sys_pc s" "sys_pc (give_up t s) = sys_pc s" "sys_pc (regain t s) = sys_pc s"
  by (simp_all add: grant_def ungrant_def give_up_def regain_def)

lemma inner_wants: "inner_step s s' \<Longrightarrow> wants_lock (sys_pc s' u) \<Longrightarrow> wants_lock (sys_pc s u)"
  by (induction rule: inner_step.induct) (auto simp: wake_def split: if_splits)

definition can_be_taken :: "lock_system \<Rightarrow> bool" where
  "can_be_taken s \<longleftrightarrow> (\<exists>s' u. inner_step\<^sup>*\<^sup>* s s' \<and> wants_lock (sys_pc s u) \<and> 0 < sys_granted s' u)"

lemma can_be_taken_step: "inner_step s s' \<Longrightarrow> can_be_taken s' \<Longrightarrow> can_be_taken s"
  unfolding can_be_taken_def by (meson converse_rtranclp_into_rtranclp inner_wants)

lemma take_from_section:
  assumes i: "lock_inv s" and u: "m_mode (sys_lock s) = Unlocked" and t: "sys_pc s t = InLock mode"
  shows "can_be_taken s"
proof -
  have w: "lock_wf (sys_lock s)" and p: "pc_ok (holds (sys_lock s) t) (sys_pc s t)" using i by (auto simp: lock_inv_def)
  have m: "mode \<noteq> Unlocked" using p t by simp
  have b: "m_times_locked (sys_lock s) + 1 < 2 ^ 32" using w u by (simp add: lock_wf_def)
  obtain l' where l: "lock_section t mode (sys_lock s) = Inr (True, l')"
    using lock_section_spec[OF w m b, of t] u by metis
  have "inner_step s (grant t mode (leave s t l' Running))" using acquire[OF t b l] by simp
  moreover have "0 < sys_granted (grant t mode (leave s t l' Running)) t" by (simp add: grant_def)
  moreover have "wants_lock (sys_pc s t)" by (simp add: t)
  ultimately show ?thesis unfolding can_be_taken_def by blast
qed

lemma locking_can_take:
  assumes "lock_inv s" "m_mode (sys_lock s) = Unlocked" "\<not> m_lock (sys_lock s)" "sys_pc s t = Locking mode"
  shows "can_be_taken s"
proof -
  have st: "inner_step s (enter s t (InLock mode))" by (rule exchange[OF assms(4,3)])
  show ?thesis
    by (rule can_be_taken_step[OF st], rule take_from_section[OF inner_step_inv[OF st assms(1)], of t mode]) (use assms(2) in simp_all)
qed

lemma waiting_can_take:
  assumes i: "lock_inv s" and u: "m_mode (sys_lock s) = Unlocked" "\<not> m_lock (sys_lock s)" and t: "sys_pc s t = Waiting mode"
  shows "can_be_taken s"
proof -
  have "\<not> m_should_block (m_queue (sys_lock s))"
    using i u(1) t unfolding lock_inv_def wakeup_ok_def nobody_waits_def by (metis is_waiting.simps(1))
  then have "add_blocker \<lparr>qb_thread = t, m_did_unblock = False\<rparr> (m_queue (sys_lock s)) = (False, (m_queue (sys_lock s))\<lparr>m_wake_requested := False\<rparr>)"
    by (simp add: add_blocker_cases)
  note st = wait[OF t this]
  show ?thesis by (rule can_be_taken_step[OF st], rule locking_can_take[OF inner_step_inv[OF st i], of t mode]) (use u in simp_all)
qed

lemma waking_can_take:
  assumes i: "lock_inv s" and u: "m_mode (sys_lock s) = Unlocked" "\<not> m_lock (sys_lock s)" and b: "is_blocked (sys_pc s v)"
    and t: "\<not> is_blocked (sys_pc s t)"
    and st: "\<And>woken q. wake_one (m_queue (sys_lock s)) = (woken, q) \<Longrightarrow> inner_step s (queue_step s q (wake woken ((sys_pc s)(t := pc))))"
  shows "can_be_taken s"
proof -
  let ?q = "m_queue (sys_lock s)"
  have qo: "queue_ok ?q (sys_pc s)" using i by (simp add: lock_inv_def)
  moreover have "v \<in> blocked (sys_pc s)" using b by (simp add: blocked_def)
  ultimately obtain b bs where bs: "m_blockers ?q = b # bs" by (cases "m_blockers ?q") (auto simp: queue_ok_def)
  then have "wake_one ?q = ([qb_thread b], ?q\<lparr>m_blockers := bs, m_wake_requested := False\<rparr>)"
    using qo wake_one_cases[of ?q] by (simp add: queue_ok_def)
  note s1 = st[OF this]
  have "qb_thread b \<in> blocked (sys_pc s)" using qo bs by (auto simp: queue_ok_def)
  moreover from this have "qb_thread b \<noteq> t" using t by (auto simp: blocked_def)
  ultimately obtain mode where "sys_pc s (qb_thread b) = Blocked mode" "qb_thread b \<noteq> t"
    by (cases "sys_pc s (qb_thread b)") (simp_all add: blocked_def)
  then show ?thesis
    by (intro can_be_taken_step[OF s1] locking_can_take[OF inner_step_inv[OF s1 i], of "qb_thread b" mode]) (use u in \<open>simp_all add: wake_def\<close>)
qed

lemma take_from_restore:
  assumes i: "lock_inv s" and u: "m_mode (sys_lock s) = Unlocked" and t: "sys_pc s v = InRestore mode count" and sn: "seen_ok s"
  shows "can_be_taken s"
proof -
  have w: "lock_wf (sys_lock s)" and p: "pc_ok (holds (sys_lock s) v) (sys_pc s v)" using i by (auto simp: lock_inv_def)
  have m: "mode \<noteq> Unlocked" "0 < count" "holds (sys_lock s) v = 0" and c: "m_times_locked (sys_lock s) + count < 2 ^ 32"
    using p u w t by (simp_all add: lock_wf_def)
  obtain l' where l: "restore_section v mode count (sys_lock s) = Inr (True, l')"
    using restore_section_spec[OF w m(1,2) c m(3)] u by metis
  have "saved_ok (sys_saved s v) (sys_pc s v)" using sn by (simp add: seen_ok_def)
  then have "0 < sys_granted (regain v (leave s v l' Running)) v" using t m(2) by (simp add: regain_def)
  moreover have "inner_step s (regain v (leave s v l' Running))" using restore[OF t c l] by simp
  moreover have "wants_lock (sys_pc s v)" by (simp add: t)
  ultimately show ?thesis unfolding can_be_taken_def by blast
qed

lemma free_can_take:
  assumes i: "lock_inv s" and u: "m_mode (sys_lock s) = Unlocked" "\<not> m_lock (sys_lock s)" and t: "wants_lock (sys_pc s t)" and sn: "seen_ok s"
  shows "can_be_taken s"
proof -
  have restoring: "can_be_taken s" if r: "sys_pc s v = Restoring mode count" for v mode count
  proof -
    have st: "inner_step s (enter s v (InRestore mode count))" by (rule exchange_restore[OF r u(2)])
    show ?thesis
      by (rule can_be_taken_step[OF st], rule take_from_restore[OF inner_step_inv[OF st i] _ _ inner_step_seen[OF st i sn], of v mode count]) (use u(1) in simp_all)
  qed
  have ns: "\<not> in_section (sys_pc s v)" for v using i u(2) by (simp add: lock_inv_def spin_ok_def)
  have act: "can_be_taken s" if v: "is_active (sys_pc s v)" and b: "is_blocked (sys_pc s t)" for v
  proof (cases "sys_pc s v")
    case (Locking mode)
    then show ?thesis by (rule locking_can_take[OF i u])
  next
    case (Waiting mode)
    then show ?thesis by (rule waiting_can_take[OF i u])
  next
    case Waking
    then show ?thesis by (intro waking_can_take[OF i u b]) (auto intro: wake_waiter)
  next
    case (ForceWaking mode count)
    then show ?thesis by (intro waking_can_take[OF i u b]) (auto intro: force_wake)
  qed (use v ns[of v] in auto)
  show ?thesis
  proof (cases "sys_pc s t")
    case (Locking mode)
    then show ?thesis by (rule locking_can_take[OF i u])
  next
    case (Waiting mode)
    then show ?thesis by (rule waiting_can_take[OF i u])
  next
    case (Blocked mode)
    then have "is_blocked (sys_pc s t)" by simp
    moreover obtain v where "is_active (sys_pc s v)"
      using i u(1) calculation unfolding lock_inv_def wakeup_ok_def cared_for_def by blast
    ultimately show ?thesis using act by blast
  next
    case (Restoring mode count)
    then show ?thesis by (rule restoring)
  qed (use t ns[of t] in auto)
qed

lemma unlocked_can_take:
  assumes i: "lock_inv s" and sn: "seen_ok s" and u: "m_mode (sys_lock s) = Unlocked" and t: "wants_lock (sys_pc s t)"
  shows "can_be_taken s"
proof (cases "m_lock (sys_lock s)")
  case False
  then show ?thesis by (rule free_can_take[OF i u _ t sn])
next
  case True
  then obtain v where v: "in_section (sys_pc s v)" using i by (auto simp: lock_inv_def spin_ok_def)
  have p: "pc_ok (holds (sys_lock s) v) (sys_pc s v)" using i by (auto simp: lock_inv_def)
  show ?thesis
  proof (cases "sys_pc s v")
    case (InLock mode)
    then show ?thesis by (rule take_from_section[OF i u])
  next
    case InUnlock
    then show ?thesis using p u by (simp add: holds_simps)
  next
    case InForce
    then have tv: "t \<noteq> v" using t by auto
    have f: "force_unlock_section v (sys_lock s) = Inr (Unlocked, 0, True, (sys_lock s)\<lparr>m_lock := False\<rparr>)"
      using u by (simp add: force_unlock_section_def)
    note st = force_unlock[OF InForce f]
    have "sys_lock (give_up v x) = sys_lock x" for x by (simp add: give_up_def)
    then show ?thesis
      by (intro can_be_taken_step[OF st] free_can_take[OF inner_step_inv[OF st i] _ _ _ inner_step_seen[OF st i sn], of t]) (use u t tv in simp_all)
  next
    case (InRestore mode count)
    then show ?thesis by (rule take_from_restore[OF i u _ sn])
  qed (use v in auto)
qed

text \<open>
  C2: in every state that threads reach by locking, unlocking, and giving up and restoring the lock, in any order and
  with any interleaving of their steps: while a thread has been granted exclusive use, no other thread has been granted
  the lock at all; what each thread has been granted is what the lock records for it; and the section a thread is about
  to run fails none of its assertions.
\<close>

theorem lock_safe:
  assumes "lock_reach s"
  shows "(sys_exclusive s t \<and> u \<noteq> t \<longrightarrow> sys_granted s u = 0) \<and> sys_granted s t = holds (sys_lock s) t \<and> section_total t (sys_pc s t) (sys_lock s)"
proof -
  have i: "lock_inv s" "seen_ok s" using lock_reach_inv[OF assms] by auto
  have "lock_wf (sys_lock s)" using i(1) by (simp add: lock_inv_def)
  then have "sys_granted s u = 0" if "sys_exclusive s t" "u \<noteq> t"
    using that i(2) exclusive_one[of "sys_lock s" t u] unfolding seen_ok_def by auto
  then show ?thesis using i(2) lock_inv_total[OF i(1), of t] by (auto simp: seen_ok_def)
qed

definition locked_system :: lock_system where
  "locked_system = \<lparr>sys_lock = \<lparr>m_lock = False, m_queue = should_block True wait_queue_new, m_mode = Exclusive, m_times_locked = 1,
     m_holder = Some 7, m_shared_holders = []\<rparr>, sys_pc = (\<lambda>_. Running), sys_granted = (\<lambda>_. 0)(7 := 1), sys_exclusive = (\<lambda>_. False)(7 := True),
     sys_saved = (\<lambda>_. (0, False))\<rparr>"

lemma reach_inner: "lock_reach s \<Longrightarrow> inner_step s s' \<Longrightarrow> lock_reach s'"
  by (rule next_step) (auto simp: lock_step_def)

lemma reach_outer: "lock_reach s \<Longrightarrow> outer_step s s' \<Longrightarrow> lock_reach s'"
  by (rule next_step) (auto simp: lock_step_def)

lemma locked_system_reach: "lock_reach locked_system"
proof -
  let ?s1 = "lock_system_new\<lparr>sys_pc := (sys_pc lock_system_new)(7 := Locking Exclusive)\<rparr>"
  have r1: "lock_reach ?s1" by (rule reach_outer[OF start request]) (simp_all add: lock_system_new_def)
  let ?s2 = "enter ?s1 7 (InLock Exclusive)"
  have r2: "lock_reach ?s2" by (rule reach_inner[OF r1 exchange]) (simp_all add: lock_system_new_def lock_new_def)
  have "lock_section 7 Exclusive (sys_lock ?s2) = Inr (True, sys_lock locked_system)"
    by (simp add: lock_section_def lock_system_new_def lock_new_def locked_system_def)
  from reach_inner[OF r2 acquire[OF _ _ this]]
  have "lock_reach (grant 7 Exclusive (leave ?s2 7 (sys_lock locked_system) Running))" by (simp add: lock_system_new_def lock_new_def)
  moreover have "grant 7 Exclusive (leave ?s2 7 (sys_lock locked_system) Running) = locked_system"
    by (simp add: locked_system_def lock_system_new_def grant_def fun_eq_iff)
  ultimately show ?thesis by simp
qed

theorem lock_safe_witness:
  "lock_reach locked_system \<and> sys_exclusive locked_system 7 \<and> sys_granted locked_system 8 = 0 \<and> holds (sys_lock locked_system) 7 = 1
    \<and> section_total 7 (sys_pc locked_system 7) (sys_lock locked_system)"
  using locked_system_reach lock_safe[OF locked_system_reach, of 7 8] by (simp add: locked_system_def)

text \<open>
  C3: no wake-up is lost: whenever the lock is free and threads want it, the threads that are inside an operation already
  can go on, without a further call and without a signal, to a state in which one of those that wanted the lock has
  been granted it. So the waiting threads are never all asleep before a free lock.
\<close>

theorem lock_never_stuck:
  assumes "lock_reach s" "m_mode (sys_lock s) = Unlocked" "wants_lock (sys_pc s t)"
  shows "\<exists>s' u. inner_step\<^sup>*\<^sup>* s s' \<and> wants_lock (sys_pc s u) \<and> sys_granted s u = 0 \<and> 0 < sys_granted s' u"
proof -
  have i: "lock_inv s" "seen_ok s" using lock_reach_inv[OF assms(1)] by auto
  have "sys_granted s u = 0" for u using i(2) assms(2) by (simp add: seen_ok_def holds_simps)
  then show ?thesis using unlocked_can_take[OF i assms(2,3)] by (auto simp: can_be_taken_def)
qed

text \<open>Thread 7 has the lock, thread 8 sleeps, and thread 7 releases the lock: before it wakes the other.\<close>

definition waiting_system :: lock_system where
  "waiting_system = \<lparr>sys_lock = \<lparr>m_lock = False, m_queue = \<lparr>m_wake_requested = False, m_should_block = False, m_blockers = [\<lparr>qb_thread = 8, m_did_unblock = False\<rparr>]\<rparr>,
     m_mode = Unlocked, m_times_locked = 0, m_holder = None, m_shared_holders = []\<rparr>,
     sys_pc = (\<lambda>_. Running)(7 := Waking, 8 := Blocked Shared), sys_granted = (\<lambda>_. 0), sys_exclusive = (\<lambda>_. False), sys_saved = (\<lambda>_. (0, False))\<rparr>"

lemma waiting_system_reach: "lock_reach waiting_system"
proof -
  let ?s1 = "locked_system\<lparr>sys_pc := (sys_pc locked_system)(8 := Locking Shared)\<rparr>"
  have r1: "lock_reach ?s1" by (rule reach_outer[OF locked_system_reach request]) (simp_all add: locked_system_def)
  let ?s2 = "enter ?s1 8 (InLock Shared)"
  have r2: "lock_reach ?s2" by (rule reach_inner[OF r1 exchange]) (simp_all add: locked_system_def)
  have l: "lock_section 8 Shared (sys_lock ?s2) = Inr (False, sys_lock locked_system)" by (simp add: lock_section_def locked_system_def)
  let ?s3 = "leave ?s2 8 (sys_lock locked_system) (Waiting Shared)"
  have r3: "lock_reach ?s3" using reach_inner[OF r2 acquire[OF _ _ l]] by (simp add: locked_system_def)
  let ?q = "\<lparr>m_wake_requested = False, m_should_block = True, m_blockers = [\<lparr>qb_thread = 8, m_did_unblock = False\<rparr>]\<rparr>"
  have b: "add_blocker \<lparr>qb_thread = 8, m_did_unblock = False\<rparr> (m_queue (sys_lock ?s3)) = (True, ?q)"
    by (simp add: add_blocker_cases locked_system_def should_block_def wait_queue_new_def)
  let ?s4 = "queue_step ?s3 ?q ((sys_pc ?s3)(8 := Blocked Shared))"
  have r4: "lock_reach ?s4" using reach_inner[OF r3 wait[OF _ b]] by simp
  let ?s5 = "?s4\<lparr>sys_pc := (sys_pc ?s4)(7 := Unlocking)\<rparr>"
  have r5: "lock_reach ?s5" by (rule reach_outer[OF r4 release]) (simp_all add: locked_system_def)
  let ?s6 = "enter ?s5 7 InUnlock"
  have r6: "lock_reach ?s6" by (rule reach_inner[OF r5 exchange_unlock]) (simp_all add: locked_system_def)
  have u: "unlock_section 7 (sys_lock ?s6) = Inr (True, sys_lock waiting_system)"
    by (simp add: unlock_section_def Let_def locked_system_def waiting_system_def should_block_def)
  have "lock_reach (ungrant 7 (leave ?s6 7 (sys_lock waiting_system) Waking))" using reach_inner[OF r6 unlock[OF _ u]] by simp
  moreover have "ungrant 7 (leave ?s6 7 (sys_lock waiting_system) Waking) = waiting_system"
    by (simp add: waiting_system_def locked_system_def ungrant_def fun_eq_iff)
  ultimately show ?thesis by simp
qed

theorem lock_never_stuck_witness:
  "\<exists>s' u. inner_step\<^sup>*\<^sup>* waiting_system s' \<and> wants_lock (sys_pc waiting_system u) \<and> sys_granted waiting_system u = 0 \<and> 0 < sys_granted s' u"
  by (rule lock_never_stuck[OF waiting_system_reach, of 8]) (simp_all add: waiting_system_def)

text \<open>
  \<open>force_unlock_if_locked\<close> and then \<open>restore_lock\<close>, with nothing in between, give a thread its holds back: the lock
  has the mode and the holders it had.
\<close>

theorem lock_restored:
  assumes "lock_wf l" "0 < holds l t"
  shows "\<exists>wakes l1 l2. force_unlock_section t l = Inr (m_mode l, holds l t, wakes, l1) \<and> holds l1 t = 0
    \<and> restore_section t (m_mode l) (holds l t) l1 = Inr (True, l2) \<and> m_mode l2 = m_mode l \<and> holds l2 = holds l"
proof (rule force_unlock_section_spec[OF assms(1), of t])
  fix m wakes l1
  assume f: "force_unlock_section t l = Inr (m, holds l t, wakes, l1)" "lock_wf l1" "holds l1 = (holds l)(t := 0)"
    "m = (if holds l t = 0 then Unlocked else m_mode l)" "m_mode l1 = Unlocked \<or> m_mode l1 = m_mode l"
    "m_times_locked l1 + holds l t = m_times_locked l"
  have m: "m = m_mode l" "m_mode l \<noteq> Unlocked" using f(4) assms(2) by (auto simp: holds_simps)
  have c: "m_times_locked l1 + holds l t < 2 ^ 32" using f(6) assms(1) by (simp add: lock_wf_def)
  have z: "holds l1 t = 0" using f(3) by simp
  show ?thesis
  proof (rule restore_section_spec[OF f(2) m(2) assms(2) c z])
    fix l2
    assume "restore_section t (m_mode l) (holds l t) l1 = Inr (True, l2)" "holds l2 = (holds l1)(t := holds l t)" "m_mode l2 = m_mode l"
    then show ?thesis using f m z by (intro exI[of _ wakes] exI[of _ l1] exI[of _ l2]) (auto simp: fun_eq_iff)
  next
    assume r: "restore_section t (m_mode l) (holds l t) l1 = Inr (False, l1\<lparr>m_lock := False\<rparr>)" "m_mode l1 \<noteq> Unlocked"
    have "m_mode l = Exclusive" using r f(5) by (cases "m_mode l") (auto simp: restore_section_def Let_def split: if_splits)
    then have "holds l1 = (\<lambda>_. 0)" using f(3) assms(2) by (auto simp: holds_simps fun_eq_iff split: if_splits)
    then show ?thesis using holds_unlocked[OF f(2)] r(2) by simp
  qed
qed


theorem lock_restored_witness:
  "\<exists>wakes l1 l2. force_unlock_section 7 (sys_lock locked_system) = Inr (m_mode (sys_lock locked_system), holds (sys_lock locked_system) 7, wakes, l1)
    \<and> holds l1 7 = 0 \<and> restore_section 7 (m_mode (sys_lock locked_system)) (holds (sys_lock locked_system) 7) l1 = Inr (True, l2)
    \<and> m_mode l2 = m_mode (sys_lock locked_system) \<and> holds l2 = holds (sys_lock locked_system)"
  by (rule lock_restored) (simp_all add: locked_system_def lock_wf_def holds_def)

end
