(* ===== verification/AK_Base64.thy ===== *)
theory AK_Base64
  imports Prelude
begin

text \<open>
  \<open>AK/Base64.cpp\<close>: the alphabet and its lookup table, \<open>encode_base64\<close> and \<open>decode_base64\<close>. The loops of the two are
  related to recursions over groups of three bytes and four symbols, and a bitwise identity per byte of a group
  gives the round trip.
\<close>

subsection \<open>Base64\<close>

definition base64_alphabet :: "u8 list" where
  "base64_alphabet = map of_char ''ABCDEFGHIJKLMNOPQRSTUVWXYZabcdefghijklmnopqrstuvwxyz0123456789+/''"

text \<open>\<open>make_lookup_table\<close>: an array of 256 zeroes, in which the loop stores each index.\<close>

definition base64_table :: "u8 list" where
  "base64_table = fold (\<lambda>i t. t[unat (base64_alphabet ! i) := of_nat i]) [0..<64] (replicate 256 0)"

definition calculate_base64_decoded_length :: "u8 list \<Rightarrow> nat" where
  "calculate_base64_decoded_length input = length input * 3 div 4"

definition calculate_base64_encoded_length :: "u8 list \<Rightarrow> nat" where
  "calculate_base64_encoded_length input = (4 * length input div 3 + 3) div 4 * 4"

text \<open>
  The lambda \<open>get\<close> of \<open>decode_base64\<close>: the value and \<open>*is_padding\<close>. A \<open>char\<close> is signed, so a byte from
  128 on is a negative index, and \<open>Array::at\<close> verifies its index.
\<close>

definition base64_get :: "u8 list \<Rightarrow> nat \<Rightarrow> (u8 \<times> bool) result" where
  "base64_get input offset =
     (if offset \<ge> length input then Inr (0, False)
      else if input ! offset = of_char (CHR ''='') then Inr (0, True)
      else and_then (verify (unat (input ! offset) < 128)) (\<lambda>_. Inr (base64_table ! unat (input ! offset), False)))"

text \<open>The three bytes of a group.\<close>

definition base64_out0 :: "u8 \<Rightarrow> u8 \<Rightarrow> u8" where
  "base64_out0 in0 in1 = push_bit 2 in0 OR (drop_bit 4 in1 AND 3)"

definition base64_out1 :: "u8 \<Rightarrow> u8 \<Rightarrow> u8" where
  "base64_out1 in1 in2 = push_bit 4 (in1 AND 0xf) OR (drop_bit 2 in2 AND 0xf)"

definition base64_out2 :: "u8 \<Rightarrow> u8 \<Rightarrow> u8" where
  "base64_out2 in2 in3 = push_bit 6 (in2 AND 0x3) OR in3"

function decode_base64_loop :: "u8 list \<Rightarrow> nat \<Rightarrow> u8 list \<Rightarrow> u8 list result" where
  "decode_base64_loop input i acc =
     (if i < length input then
        and_then (base64_get input i) (\<lambda>(in0, _).
        and_then (base64_get input (i + 1)) (\<lambda>(in1, _).
        and_then (base64_get input (i + 2)) (\<lambda>(in2, in2_is_padding).
        and_then (base64_get input (i + 3)) (\<lambda>(in3, in3_is_padding).
        let out0 = base64_out0 in0 in1;
            out1 = base64_out1 in1 in2;
            out2 = base64_out2 in2 in3 in
        decode_base64_loop input (i + 4)
          (acc @ [out0] @ (if \<not> in2_is_padding then [out1] else []) @ (if \<not> in3_is_padding then [out2] else []))))))
      else Inr acc)"
  by pat_completeness auto
termination
  by (relation "measure (\<lambda>(input, i, acc). length input - i)") auto

definition decode_base64 :: "u8 list \<Rightarrow> u8 list result" where
  "decode_base64 input = decode_base64_loop input 0 []"

definition encode_get :: "u8 list \<Rightarrow> nat \<Rightarrow> u8 \<times> bool" where
  "encode_get input offset = (if offset \<ge> length input then (0, True) else (input ! offset, False))"

function encode_base64_loop :: "u8 list \<Rightarrow> nat \<Rightarrow> u8 list \<Rightarrow> u8 list" where
  "encode_base64_loop input i acc =
     (if i < length input then
        let (in0, _) = encode_get input i;
            (in1, is_16bit) = encode_get input (i + 1);
            (in2, is_8bit) = encode_get input (i + 2);
            index0 = drop_bit 2 in0 AND 0x3f;
            index1 = (push_bit 4 in0 OR drop_bit 4 in1) AND 0x3f;
            index2 = (push_bit 2 in1 OR drop_bit 6 in2) AND 0x3f;
            index3 = in2 AND 0x3f in
        encode_base64_loop input (i + 3)
          (acc @ [base64_alphabet ! unat index0, base64_alphabet ! unat index1,
             if is_16bit then of_char (CHR ''='') else base64_alphabet ! unat index2,
             if is_8bit then of_char (CHR ''='') else base64_alphabet ! unat index3])
      else acc)"
  by pat_completeness auto
termination
  by (relation "measure (\<lambda>(input, i, acc). length input - i)") auto

definition encode_base64 :: "u8 list \<Rightarrow> u8 list" where
  "encode_base64 input = encode_base64_loop input 0 []"

declare decode_base64_loop.simps [simp del] encode_base64_loop.simps [simp del]

subsection \<open>Base64 by groups\<close>

text \<open>The two loops as recursions over what is left of the input, one group at a time.\<close>

definition group0 :: "u8 \<Rightarrow> nat" where "group0 a = unat (drop_bit 2 a AND 0x3f)"
definition group1 :: "u8 \<Rightarrow> u8 \<Rightarrow> nat" where "group1 a b = unat ((push_bit 4 a OR drop_bit 4 b) AND 0x3f)"
definition group2 :: "u8 \<Rightarrow> u8 \<Rightarrow> nat" where "group2 b c = unat ((push_bit 2 b OR drop_bit 6 c) AND 0x3f)"
definition group3 :: "u8 \<Rightarrow> nat" where "group3 c = unat (c AND 0x3f)"

fun encode_groups :: "u8 list \<Rightarrow> u8 list" where
  "encode_groups [] = []"
| "encode_groups [a] = [base64_alphabet ! group0 a, base64_alphabet ! group1 a 0, of_char (CHR ''=''), of_char (CHR ''='')]"
| "encode_groups [a, b] = [base64_alphabet ! group0 a, base64_alphabet ! group1 a b, base64_alphabet ! group2 b 0, of_char (CHR ''='')]"
| "encode_groups (a # b # c # rest) =
     [base64_alphabet ! group0 a, base64_alphabet ! group1 a b, base64_alphabet ! group2 b c, base64_alphabet ! group3 c] @ encode_groups rest"

lemma drop_cases:
  obtains "drop i xs = []" "length xs \<le> i"
  | a where "drop i xs = [a]" "length xs = i + 1" "xs ! i = a"
  | a b where "drop i xs = [a, b]" "length xs = i + 2" "xs ! i = a" "xs ! (i + 1) = b"
  | a b c where "drop i xs = a # b # c # drop (i + 3) xs" "i + 3 \<le> length xs" "xs ! i = a" "xs ! (i + 1) = b" "xs ! (i + 2) = c"
proof -
  have n: "k < length xs - i \<Longrightarrow> drop i xs ! k = xs ! (i + k)" for k by (simp add: add.commute)
  have d: "drop (i + 3) xs = drop 3 (drop i xs)" by (simp add: add.commute)
  have l: "length (drop i xs) = length xs - i" by simp
  consider "drop i xs = []" | a where "drop i xs = [a]" | a b where "drop i xs = [a, b]" | a b c r where "drop i xs = a # b # c # r"
    by (metis neq_Nil_conv)
  then show thesis
  proof cases
    case 1
    then show ?thesis using that(1) by simp
  next
    case (2 a)
    then show ?thesis using that(2)[of a] n[of 0] l by auto
  next
    case (3 a b)
    then have "length xs = i + 2" "xs ! i = a" "xs ! (i + 1) = b" using n[of 0] n[of 1] l by auto
    then show ?thesis using that(3) 3 by blast
  next
    case (4 a b c r)
    then have "i + 3 \<le> length xs" "xs ! i = a" "xs ! (i + 1) = b" "xs ! (i + 2) = c" using n[of 0] n[of 1] n[of 2] l by (auto simp: numeral_2_eq_2)
    moreover have "drop (i + 3) xs = r" using 4 d by (simp add: numeral_3_eq_3)
    ultimately show ?thesis using that(4) 4 by blast
  qed
qed

lemma encode_loop_groups: "encode_base64_loop input i acc = acc @ encode_groups (drop i input)"
proof (induction "length input - i" arbitrary: i acc rule: less_induct)
  case less
  show ?case
  proof (cases rule: drop_cases[of i input])
    case 1
    then show ?thesis by (subst encode_base64_loop.simps) simp
  next
    case (2 a)
    then show ?thesis
      by (subst encode_base64_loop.simps) (simp add: encode_get_def encode_base64_loop.simps group0_def group1_def)
  next
    case (3 a b)
    then show ?thesis
      by (subst encode_base64_loop.simps) (simp add: encode_get_def encode_base64_loop.simps group0_def group1_def group2_def)
  next
    case (4 a b c)
    then have "encode_base64_loop input i acc = encode_base64_loop input (i + 3)
      (acc @ [base64_alphabet ! group0 a, base64_alphabet ! group1 a b, base64_alphabet ! group2 b c, base64_alphabet ! group3 c])"
      by (subst encode_base64_loop.simps) (simp add: encode_get_def group0_def group1_def group2_def group3_def)
    also have "\<dots> = (acc @ [base64_alphabet ! group0 a, base64_alphabet ! group1 a b, base64_alphabet ! group2 b c, base64_alphabet ! group3 c])
      @ encode_groups (drop (i + 3) input)"
      by (rule less) (use 4 in simp)
    also have "\<dots> = acc @ encode_groups (drop i input)" by (simp only: 4(1) encode_groups.simps append_assoc)
    finally show ?thesis .
  qed
qed

lemma fold_update_other: "j \<notin> f ` set is \<Longrightarrow> fold (\<lambda>i t. t[f i := g i]) is t ! j = t ! j"
  by (induction "is" arbitrary: t) auto

lemma length_fold_update [simp]: "length (fold (\<lambda>i t. t[f i := g i]) is t) = length t"
  by (induction "is" arbitrary: t) auto

lemma fold_update_nth: "inj_on f (set is) \<Longrightarrow> distinct is \<Longrightarrow> i \<in> set is \<Longrightarrow> f i < length t
    \<Longrightarrow> fold (\<lambda>i t. t[f i := g i]) is t ! f i = g i"
proof (induction "is" arbitrary: t)
  case (Cons k "is")
  show ?case
  proof (cases "i = k")
    case True
    with Cons.prems have "f i \<notin> f ` set is" by (auto simp: inj_on_def)
    with True Cons.prems show ?thesis by (simp add: fold_update_other)
  next
    case False
    with Cons show ?thesis by simp
  qed
qed simp

lemma alphabet_length: "length base64_alphabet = 64"
  by (simp add: base64_alphabet_def)

lemma alphabet_distinct: "distinct base64_alphabet"
proof -
  have "distinct (map unat base64_alphabet)"
    unfolding base64_alphabet_def map_map comp_def unat_of_char by (simp add: of_char_eq_iff)
  then show ?thesis by (simp add: distinct_map)
qed

lemma alphabet_range: "k < 64 \<Longrightarrow> unat (base64_alphabet ! k) < 128 \<and> base64_alphabet ! k \<noteq> of_char (CHR ''='')"
proof -
  have "list_all (\<lambda>c. unat c < 128 \<and> c \<noteq> of_char (CHR ''='')) base64_alphabet" by code_simp
  then show "k < 64 \<Longrightarrow> ?thesis" by (simp add: list_all_length alphabet_length)
qed

lemma unat_eq_imp: "unat a = unat (b :: u8) \<Longrightarrow> a = b"
  by (rule unsigned_word_eqI)

lemma alphabet_table: 
  assumes "k < 64" shows "base64_table ! unat (base64_alphabet ! k) = of_nat k"
proof -
  have "inj_on (\<lambda>i. unat (base64_alphabet ! i)) (set [0..<64])"
    using alphabet_distinct alphabet_length by (auto simp: inj_on_def nth_eq_iff_index_eq dest: unat_eq_imp)
  then show ?thesis
    unfolding base64_table_def using assms alphabet_range[of k]
    by (intro fold_update_nth) auto
qed

lemma group_masks: "0x3f = (mask 6 :: u8)" "0xf = (mask 4 :: u8)" "3 = (mask 2 :: u8)"
  by (simp_all add: mask_eq_exp_minus_1)

lemma word_of_group:
  "of_nat (group0 a) = (drop_bit 2 a AND 0x3f :: u8)"
  "of_nat (group1 a b) = ((push_bit 4 a OR drop_bit 4 b) AND 0x3f :: u8)"
  "of_nat (group2 b c) = ((push_bit 2 b OR drop_bit 6 c) AND 0x3f :: u8)"
  "of_nat (group3 c) = (c AND 0x3f :: u8)"
  by (simp_all add: group0_def group1_def group2_def group3_def)

lemma group_out0: "base64_out0 (of_nat (group0 a)) (of_nat (group1 a b)) = a"
  unfolding base64_out0_def word_of_group group_masks by (rule byte_eqI) (auto simp: bit_simps numeral_2_eq_2[symmetric])

lemma group_out1: "base64_out1 (of_nat (group1 a b)) (of_nat (group2 b c)) = b"
  unfolding base64_out1_def word_of_group group_masks by (rule byte_eqI) (auto simp: bit_simps numeral_2_eq_2[symmetric])

lemma group_out2: "base64_out2 (of_nat (group2 b c)) (of_nat (group3 c)) = c"
  unfolding base64_out2_def word_of_group group_masks by (rule byte_eqI) (auto simp: bit_simps numeral_2_eq_2[symmetric])

lemma group_bound [simp]: "group0 a < 64" "group1 a b < 64" "group2 b c < 64" "group3 c < 64"
proof -
  have m: "unat (x AND 0x3f :: u8) < 64" for x
  proof -
    have "unat (x AND 0x3f) = take_bit 6 (unat x)"
      unfolding group_masks take_bit_eq_mask[symmetric] by (rule unsigned_take_bit_eq)
    then show ?thesis by (simp only: take_bit_eq_mod) simp
  qed
  show "group0 a < 64" "group1 a b < 64" "group2 b c < 64" "group3 c < 64"
    by (simp_all only: group0_def group1_def group2_def group3_def m)
qed

lemma base64_get_symbol: "k < length input \<Longrightarrow> input ! k = base64_alphabet ! g \<Longrightarrow> g < 64 \<Longrightarrow> base64_get input k = Inr (of_nat g, False)"
  using alphabet_range[of g] by (simp add: base64_get_def alphabet_table)

lemma base64_get_padding: "k < length input \<Longrightarrow> input ! k = of_char (CHR ''='') \<Longrightarrow> base64_get input k = Inr (0, True)"
  by (simp add: base64_get_def)

text \<open>What the decoding loop makes of the symbols of the encoder: one group, and the rest.\<close>

lemma decode_group:
  assumes "input = pre @ [base64_alphabet ! group0 a, base64_alphabet ! group1 a b, base64_alphabet ! group2 b c, base64_alphabet ! group3 c] @ rest"
  shows "decode_base64_loop input (length pre) acc = decode_base64_loop input (length pre + 4) (acc @ [a, b, c])"
proof -
  have "base64_get input (length pre) = Inr (of_nat (group0 a), False)"
    "base64_get input (length pre + 1) = Inr (of_nat (group1 a b), False)"
    "base64_get input (length pre + 2) = Inr (of_nat (group2 b c), False)"
    "base64_get input (length pre + 3) = Inr (of_nat (group3 c), False)"
    by (rule base64_get_symbol; simp add: assms nth_append)+
  then show ?thesis
    by (subst decode_base64_loop.simps) (simp add: assms group_out0 group_out1 group_out2)
qed

lemma decode_end: "length input \<le> i \<Longrightarrow> decode_base64_loop input i acc = Inr acc"
  by (subst decode_base64_loop.simps) simp

lemma decode_two:
  assumes "input = pre @ [base64_alphabet ! group0 a, base64_alphabet ! group1 a b, base64_alphabet ! group2 b 0, of_char (CHR ''='')]"
  shows "decode_base64_loop input (length pre) acc = Inr (acc @ [a, b])"
proof -
  have "base64_get input (length pre) = Inr (of_nat (group0 a), False)"
    "base64_get input (length pre + 1) = Inr (of_nat (group1 a b), False)"
    "base64_get input (length pre + 2) = Inr (of_nat (group2 b 0), False)"
    by (rule base64_get_symbol; simp add: assms nth_append)+
  moreover have "base64_get input (length pre + 3) = Inr (0, True)"
    by (rule base64_get_padding; simp add: assms nth_append)
  ultimately show ?thesis
    by (subst decode_base64_loop.simps) (simp add: assms group_out0 group_out1 decode_end)
qed

lemma decode_one:
  assumes "input = pre @ [base64_alphabet ! group0 a, base64_alphabet ! group1 a 0, of_char (CHR ''=''), of_char (CHR ''='')]"
  shows "decode_base64_loop input (length pre) acc = Inr (acc @ [a])"
proof -
  have "base64_get input (length pre) = Inr (of_nat (group0 a), False)"
    "base64_get input (length pre + 1) = Inr (of_nat (group1 a 0), False)"
    by (rule base64_get_symbol; simp add: assms nth_append)+
  moreover have "base64_get input (length pre + 2) = Inr (0, True)" "base64_get input (length pre + 3) = Inr (0, True)"
    by (rule base64_get_padding; simp add: assms nth_append)+
  ultimately show ?thesis
    by (subst decode_base64_loop.simps) (simp add: assms group_out0 decode_end)
qed

lemma decode_groups: "input = pre @ encode_groups xs \<Longrightarrow> decode_base64_loop input (length pre) acc = Inr (acc @ xs)"
proof (induction xs arbitrary: pre acc rule: encode_groups.induct)
  case 1
  then show ?case by (simp add: decode_end)
next
  case (2 a)
  then show ?case by (simp add: decode_one)
next
  case (3 a b)
  then show ?case by (simp add: decode_two)
next
  case (4 a b c rest)
  let ?g = "[base64_alphabet ! group0 a, base64_alphabet ! group1 a b, base64_alphabet ! group2 b c, base64_alphabet ! group3 c]"
  have "decode_base64_loop input (length pre) acc = decode_base64_loop input (length (pre @ ?g)) (acc @ [a, b, c])"
    using decode_group[of input pre a b c "encode_groups rest" acc] 4(2) by (simp add: eval_nat_numeral)
  also have "\<dots> = Inr ((acc @ [a, b, c]) @ rest)"
    by (rule 4) (simp add: 4)
  finally show ?case by simp
qed

lemma encode_groups_length: "length (encode_groups xs) = (length xs + 2) div 3 * 4"
proof (induction xs rule: encode_groups.induct)
  case (4 a b c rest)
  have "(5 + length rest) div 3 = Suc ((length rest + 2) div 3)" by linarith
  with 4 show ?case by simp
qed simp_all

lemma encoded_length_eq: "(n + 2) div 3 * 4 = (4 * n div 3 + 3) div 4 * (4 :: nat)"
proof -
  define q r where "q = n div 3" and "r = n mod 3"
  have "n = 3 * q + r" "r < 3" by (simp_all add: q_def r_def)
  moreover have "r = 0 \<or> r = 1 \<or> r = 2" using \<open>r < 3\<close> by auto
  moreover have "(4 + q * 12) div 3 = 1 + q * 4" "(8 + q * 12) div 3 = 2 + q * 4"
    "(3 + (1 + q * 4)) div 4 = 1 + q" "(3 + (2 + q * 4)) div 4 = 1 + q" by linarith+
  ultimately show ?thesis by (elim disjE) (simp_all add: algebra_simps)
qed

lemma base64_get_faults: "base64_get input k = Inl e \<Longrightarrow> e = VerifyFailed"
  by (auto simp: base64_get_def verify_def split: if_splits)

lemma base64_get_high: "k < length input \<Longrightarrow> 128 \<le> unat (input ! k) \<Longrightarrow> base64_get input k = Inl VerifyFailed"
  by (auto simp: base64_get_def verify_def)

lemma decode_high: "j \<le> i \<Longrightarrow> i < length input \<Longrightarrow> 128 \<le> unat (input ! i) \<Longrightarrow> decode_base64_loop input j acc = Inl VerifyFailed"
proof (induction "length input - j" arbitrary: j acc rule: less_induct)
  case less
  have f: "base64_get input k = Inl e \<Longrightarrow> e = VerifyFailed" for k e by (rule base64_get_faults)
  have i: "base64_get input i = Inl VerifyFailed" using less base64_get_high by blast
  show ?case
  proof (cases "i < j + 4")
    case True
    then have "i = j \<or> i = j + 1 \<or> i = j + 2 \<or> i = j + 3" using less.prems by auto
    then show ?thesis
      using i less.prems by (subst decode_base64_loop.simps) (auto simp: and_then_case base64_get_high dest: f split: sum.splits)
  next
    case False
    then have "decode_base64_loop input (j + 4) out = Inl VerifyFailed" for out
      using less by (intro less.hyps) auto
    then show ?thesis
      using less.prems by (subst decode_base64_loop.simps) (auto simp: and_then_case Let_def dest!: f split: sum.splits)
  qed
qed

text \<open>C32: what \<open>encode_base64\<close> makes of any bytes has the length it reserved for it, and \<open>decode_base64\<close> turns it back
  into those bytes.\<close>

theorem base64_round_trip:
  "decode_base64 (encode_base64 input) = Inr input
   \<and> length (encode_base64 input) = calculate_base64_encoded_length input"
  unfolding decode_base64_def encode_base64_def encode_loop_groups calculate_base64_encoded_length_def
  using decode_groups[of _ "[]"] by (simp add: encode_groups_length encoded_length_eq)

text \<open>
  One byte from 128 on anywhere in its input makes \<open>decode_base64\<close> fail an assertion: the byte is a negative
  \<open>char\<close> there, and no index of the table.
\<close>

theorem base64_faults:
  assumes "i < length input" "128 \<le> unat (input ! i)"
  shows "decode_base64 input = Inl VerifyFailed"
  unfolding decode_base64_def using decode_high[OF _ assms] by simp

theorem base64_faults_witness:
  "decode_base64 [65, 66, 200, 67] = Inl VerifyFailed"
  by (rule base64_faults[of 2]) simp_all

end
