(* ===== verification/AK_MemMem.thy ===== *)
theory AK_MemMem
  imports Prelude
begin

text \<open>
  \<open>AK/MemMem.h\<close>: the two substring searches behind \<open>memmem\<close>, bitap over a 64-bit word for needles shorter than 32
  bytes and Knuth-Morris-Pratt for the others. Each is proved to end and to find the first occurrence; the bitap
  search misses needles of 31 bytes.
\<close>

subsection \<open>The bitap search\<close>

text \<open>
  \<open>bitap_bitwise\<close>, for needles shorter than 32 bytes. \<open>0x00000001 << i\<close> is an \<open>int\<close>: it is sign-extended where it
  meets the 64-bit words of the table and of \<open>lookup\<close>.
\<close>

definition int_bit :: "nat \<Rightarrow> u64" where
  "int_bit i = signed (push_bit i 1 :: 32 word)"

definition not_int_bit :: "nat \<Rightarrow> u64" where
  "not_int_bit i = signed (NOT (push_bit i 1 :: 32 word))"

definition bitap_mask :: "u8 list \<Rightarrow> u64 list" where
  "bitap_mask needle =
     fold (\<lambda>i masks. let c = unat (needle ! i) in
             masks[c := masks ! c AND not_int_bit i])
       [0..<length needle] (replicate 256 0xffffffff)"

function bitap_loop :: "u8 list \<Rightarrow> nat \<Rightarrow> u64 list \<Rightarrow> nat \<Rightarrow> u64 \<Rightarrow> nat option" where
  "bitap_loop haystack needle_length needle_mask i lookup =
     (if i < length haystack then
        let lookup' = push_bit 1 (lookup OR needle_mask ! unat (haystack ! i)) in
        if lookup' AND int_bit needle_length = 0 then Some (i + 1 - needle_length)
        else bitap_loop haystack needle_length needle_mask (i + 1) lookup'
      else None)"
  by pat_completeness auto
termination by (relation "measure (\<lambda>(haystack, n, m, i, l). length haystack - i)") auto

declare bitap_loop.simps [simp del]

definition bitap_bitwise :: "u8 list \<Rightarrow> u8 list \<Rightarrow> nat option result" where
  "bitap_bitwise haystack needle =
     and_then (verify (length needle < 32)) (\<lambda>_.
       Inr (bitap_loop haystack (length needle) (bitap_mask needle) 0 0xfffffffe))"

subsection \<open>The Knuth-Morris-Pratt search\<close>

text \<open>\<open>Vector::at\<close> and \<open>Span::at\<close> with an \<open>int\<close> index, which they verify as a \<open>size_t\<close>.\<close>

definition at_int :: "'a list \<Rightarrow> int \<Rightarrow> 'a result" where
  "at_int xs i = (if 0 \<le> i \<and> nat i < length xs then Inr (xs ! nat i) else Inl VerifyFailed)"

text \<open>The \<open>do\<close> loop of \<open>prepare_kmp_partial_table\<close>.\<close>

partial_function (option) kmp_fallback :: "u8 list \<Rightarrow> int list \<Rightarrow> nat \<Rightarrow> int \<Rightarrow> int result option" where
  "kmp_fallback needle table position candidate =
     (case at_int table candidate of
        Inl e \<Rightarrow> Some (Inl e)
      | Inr c \<Rightarrow>
          if c < 0 then Some (Inr c)
          else case at_int needle c of
            Inl e \<Rightarrow> Some (Inl e)
          | Inr b \<Rightarrow> if b \<noteq> needle ! position then kmp_fallback needle table position c else Some (Inr c))"

function kmp_table_loop :: "u8 list \<Rightarrow> int list \<Rightarrow> nat \<Rightarrow> int \<Rightarrow> int list result" where
  "kmp_table_loop needle table position candidate =
     (if position < length needle then
        and_then (at_int needle candidate) (\<lambda>b.
          if needle ! position = b then
            and_then (at_int table candidate) (\<lambda>t.
              kmp_table_loop needle (table[position := t]) (position + 1) (candidate + 1))
          else
            let table' = table[position := candidate] in
            and_then (returned (kmp_fallback needle table' position candidate)) (\<lambda>c.
              kmp_table_loop needle table' (position + 1) (c + 1)))
      else Inr table)"
  by pat_completeness auto
termination by (relation "measure (\<lambda>(needle, table, position, candidate). length needle - position)") auto

declare kmp_table_loop.simps [simp del]

definition prepare_kmp_partial_table :: "u8 list \<Rightarrow> int list result" where
  "prepare_kmp_partial_table needle =
     and_then (verify (needle \<noteq> [])) (\<lambda>_.
       kmp_table_loop needle ((replicate (length needle) 0)[0 := -1]) 1 0)"

text \<open>The search goes over the chunks of the haystack: \<open>chunks\<close> are those from \<open>haystack_it\<close> on.\<close>

partial_function (option) kmp_search ::
  "u8 list \<Rightarrow> int list \<Rightarrow> u8 list list \<Rightarrow> nat \<Rightarrow> nat \<Rightarrow> int \<Rightarrow> nat option result option" where
  "kmp_search needle table chunks current_haystack_index total_haystack_index needle_index =
     (case chunks of
        [] \<Rightarrow> Some (Inr None)
      | chunk # rest \<Rightarrow>
          if length chunk \<le> current_haystack_index then kmp_search needle table rest 0 total_haystack_index needle_index
          else case at_int needle needle_index of
            Inl e \<Rightarrow> Some (Inl e)
          | Inr b \<Rightarrow>
              if b = chunk ! current_haystack_index then
                if needle_index + 1 = int (length needle) then
                  Some (Inr (Some (nat (int (total_haystack_index + 1) - (needle_index + 1)))))
                else kmp_search needle table chunks (current_haystack_index + 1) (total_haystack_index + 1) (needle_index + 1)
              else case at_int table needle_index of
                Inl e \<Rightarrow> Some (Inl e)
              | Inr j \<Rightarrow>
                  if j < 0 then kmp_search needle table chunks (current_haystack_index + 1) (total_haystack_index + 1) (j + 1)
                  else kmp_search needle table chunks current_haystack_index total_haystack_index j)"

declare kmp_fallback.simps [code] kmp_search.simps [code]

definition memmem_chunks :: "u8 list list \<Rightarrow> u8 list \<Rightarrow> nat option result" where
  "memmem_chunks haystack needle =
     and_then (prepare_kmp_partial_table needle) (\<lambda>table. returned (kmp_search needle table haystack 0 0 0))"

definition memmem_optional :: "u8 list \<Rightarrow> u8 list \<Rightarrow> nat option result" where
  "memmem_optional haystack needle =
     (if length needle = 0 then Inr (Some 0)
      else if length haystack < length needle then Inr None
      else if length haystack = length needle then Inr (if haystack = needle then Some 0 else None)
      else if length needle < 32 then bitap_bitwise haystack needle
      else memmem_chunks [haystack] needle)"

subsection \<open>What a search is to find\<close>

definition occurs :: "u8 list \<Rightarrow> u8 list \<Rightarrow> nat \<Rightarrow> bool" where
  "occurs needle haystack s \<longleftrightarrow> s + length needle \<le> length haystack \<and> (\<forall>i < length needle. haystack ! (s + i) = needle ! i)"

definition first_match :: "u8 list \<Rightarrow> u8 list \<Rightarrow> nat option \<Rightarrow> bool" where
  "first_match needle haystack r \<longleftrightarrow>
     (case r of None \<Rightarrow> \<forall>s. \<not> occurs needle haystack s
      | Some s \<Rightarrow> occurs needle haystack s \<and> (\<forall>s' < s. \<not> occurs needle haystack s'))"

lemma occurs_iff_take: "occurs needle haystack s \<longleftrightarrow> s + length needle \<le> length haystack \<and> take (length needle) (drop s haystack) = needle"
  by (auto simp: occurs_def list_eq_iff_nth_eq add.commute)


subsection \<open>Bitap finds the first match\<close>

lemma length_bitap_fold: "length (fold (\<lambda>i masks. let c = f i in masks[c := g i (masks ! c)]) is ms) = length ms"
  by (induction "is" arbitrary: ms) (simp_all add: Let_def)

lemma bit_int_bit: "j < 64 \<Longrightarrow> i < 31 \<Longrightarrow> bit (int_bit i) j \<longleftrightarrow> j = i"
  by (auto simp: int_bit_def bit_simps min_def)

lemma bit_not_int_bit: "j < 32 \<Longrightarrow> bit (not_int_bit i) j \<longleftrightarrow> j \<noteq> i"
  by (auto simp: not_int_bit_def bit_simps min_def)

lemma bitap_fold_bit:
  assumes "c < 256" "length ms = 256" "j < 32"
  shows "bit (fold (\<lambda>i masks. let c = unat (needle ! i :: u8) in masks[c := masks ! c AND not_int_bit i]) is ms ! c :: u64) j
    \<longleftrightarrow> bit (ms ! c) j \<and> \<not> (j \<in> set is \<and> unat (needle ! j) = c)"
  using assms(2)
proof (induction "is" arbitrary: ms)
  case (Cons i "is")
  let ?ms = "ms[unat (needle ! i) := ms ! unat (needle ! i) AND not_int_bit i]"
  have "bit (?ms ! c) j \<longleftrightarrow> bit (ms ! c) j \<and> \<not> (j = i \<and> unat (needle ! i) = c)"
    using assms Cons.prems by (cases "unat (needle ! i) = c") (auto simp: bit_and_iff bit_not_int_bit)
  then show ?case using Cons.IH[of ?ms] Cons.prems by (auto simp: Let_def)
qed simp

lemma bit_low_mask: "j < 32 \<Longrightarrow> bit (0xffffffff :: int) j"
proof -
  have m: "(0xffffffff :: int) = mask 32" by (simp add: mask_eq_exp_minus_1)
  show "j < 32 \<Longrightarrow> ?thesis" unfolding m by (simp only: bit_mask_iff) simp
qed

lemma bit_bitap_mask:
  "j < 32 \<Longrightarrow> bit (bitap_mask needle ! unat (c :: u8)) j \<longleftrightarrow> \<not> (j < length needle \<and> needle ! j = c)"
proof -
  have "unat c < 256" using unsigned_less[of c, where ?'a = nat] by simp
  then show "j < 32 \<Longrightarrow> ?thesis"
    unfolding bitap_mask_def
    by (subst bitap_fold_bit) (auto intro: bit_low_mask dest: unsigned_word_eqI)
qed

text \<open>After \<open>i\<close> bytes, bit \<open>k\<close> of \<open>lookup\<close> is clear when the last \<open>k\<close> of them are the first \<open>k\<close> of the needle.\<close>

definition suffix_match :: "u8 list \<Rightarrow> u8 list \<Rightarrow> nat \<Rightarrow> nat \<Rightarrow> bool" where
  "suffix_match needle haystack i k \<longleftrightarrow> k \<le> i \<and> (\<forall>j < k. haystack ! (i - k + j) = needle ! j)"

lemma suffix_match_0 [simp]: "suffix_match needle haystack i 0"
  by (simp add: suffix_match_def)

lemma suffix_match_Suc:
  "suffix_match needle haystack (Suc i) (Suc k) \<longleftrightarrow> suffix_match needle haystack i k \<and> haystack ! i = needle ! k"
  by (auto simp: suffix_match_def less_Suc_eq)

lemma suffix_match_occurs:
  "i \<le> length haystack \<Longrightarrow> suffix_match needle haystack i (length needle) \<longleftrightarrow> length needle \<le> i \<and> occurs needle haystack (i - length needle)"
  by (auto simp: suffix_match_def occurs_def)

definition bitap_inv :: "u8 list \<Rightarrow> u8 list \<Rightarrow> nat \<Rightarrow> u64 \<Rightarrow> bool" where
  "bitap_inv needle haystack i lookup \<longleftrightarrow> (\<forall>k \<le> length needle. \<not> bit lookup k \<longleftrightarrow> suffix_match needle haystack i k)"

lemma bitap_inv_step:
  assumes "bitap_inv needle haystack i lookup" "length needle < 31"
  shows "bitap_inv needle haystack (i + 1) (push_bit 1 (lookup OR bitap_mask needle ! unat (haystack ! i)))"
  unfolding bitap_inv_def
proof (intro allI impI)
  fix k
  assume k: "k \<le> length needle"
  show "\<not> bit (push_bit 1 (lookup OR bitap_mask needle ! unat (haystack ! i))) k \<longleftrightarrow> suffix_match needle haystack (i + 1) k"
  proof (cases k)
    case 0
    then show ?thesis by (subst bit_push_bit_iff) simp
  next
    case (Suc k')
    then have "k' < length needle" using k by simp
    then show ?thesis
      using assms Suc by (subst bit_push_bit_iff) (auto simp: bit_or_iff bit_bitap_mask bitap_inv_def suffix_match_Suc)
  qed
qed

lemma lookup_test:
  assumes "n < 31"
  shows "lookup AND int_bit n = 0 \<longleftrightarrow> \<not> bit lookup n"
proof
  assume "lookup AND int_bit n = 0"
  then have "\<not> bit (lookup AND int_bit n) n" by simp
  then show "\<not> bit lookup n" using assms by (simp add: bit_and_iff bit_int_bit)
next
  assume "\<not> bit lookup n"
  then have "\<not> bit (lookup AND int_bit n) j" for j
    using assms bit_int_bit[of j n] bit_imp_le_length[of lookup j] by (auto simp: bit_and_iff)
  then show "lookup AND int_bit n = 0" by (intro bit_eqI) simp
qed

lemma bitap_loop_spec:
  "bitap_inv needle haystack i lookup \<Longrightarrow> i \<le> length haystack \<Longrightarrow> 0 < length needle \<Longrightarrow> length needle < 31
   \<Longrightarrow> (\<forall>s. s + length needle \<le> i \<longrightarrow> \<not> occurs needle haystack s)
   \<Longrightarrow> first_match needle haystack (bitap_loop haystack (length needle) (bitap_mask needle) i lookup)"
proof (induction "length haystack - i" arbitrary: i lookup rule: less_induct)
  case less
  let ?n = "length needle" and ?lookup = "push_bit 1 (lookup OR bitap_mask needle ! unat (haystack ! i))"
  show ?case
  proof (cases "i < length haystack")
    case False
    then show ?thesis using less.prems by (subst bitap_loop.simps) (auto simp: first_match_def occurs_def)
  next
    case True
    have inv': "bitap_inv needle haystack (i + 1) ?lookup" using less.prems by (intro bitap_inv_step) auto
    have t: "?lookup AND int_bit ?n = 0 \<longleftrightarrow> ?n \<le> i + 1 \<and> occurs needle haystack (i + 1 - ?n)"
    proof -
      have "?lookup AND int_bit ?n = 0 \<longleftrightarrow> suffix_match needle haystack (i + 1) ?n"
        using inv' less.prems by (subst lookup_test) (auto simp: bitap_inv_def)
      then show ?thesis using suffix_match_occurs[of "i + 1"] True by simp
    qed
    show ?thesis
    proof (cases "?lookup AND int_bit ?n = 0")
      case hit: True
      then have "first_match needle haystack (Some (i + 1 - ?n))"
        using t less.prems by (auto simp: first_match_def)
      then show ?thesis using True hit by (subst bitap_loop.simps) (simp add: Let_def del: push_bit_of_Suc_0)
    next
      case miss: False
      have no: "\<forall>s. s + ?n \<le> i + 1 \<longrightarrow> \<not> occurs needle haystack s"
      proof (intro allI impI)
        fix s
        assume "s + ?n \<le> i + 1"
        then have "s + ?n \<le> i \<or> s = i + 1 - ?n \<and> ?n \<le> i + 1" by auto
        then show "\<not> occurs needle haystack s" using less.prems miss t by blast
      qed
      have "first_match needle haystack (bitap_loop haystack ?n (bitap_mask needle) (i + 1) ?lookup)"
        using less.prems True no by (intro less.hyps inv') auto
      then show ?thesis using True miss by (subst bitap_loop.simps) (simp only: Let_def if_True if_False)
    qed
  qed
qed


lemma bit_initial_lookup: "k < 32 \<Longrightarrow> bit (0xfffffffe :: 64 word) k \<longleftrightarrow> k \<noteq> 0"
proof -
  have m: "(0xfffffffe :: 64 word) = mask 32 AND NOT (mask 1)" by (simp add: mask_eq_exp_minus_1)
  show "k < 32 \<Longrightarrow> ?thesis" unfolding m by (simp only: bit_and_iff bit_not_iff bit_mask_iff) auto
qed

lemma bitap_spec:
  assumes "0 < length needle" "length needle < 31"
  shows "\<exists>r. bitap_bitwise haystack needle = Inr r \<and> first_match needle haystack r"
proof -
  have "bitap_inv needle haystack 0 0xfffffffe"
    unfolding bitap_inv_def
  proof (intro allI impI)
    fix k
    assume "k \<le> length needle"
    then have "k < 32" using assms by simp
    then show "(\<not> bit (0xfffffffe :: 64 word) k) = suffix_match needle haystack 0 k"
      by (simp only: bit_initial_lookup) (auto simp: suffix_match_def)
  qed
  then show ?thesis
    using bitap_loop_spec[of needle haystack 0] assms by (simp add: bitap_bitwise_def)
qed

text \<open>
  With a needle of 31 bytes the tested bit is the sign bit of an \<open>int\<close>, so the 32 bits above it are tested as well,
  and the first of those is never clear: no bit of the needle's table is.
\<close>

lemma bitap_31_never: "length needle = 31 \<Longrightarrow> bitap_loop haystack (length needle) (bitap_mask needle) i lookup = None"
proof (induction "length haystack - i" arbitrary: i lookup rule: less_induct)
  case less
  let ?lookup = "push_bit 1 (lookup OR bitap_mask needle ! unat (haystack ! i))"
  have "bit (lookup OR bitap_mask needle ! unat (haystack ! i)) 31"
    using less.prems by (simp add: bit_or_iff bit_bitap_mask)
  then have "bit ?lookup 32" by (subst bit_push_bit_iff) simp
  moreover have "bit (int_bit 31) 32" unfolding int_bit_def by (simp add: bit_signed_iff bit_push_bit_iff min_def)
  ultimately have "bit (?lookup AND int_bit 31) 32" by (simp only: bit_and_iff)
  then have "?lookup AND int_bit 31 \<noteq> 0" by (metis bit_0_eq bot_apply bot_bool_def)
  moreover have "i < length haystack \<Longrightarrow> bitap_loop haystack (length needle) (bitap_mask needle) (i + 1) ?lookup = None"
    using less.prems by (intro less.hyps) auto
  ultimately show ?case using less.prems by (subst bitap_loop.simps) (simp only: Let_def if_False split: if_split, blast)
qed

subsection \<open>The table of the Knuth-Morris-Pratt search\<close>

text \<open>\<open>border p k j\<close>: the first \<open>k\<close> bytes of the first \<open>j\<close> are also its last \<open>k\<close>.\<close>

definition border :: "'a list \<Rightarrow> nat \<Rightarrow> nat \<Rightarrow> bool" where
  "border p k j \<longleftrightarrow> k < j \<and> (\<forall>i < k. p ! i = p ! (j - k + i))"

lemma border_0 [simp]: "border p 0 j \<longleftrightarrow> 0 < j"
  by (simp add: border_def)

lemma border_less: "border p k j \<Longrightarrow> k < j"
  by (simp add: border_def)

lemma border_trans: "border p l k \<Longrightarrow> border p k j \<Longrightarrow> border p l j"
  unfolding border_def
proof (intro conjI allI impI)
  fix i
  assume a: "l < k \<and> (\<forall>i<l. p ! i = p ! (k - l + i))" "k < j \<and> (\<forall>i<k. p ! i = p ! (j - k + i))" and i: "i < l"
  then have "p ! i = p ! (k - l + i)" by simp
  also have "\<dots> = p ! (j - k + (k - l + i))" by (rule a(2)[THEN conjunct2, rule_format]) (use a i in auto)
  also have "j - k + (k - l + i) = j - l + i" using a by simp
  finally show "p ! i = p ! (j - l + i)" .
qed simp

lemma border_between: "border p l j \<Longrightarrow> border p k j \<Longrightarrow> l < k \<Longrightarrow> border p l k"
  unfolding border_def
proof (intro conjI allI impI)
  fix i
  assume a: "l < j \<and> (\<forall>i<l. p ! i = p ! (j - l + i))" "k < j \<and> (\<forall>i<k. p ! i = p ! (j - k + i))" and i: "i < l" "l < k"
  then have "p ! i = p ! (j - l + i)" by simp
  also have "j - l + i = j - k + (k - l + i)" using a i by simp
  also have "p ! \<dots> = p ! (k - l + i)" by (rule a(2)[THEN conjunct2, rule_format, symmetric]) (use a i in auto)
  finally show "p ! i = p ! (k - l + i)" .
qed simp

lemma border_Suc: "border p (Suc k) (Suc j) \<longleftrightarrow> border p k j \<and> p ! k = p ! j"
  by (auto simp: border_def less_Suc_eq)

lemma border_Suc_iff: "border p k (Suc j) \<longleftrightarrow> k = 0 \<or> (\<exists>l. k = Suc l \<and> border p l j \<and> p ! l = p ! j)"
  by (cases k) (auto simp: border_Suc)

definition longest_border :: "'a list \<Rightarrow> nat \<Rightarrow> nat \<Rightarrow> bool" where
  "longest_border p j k \<longleftrightarrow> border p k j \<and> (\<forall>k'. border p k' j \<longrightarrow> k' \<le> k)"

text \<open>What an entry of the table is: where to go on in the needle after a mismatch at \<open>j\<close>, or -1.\<close>

definition failure :: "'a list \<Rightarrow> nat \<Rightarrow> int \<Rightarrow> bool" where
  "failure p j t \<longleftrightarrow> (t = -1 \<or> 0 \<le> t \<and> border p (nat t) j \<and> p ! nat t \<noteq> p ! j)
     \<and> (\<forall>k. border p k j \<and> p ! k \<noteq> p ! j \<longrightarrow> int k \<le> t)"

lemma failure_0: "failure p 0 (-1)"
  by (simp add: failure_def border_def)

lemma failure_less: "failure p j t \<Longrightarrow> t < int j \<and> -1 \<le> t"
  by (auto simp: failure_def border_def)

lemma failure_same:
  assumes "longest_border p j k" "p ! j = p ! k" "failure p k t"
  shows "failure p j t"
  unfolding failure_def
proof (intro conjI allI impI)
  show "t = -1 \<or> 0 \<le> t \<and> border p (nat t) j \<and> p ! nat t \<noteq> p ! j"
    using assms border_trans by (auto simp: failure_def longest_border_def)
next
  fix k'
  assume k': "border p k' j \<and> p ! k' \<noteq> p ! j"
  then have "k' \<le> k" "k' \<noteq> k" using assms by (auto simp: longest_border_def)
  then have "border p k' k" using k' assms(1) by (intro border_between[of p k' j k]) (auto simp: longest_border_def)
  then show "int k' \<le> t" using k' assms by (auto simp: failure_def)
qed

lemma failure_other: "longest_border p j k \<Longrightarrow> p ! k \<noteq> p ! j \<Longrightarrow> failure p j (int k)"
  by (auto simp: failure_def longest_border_def)

lemma longest_border_Suc: "longest_border p j k \<Longrightarrow> p ! k = p ! j \<Longrightarrow> longest_border p (Suc j) (Suc k)"
  unfolding longest_border_def
proof (intro conjI allI impI)
  assume a: "border p k j \<and> (\<forall>k'. border p k' j \<longrightarrow> k' \<le> k)" "p ! k = p ! j"
  then show "border p (Suc k) (Suc j)" by (simp add: border_Suc)
  show "k' \<le> Suc k" if b: "border p k' (Suc j)" for k'
    using a b by (cases k') (auto simp: border_Suc)
qed

text \<open>The \<open>do\<close> loop ends in the longest border that the next byte extends.\<close>

lemma kmp_fallback_spec:
  assumes "border p c j" "p ! c \<noteq> p ! j" "\<forall>k. border p k j \<and> p ! k = p ! j \<longrightarrow> k < c"
    and "j < length p" "length table = length p" "\<forall>i < j. failure p i (table ! i)"
  shows "\<exists>c'. kmp_fallback p table j (int c) = Some (Inr c') \<and> -1 \<le> c' \<and> longest_border p (Suc j) (nat (c' + 1))"
  using assms
proof (induction c rule: less_induct)
  case (less c)
  let ?t = "table ! c"
  have c: "c < j" using less.prems border_less by blast
  then have f: "failure p c ?t" using less.prems by simp
  then have tc: "?t < int c" "-1 \<le> ?t" using failure_less by blast+
  have at: "at_int table (int c) = Inr ?t" using c less.prems by (simp add: at_int_def)
  have smaller: "int k \<le> ?t" if k: "border p k j" "p ! k = p ! j" for k
  proof -
    have "border p k c" using k less.prems border_between by blast
    then show ?thesis using f k less.prems by (auto simp: failure_def)
  qed
  show ?case
  proof (cases "?t < 0")
    case True
    then have "longest_border p (Suc j) 0"
      using smaller unfolding longest_border_def by (auto simp: border_Suc_iff)
    moreover have "?t = -1" using True tc by simp
    ultimately show ?thesis using True at by (subst kmp_fallback.simps) simp
  next
    case False
    then have b: "border p (nat ?t) c" "p ! nat ?t \<noteq> p ! c" using f by (auto simp: failure_def)
    then have bj: "border p (nat ?t) j" using less.prems border_trans by blast
    have at': "at_int p ?t = Inr (p ! nat ?t)" using False c tc less.prems by (simp add: at_int_def)
    show ?thesis
    proof (cases "p ! nat ?t = p ! j")
      case True
      then have "longest_border p (Suc j) (Suc (nat ?t))"
        unfolding longest_border_def using bj smaller by (auto simp: border_Suc border_Suc_iff) fastforce
      then show ?thesis using True False at at' tc by (subst kmp_fallback.simps) (simp add: nat_add_distrib)
    next
      case neq: False
      have "\<exists>c'. kmp_fallback p table j (int (nat ?t)) = Some (Inr c') \<and> -1 \<le> c' \<and> longest_border p (Suc j) (nat (c' + 1))"
      proof (rule less.IH)
        show "nat ?t < c" using tc False by simp
        show "\<forall>k. border p k j \<and> p ! k = p ! j \<longrightarrow> k < nat ?t"
        proof (intro allI impI)
          fix k assume k: "border p k j \<and> p ! k = p ! j"
          then have "k \<le> nat ?t" using smaller[of k] by linarith
          moreover have "k \<noteq> nat ?t" using k neq by auto
          ultimately show "k < nat ?t" by simp
        qed
      qed (use bj neq less.prems in auto)
      then show ?thesis using neq False at at' by (subst kmp_fallback.simps) simp
    qed
  qed
qed


lemma kmp_table_loop_spec:
  assumes "longest_border p j c" "j \<le> length p" "length table = length p" "\<forall>i < j. failure p i (table ! i)"
  shows "\<exists>t. kmp_table_loop p table j (int c) = Inr t \<and> length t = length p \<and> (\<forall>i < length p. failure p i (t ! i))"
  using assms
proof (induction "length p - j" arbitrary: j c table rule: less_induct)
  case less
  show ?case
  proof (cases "j < length p")
    case False
    then show ?thesis using less.prems by (subst kmp_table_loop.simps) auto
  next
    case True
    have c: "c < j" using less.prems by (auto simp: longest_border_def border_def)
    then have atp: "at_int p (int c) = Inr (p ! c)" and att: "at_int table (int c) = Inr (table ! c)"
      using True less.prems by (auto simp: at_int_def)
    show ?thesis
    proof (cases "p ! j = p ! c")
      case same: True
      have "failure p j (table ! c)" using same less.prems c by (intro failure_same[of p j c]) auto
      then have "\<forall>i < Suc j. failure p i (table[j := table ! c] ! i)"
        using less.prems True by (auto simp: less_Suc_eq)
      moreover have "longest_border p (Suc j) (Suc c)" using same less.prems by (intro longest_border_Suc) auto
      ultimately have "\<exists>t. kmp_table_loop p (table[j := table ! c]) (Suc j) (int (Suc c)) = Inr t
          \<and> length t = length p \<and> (\<forall>i < length p. failure p i (t ! i))"
        using True less.prems by (intro less.hyps) auto
      then show ?thesis using True same atp att by (subst kmp_table_loop.simps) (simp add: add.commute)
    next
      case other: False
      let ?table = "table[j := int c]"
      have "failure p j (int c)" using other less.prems by (intro failure_other) auto
      then have f: "\<forall>i < Suc j. failure p i (?table ! i)" using less.prems True by (auto simp: less_Suc_eq)
      have "\<exists>c'. kmp_fallback p ?table j (int c) = Some (Inr c') \<and> -1 \<le> c' \<and> longest_border p (Suc j) (nat (c' + 1))"
      proof (rule kmp_fallback_spec)
        show "\<forall>k. border p k j \<and> p ! k = p ! j \<longrightarrow> k < c"
          using less.prems other unfolding longest_border_def by (metis le_neq_implies_less)
      qed (use less.prems other True f in \<open>auto simp: longest_border_def\<close>)
      then obtain c' where c': "kmp_fallback p ?table j (int c) = Some (Inr c')" "-1 \<le> c'"
        "longest_border p (Suc j) (nat (c' + 1))" by blast
      have "\<exists>t. kmp_table_loop p ?table (Suc j) (int (nat (c' + 1))) = Inr t
          \<and> length t = length p \<and> (\<forall>i < length p. failure p i (t ! i))"
        using c' f True less.prems by (intro less.hyps) auto
      then show ?thesis using True other atp c' by (subst kmp_table_loop.simps) (simp add: Let_def)
    qed
  qed
qed

lemma prepare_table_spec:
  assumes "p \<noteq> []"
  shows "\<exists>t. prepare_kmp_partial_table p = Inr t \<and> length t = length p \<and> (\<forall>i < length p. failure p i (t ! i))"
proof -
  have "longest_border p 1 0" by (auto simp: longest_border_def border_def)
  then have "\<exists>t. kmp_table_loop p ((replicate (length p) 0)[0 := -1]) 1 (int 0) = Inr t
      \<and> length t = length p \<and> (\<forall>i < length p. failure p i (t ! i))"
    using assms failure_0[of p] by (intro kmp_table_loop_spec) (auto simp: Suc_le_eq)
  then show ?thesis using assms by (simp add: prepare_kmp_partial_table_def)
qed

subsection \<open>The Knuth-Morris-Pratt search finds the first match\<close>

fun remaining :: "u8 list list \<Rightarrow> nat \<Rightarrow> u8 list" where
  "remaining [] cur = []"
| "remaining (chunk # rest) cur = drop cur chunk @ concat rest"

text \<open>
  \<open>j\<close> bytes of the needle match before position \<open>pos\<close>, and no match begins before these.
\<close>

definition kmp_inv :: "u8 list \<Rightarrow> u8 list \<Rightarrow> nat \<Rightarrow> nat \<Rightarrow> bool" where
  "kmp_inv p h pos j \<longleftrightarrow> j < length p \<and> j \<le> pos \<and> pos \<le> length h
     \<and> (\<forall>i < j. h ! (pos - j + i) = p ! i) \<and> (\<forall>s < pos - j. \<not> occurs p h s)"

lemma kmp_inv_match:
  assumes "kmp_inv p h pos j" "pos < length h" "h ! pos = p ! j" "j + 1 < length p"
  shows "kmp_inv p h (pos + 1) (j + 1)"
  using assms by (auto simp: kmp_inv_def less_Suc_eq)

lemma kmp_inv_found:
  assumes "kmp_inv p h pos j" "pos < length h" "h ! pos = p ! j" "j + 1 = length p"
  shows "first_match p h (Some (pos - j))"
proof -
  have "h ! (pos - j + i) = p ! i" if i: "i < length p" for i
    using assms i by (cases "i = j") (auto simp: kmp_inv_def)
  then have "occurs p h (pos - j)" using assms by (simp add: occurs_def kmp_inv_def)
  then show ?thesis using assms by (auto simp: first_match_def kmp_inv_def)
qed

text \<open>A mismatch rules out every start between the present one and the one the table gives.\<close>

lemma kmp_no_start:
  assumes inv: "kmp_inv p h pos j" and mis: "h ! pos \<noteq> p ! j" and "pos < length h" and f: "failure p j t"
    and s: "int s < int pos - t"
  shows "\<not> occurs p h s"
proof
  assume o: "occurs p h s"
  have j: "j \<le> pos" "\<And>i. i < j \<Longrightarrow> h ! (pos - j + i) = p ! i" and low: "\<And>s. s < pos - j \<Longrightarrow> \<not> occurs p h s" and jp: "j < length p"
    using inv by (auto simp: kmp_inv_def)
  have sj: "pos - j \<le> s" using o low by (meson linorder_not_less)
  have h: "h ! (s + i) = p ! i" if i: "i < length p" for i using o i by (simp add: occurs_def)
  have "s \<le> pos"
  proof (rule ccontr)
    assume "\<not> s \<le> pos"
    then have "t < -1" using s by simp
    then show False using failure_less[OF f] by simp
  qed
  define k where "k = pos - s"
  have k: "k \<le> j" "s + k = pos" using sj j \<open>s \<le> pos\<close> by (auto simp: k_def)
  have pk: "p ! k = h ! pos" using h[of k] k jp by simp
  then have "k \<noteq> j" using mis by auto
  then have kj: "k < j" using k by simp
  have "border p k j"
    unfolding border_def
  proof (intro conjI allI impI)
    fix i assume i: "i < k"
    have "p ! i = h ! (s + i)" using h[of i] i kj jp by simp
    also have "s + i = pos - j + (j - k + i)" using k sj j by linarith
    also have "h ! \<dots> = p ! (j - k + i)" using j(2)[of "j - k + i"] i kj by simp
    finally show "p ! i = p ! (j - k + i)" .
  qed (rule kj)
  then have "int k \<le> t" using f pk mis by (auto simp: failure_def)
  then show False using s k by linarith
qed

lemma kmp_inv_shift:
  assumes "kmp_inv p h pos j" "h ! pos \<noteq> p ! j" "pos < length h" "failure p j t" "0 \<le> t"
  shows "kmp_inv p h pos (nat t)"
  unfolding kmp_inv_def
proof (intro conjI allI impI)
  have b: "border p (nat t) j" using assms by (auto simp: failure_def)
  then have tj: "nat t < j" by (simp add: border_def)
  then show "nat t < length p" "nat t \<le> pos" "pos \<le> length h" using assms by (auto simp: kmp_inv_def)
  show "h ! (pos - nat t + i) = p ! i" if i: "i < nat t" for i
  proof -
    have "p ! i = p ! (j - nat t + i)" using b i by (simp add: border_def)
    also have "\<dots> = h ! (pos - j + (j - nat t + i))"
      using assms(1)[unfolded kmp_inv_def] i tj by (metis add.commute less_diff_conv2 less_imp_le_nat add_diff_cancel_left' le_add_diff_inverse nat_add_left_cancel_less)
    also have "pos - j + (j - nat t + i) = pos - nat t + i" using assms tj by (auto simp: kmp_inv_def)
    finally show ?thesis by simp
  qed
  show "\<not> occurs p h s" if s: "s < pos - nat t" for s
    using assms s by (intro kmp_no_start[of p h pos j t]) auto
qed

lemma kmp_inv_skip:
  assumes "kmp_inv p h pos j" "h ! pos \<noteq> p ! j" "pos < length h" "failure p j (-1)"
  shows "kmp_inv p h (pos + 1) 0"
  using assms kmp_no_start[of p h pos j "-1"] by (auto simp: kmp_inv_def)

lemma kmp_inv_end:
  assumes "kmp_inv p h (length h) j"
  shows "first_match p h None"
  using assms by (auto simp: kmp_inv_def first_match_def occurs_def)

definition kmp_measure :: "u8 list list \<Rightarrow> nat \<Rightarrow> nat \<Rightarrow> nat" where
  "kmp_measure chunks cur j = 2 * length (remaining chunks cur) + j + length chunks"

lemma kmp_search_spec:
  assumes "p \<noteq> []" "length table = length p" "\<forall>i < length p. failure p i (table ! i)"
    and "kmp_inv p h pos j" "drop pos h = remaining chunks cur"
  shows "\<exists>r. kmp_search p table chunks cur pos (int j) = Some (Inr r) \<and> first_match p h r"
  using assms(4,5)
proof (induction "kmp_measure chunks cur j" arbitrary: chunks cur pos j rule: less_induct)
  case less
  note hyps = less.hyps[unfolded kmp_measure_def]
  show ?case
  proof (cases chunks)
    case Nil
    then have "pos = length h" using less.prems by (simp add: kmp_inv_def)
    then show ?thesis using Nil less.prems kmp_inv_end by (subst kmp_search.simps) simp
  next
    case (Cons chunk rest)
    show ?thesis
    proof (cases "length chunk \<le> cur")
      case True
      have r: "remaining rest 0 = concat rest" by (cases rest) simp_all
      have "\<exists>r. kmp_search p table rest 0 pos (int j) = Some (Inr r) \<and> first_match p h r"
        using less.prems Cons True r by (intro hyps) auto
      then show ?thesis using Cons True by (subst kmp_search.simps) simp
    next
      case False
      have jp: "j < length p" using less.prems by (simp add: kmp_inv_def)
      then have atp: "at_int p (int j) = Inr (p ! j)" and att: "at_int table (int j) = Inr (table ! j)"
        using assms by (simp_all add: at_int_def)
      have dr: "drop pos h = chunk ! cur # remaining chunks (cur + 1)"
        using less.prems Cons False by (simp add: Cons_nth_drop_Suc[symmetric])
      then have pos: "pos < length h" and hp: "h ! pos = chunk ! cur" and dr': "drop (pos + 1) h = remaining chunks (cur + 1)"
        by (metis drop_all linorder_not_less list.distinct(1), metis hd_drop_conv_nth drop_all linorder_not_less list.distinct(1) list.sel(1),
            metis drop_Suc tl_drop list.sel(3) Suc_eq_plus1)
      have l: "length (remaining chunks cur) = Suc (length (remaining chunks (cur + 1)))"
        using dr less.prems by simp
      show ?thesis
      proof (cases "p ! j = chunk ! cur")
        case match: True
        show ?thesis
        proof (cases "j + 1 = length p")
          case True
          then have "first_match p h (Some (pos - j))"
            using less.prems pos hp match by (intro kmp_inv_found) auto
          then show ?thesis using Cons False atp match True by (subst kmp_search.simps) (auto simp: nat_minus_as_int)
        next
          case more: False
          have "kmp_inv p h (pos + 1) (j + 1)" using less.prems pos hp match more jp by (intro kmp_inv_match) auto
          then have "\<exists>r. kmp_search p table chunks (cur + 1) (pos + 1) (int (j + 1)) = Some (Inr r) \<and> first_match p h r"
            using dr' l by (intro hyps) auto
          moreover have "int j + 1 \<noteq> int (length p)" using more by linarith
          ultimately show ?thesis using Cons False atp match by (subst kmp_search.simps) (simp add: add.commute)
        qed
      next
        case mis: False
        have f: "failure p j (table ! j)" using assms jp by simp
        then have tj: "table ! j < int j" "-1 \<le> table ! j" using failure_less by blast+
        show ?thesis
        proof (cases "table ! j < 0")
          case True
          then have t: "table ! j = -1" using tj by simp
          have "kmp_inv p h (pos + 1) 0" using less.prems pos hp mis f t by (intro kmp_inv_skip[of p h pos j]) auto
          then have "\<exists>r. kmp_search p table chunks (cur + 1) (pos + 1) (int 0) = Some (Inr r) \<and> first_match p h r"
            using dr' l by (intro hyps) auto
          then show ?thesis using Cons False atp att mis t by (subst kmp_search.simps) simp
        next
          case nonneg: False
          have "kmp_inv p h pos (nat (table ! j))" using less.prems pos hp mis f nonneg by (intro kmp_inv_shift[of p h pos j]) auto
          then have "\<exists>r. kmp_search p table chunks cur pos (int (nat (table ! j))) = Some (Inr r) \<and> first_match p h r"
            using less.prems tj nonneg by (intro hyps) auto
          then show ?thesis using Cons False atp att mis nonneg by (subst kmp_search.simps) simp
        qed
      qed
    qed
  qed
qed

lemma memmem_chunks_spec:
  assumes "p \<noteq> []"
  shows "\<exists>r. memmem_chunks chunks p = Inr r \<and> first_match p (concat chunks) r"
proof -
  obtain t where t: "prepare_kmp_partial_table p = Inr t" "length t = length p" "\<forall>i < length p. failure p i (t ! i)"
    using prepare_table_spec[OF assms] by blast
  have "kmp_inv p (concat chunks) 0 0" using assms by (simp add: kmp_inv_def)
  moreover have "drop 0 (concat chunks) = remaining chunks 0" by (cases chunks) simp_all
  ultimately obtain r where "kmp_search p t chunks 0 0 (int 0) = Some (Inr r)" "first_match p (concat chunks) r"
    using kmp_search_spec[OF assms t(2,3)] by blast
  then show ?thesis using t by (simp add: memmem_chunks_def)
qed

lemma first_match_short: "length h < length p \<Longrightarrow> first_match p h None"
  by (auto simp: first_match_def occurs_def)

lemma first_match_same_length: "length h = length p \<Longrightarrow> first_match p h (if h = p then Some 0 else None)"
  by (auto simp: first_match_def occurs_iff_take)

lemma memmem_spec:
  assumes "length needle \<noteq> 31"
  shows "\<exists>r. memmem_optional haystack needle = Inr r \<and> first_match needle haystack r"
proof -
  consider "needle = []" | "length haystack < length needle" | "needle \<noteq> []" "length haystack = length needle"
    | "needle \<noteq> []" "length needle < length haystack" "length needle < 31" | "length needle < length haystack" "32 \<le> length needle"
    using assms by fastforce
  then show ?thesis
  proof cases
    case 1
    then show ?thesis by (simp add: memmem_optional_def first_match_def occurs_def)
  next
    case 2
    then show ?thesis using first_match_short by (auto simp: memmem_optional_def)
  next
    case 3
    then show ?thesis using first_match_same_length by (auto simp: memmem_optional_def)
  next
    case 4
    then show ?thesis using bitap_spec[of needle haystack] by (simp add: memmem_optional_def)
  next
    case 5
    then have "needle \<noteq> []" by auto
    then show ?thesis using memmem_chunks_spec[of needle "[haystack]"] 5 by (simp add: memmem_optional_def)
  qed
qed

text \<open>
  C33: for every haystack and every needle that does not have exactly 31 bytes, \<open>memmem_optional\<close> returns, without a
  failed assertion, the first position at which the needle occurs, or nothing when it occurs nowhere; it does so by
  the bitap search for short needles and by Knuth-Morris-Pratt for long ones.
\<close>

theorem memmem_optional_correct:
  assumes "length needle \<noteq> 31"
  shows "\<exists>r. memmem_optional haystack needle = Inr r \<and> first_match needle haystack r"
  using memmem_spec[OF assms] .

theorem memmem_optional_correct_witness:
  "\<exists>r. memmem_optional [1, 2, 1, 2, 3] [1, 2, 3] = Inr r \<and> first_match [1, 2, 3] [1, 2, 1, 2, 3] r"
  by (rule memmem_optional_correct) simp

text \<open>
  A needle of exactly 31 bytes is never found in a longer haystack, wherever it occurs there.
\<close>

theorem memmem_optional_31:
  assumes "length needle = 31" "31 < length haystack"
  shows "memmem_optional haystack needle = Inr None"
  using assms bitap_31_never[of needle haystack 0] by (auto simp: memmem_optional_def bitap_bitwise_def)

theorem memmem_optional_31_witness:
  "memmem_optional (replicate 40 7) (replicate 31 7) = Inr None \<and> occurs (replicate 31 7) (replicate 40 7) 0"
  using memmem_optional_31[of "replicate 31 7" "replicate 40 7"] by (simp add: occurs_def)

end
