(* ===== verification/AK_StringUtils.thy ===== *)
theory AK_StringUtils
  imports AK_MemMem
begin

text \<open>
  Strings: the character classes, the views of \<open>AK/StringView.cpp\<close> (\<open>substring_view\<close>, \<open>split_view\<close>, \<open>lines\<close>, the searches
  for a character) and the functions of \<open>AK/StringUtils.cpp\<close> (trimming, the conversions to integers, prefix, suffix
  and substring tests, \<open>to_snakecase\<close>). A string is a list of characters. Splitting is related to a recursion over
  the characters, the conversions to the number their digits denote, \<open>contains\<close> to the search of \<open>AK/MemMem.h\<close>.
\<close>

subsection \<open>Characters\<close>

text \<open>The C locale's character classes, as the C library defines them.\<close>

abbreviation code :: "char \<Rightarrow> nat" where "code c \<equiv> of_char c"

definition in_range :: "char \<Rightarrow> char \<Rightarrow> char \<Rightarrow> bool" where
  "in_range lo hi c \<longleftrightarrow> code lo \<le> code c \<and> code c \<le> code hi"

definition isspace :: "char \<Rightarrow> bool" where
  "isspace c \<longleftrightarrow> code c = 32 \<or> 9 \<le> code c \<and> code c \<le> 13"

definition isdigit :: "char \<Rightarrow> bool" where
  "isdigit c \<longleftrightarrow> in_range (CHR ''0'') (CHR ''9'') c"

definition isupper :: "char \<Rightarrow> bool" where
  "isupper c \<longleftrightarrow> in_range (CHR ''A'') (CHR ''Z'') c"

definition islower :: "char \<Rightarrow> bool" where
  "islower c \<longleftrightarrow> in_range (CHR ''a'') (CHR ''z'') c"

definition tolower :: "char \<Rightarrow> char" where
  "tolower c = (if isupper c then char_of (code c + 32) else c)"

definition digit_value :: "char \<Rightarrow> nat" where
  "digit_value c = code c - 48"

definition to_lowercase :: "char \<Rightarrow> char" where
  "to_lowercase c = (if in_range (CHR ''A'') (CHR ''Z'') c then char_of (code c OR 0x20) else c)"

definition bytes :: "string \<Rightarrow> u8 list" where
  "bytes s = map of_char s"

datatype case_sensitivity = CaseInsensitive | CaseSensitive

datatype trim_mode = TrimLeft | TrimRight | TrimBoth

subsection \<open>Views\<close>

text \<open>
  \<open>StringView::substring_view\<close>. Its \<open>VERIFY\<close> adds modulo the word size; when that sum wraps, the view's constructor
  still verifies that its end does not lie past the end of memory.
\<close>

definition substring_view :: "string \<Rightarrow> nat \<Rightarrow> nat \<Rightarrow> string result" where
  "substring_view s start len =
     (if start + len \<le> length s then Inr (take len (drop start s))
      else if length s < usize (start + len) \<or> start \<le> length s then Inl VerifyFailed
      else Inl OutOfBounds)"

definition substring_view_from :: "string \<Rightarrow> nat \<Rightarrow> string result" where
  "substring_view_from s start = substring_view s start (usub (length s) start)"

function split_view_loop :: "string \<Rightarrow> (char \<Rightarrow> bool) \<Rightarrow> bool \<Rightarrow> nat \<Rightarrow> nat \<Rightarrow> string list \<Rightarrow> string list result" where
  "split_view_loop s predicate keep_empty i substart v =
     (if i < length s then
        if predicate (s ! i) then
          let sublen = i - substart in
          if sublen \<noteq> 0 \<or> keep_empty then
            and_then (substring_view s substart sublen) (\<lambda>part.
              split_view_loop s predicate keep_empty (i + 1) (i + 1) (v @ [part]))
          else split_view_loop s predicate keep_empty (i + 1) (i + 1) v
        else split_view_loop s predicate keep_empty (i + 1) substart v
      else
        let taillen = length s - substart in
        if taillen \<noteq> 0 \<or> keep_empty then and_then (substring_view s substart taillen) (\<lambda>part. Inr (v @ [part]))
        else Inr v)"
  by pat_completeness auto
termination by (relation "measure (\<lambda>(s, p, k, i, b, v). length s - i)") auto

definition split_view_if :: "string \<Rightarrow> (char \<Rightarrow> bool) \<Rightarrow> bool \<Rightarrow> string list result" where
  "split_view_if s predicate keep_empty = (if s = [] then Inr [] else split_view_loop s predicate keep_empty 0 0 [])"

definition split_view :: "string \<Rightarrow> char \<Rightarrow> bool \<Rightarrow> string list result" where
  "split_view s separator keep_empty = split_view_if s (\<lambda>ch. ch = separator) keep_empty"

text \<open>\<open>StringView::lines\<close>. The state of the loop is \<open>substart\<close>, \<open>last_ch_was_cr\<close> and the vector.\<close>

function lines_loop :: "string \<Rightarrow> nat \<Rightarrow> nat \<Rightarrow> bool \<Rightarrow> string list \<Rightarrow> string list result" where
  "lines_loop s i substart last_ch_was_cr v =
     (if i < length s then
        let ch = s ! i;
            (substart, split, cr) =
              (if ch = CHR 0x0A then
                 if last_ch_was_cr then (i + 1, False, False) else (substart, True, last_ch_was_cr)
               else if ch = CHR 0x0D then (substart, True, True)
               else (substart, False, last_ch_was_cr)) in
        if split then
          and_then (substring_view s substart (i - substart)) (\<lambda>part. lines_loop s (i + 1) (i + 1) cr (v @ [part]))
        else lines_loop s (i + 1) substart cr v
      else
        let taillen = length s - substart in
        if taillen \<noteq> 0 then and_then (substring_view s substart taillen) (\<lambda>part. Inr (v @ [part])) else Inr v)"
  by pat_completeness auto
termination by (relation "measure (\<lambda>(s, i, b, l, v). length s - i)") auto

definition lines :: "string \<Rightarrow> bool \<Rightarrow> string list result" where
  "lines s consider_cr =
     (if s = [] then Inr []
      else if \<not> consider_cr then split_view s (CHR 0x0A) True
      else lines_loop s 0 0 False [])"

declare split_view_loop.simps [simp del] lines_loop.simps [simp del]

definition starts_with_char :: "string \<Rightarrow> char \<Rightarrow> bool" where
  "starts_with_char s ch = (if s = [] then False else ch = s ! 0)"

definition ends_with_char :: "string \<Rightarrow> char \<Rightarrow> bool" where
  "ends_with_char s ch = (if s = [] then False else ch = s ! (length s - 1))"

fun contains_char :: "string \<Rightarrow> char \<Rightarrow> bool" where
  "contains_char [] needle = False"
| "contains_char (current # rest) needle = (if current = needle then True else contains_char rest needle)"

fun find_last_of_loop :: "string \<Rightarrow> (char \<Rightarrow> bool) \<Rightarrow> nat \<Rightarrow> nat option" where
  "find_last_of_loop s p 0 = None"
| "find_last_of_loop s p (Suc pos) = (if p (s ! pos) then Some pos else find_last_of_loop s p pos)"

definition find_last_of :: "string \<Rightarrow> char \<Rightarrow> nat option" where
  "find_last_of s c = find_last_of_loop s (\<lambda>ch. ch = c) (length s)"

definition find_last_of_any :: "string \<Rightarrow> string \<Rightarrow> nat option" where
  "find_last_of_any s view = find_last_of_loop s (\<lambda>ch. ch \<in> set view) (length s)"

fun find_first_of_loop :: "string \<Rightarrow> (char \<Rightarrow> bool) \<Rightarrow> nat \<Rightarrow> nat option" where
  "find_first_of_loop [] p i = None"
| "find_first_of_loop (ch # rest) p i = (if p ch then Some i else find_first_of_loop rest p (i + 1))"

definition find_first_of :: "string \<Rightarrow> char \<Rightarrow> nat option" where
  "find_first_of s c = find_first_of_loop s (\<lambda>ch. ch = c) 0"

definition find_first_of_any :: "string \<Rightarrow> string \<Rightarrow> nat option" where
  "find_first_of_any s view = find_first_of_loop s (\<lambda>ch. ch \<in> set view) 0"

subsection \<open>\<open>StringUtils\<close>\<close>

text \<open>
  The conversions are templates over the integer type: \<open>w\<close> is its width. \<open>__builtin_mul_overflow\<close> and
  \<open>__builtin_add_overflow\<close> compute with unbounded integers and report whether the result fits.
\<close>

definition fits_int :: "nat \<Rightarrow> int \<Rightarrow> bool" where
  "fits_int w v \<longleftrightarrow> - (2 ^ (w - 1)) \<le> v \<and> v < 2 ^ (w - 1)"

definition fits_uint :: "nat \<Rightarrow> nat \<Rightarrow> bool" where
  "fits_uint w v \<longleftrightarrow> v < 2 ^ w"

function trim_left_loop :: "string \<Rightarrow> nat \<Rightarrow> nat \<Rightarrow> nat \<Rightarrow> (nat \<times> nat) option" where
  "trim_left_loop s i substring_start substring_length =
     (if i < length s then
        if substring_length = 0 then None
        else if \<not> isspace (s ! i) then Some (substring_start, substring_length)
        else trim_left_loop s (i + 1) (substring_start + 1) (substring_length - 1)
      else Some (substring_start, substring_length))"
  by pat_completeness auto
termination by (relation "measure (\<lambda>(s, i, b, l). length s - i)") auto

declare trim_left_loop.simps [simp del]

fun trim_right_loop :: "string \<Rightarrow> nat \<Rightarrow> nat \<Rightarrow> nat option" where
  "trim_right_loop s i substring_length =
     (if i > 0 then
        if substring_length = 0 then None
        else if \<not> isspace (s ! i) then Some substring_length
        else trim_right_loop s (i - 1) (substring_length - 1)
      else Some substring_length)"

declare trim_right_loop.simps [simp del]

definition trim_whitespace :: "string \<Rightarrow> trim_mode \<Rightarrow> string result" where
  "trim_whitespace s mode =
     (case (if mode = TrimLeft \<or> mode = TrimBoth then trim_left_loop s 0 0 (length s) else Some (0, length s)) of
        None \<Rightarrow> Inr []
      | Some (substring_start, substring_length) \<Rightarrow>
          (case (if mode = TrimRight \<or> mode = TrimBoth then trim_right_loop s (usub (length s) 1) substring_length
                 else Some substring_length) of
             None \<Rightarrow> Inr []
           | Some substring_length \<Rightarrow> substring_view s substring_start substring_length))"

fun convert_to_int_loop :: "nat \<Rightarrow> int \<Rightarrow> string \<Rightarrow> int \<Rightarrow> int option" where
  "convert_to_int_loop w sign [] v = Some v"
| "convert_to_int_loop w sign (ch # rest) v =
     (if \<not> isdigit ch then None
      else if \<not> fits_int w (v * 10) then None
      else if \<not> fits_int w (v * 10 + sign * int (digit_value ch)) then None
      else convert_to_int_loop w sign rest (v * 10 + sign * int (digit_value ch)))"

definition convert_to_int :: "nat \<Rightarrow> string \<Rightarrow> int option result" where
  "convert_to_int w str =
     and_then (trim_whitespace str TrimBoth) (\<lambda>str_trimmed. Inr (
       case str_trimmed of
         [] \<Rightarrow> None
       | ch # rest \<Rightarrow>
           if ch = CHR ''-'' \<or> ch = CHR ''+'' then
             if length str_trimmed = 1 then None
             else convert_to_int_loop w (if ch = CHR ''-'' then -1 else 1) rest 0
           else convert_to_int_loop w 1 str_trimmed 0))"

fun convert_to_uint_loop :: "nat \<Rightarrow> string \<Rightarrow> nat \<Rightarrow> nat option" where
  "convert_to_uint_loop w [] v = Some v"
| "convert_to_uint_loop w (ch # rest) v =
     (if \<not> isdigit ch then None
      else if \<not> fits_uint w (v * 10) then None
      else if \<not> fits_uint w (v * 10 + digit_value ch) then None
      else convert_to_uint_loop w rest (v * 10 + digit_value ch))"

definition convert_to_uint :: "nat \<Rightarrow> string \<Rightarrow> nat option result" where
  "convert_to_uint w str =
     and_then (trim_whitespace str TrimBoth) (\<lambda>str_trimmed.
       Inr (if str_trimmed = [] then None else convert_to_uint_loop w str_trimmed 0))"

definition hex_digit_value :: "char \<Rightarrow> nat option" where
  "hex_digit_value digit =
     (if in_range (CHR ''0'') (CHR ''9'') digit then Some (code digit - code (CHR ''0''))
      else if in_range (CHR ''a'') (CHR ''f'') digit then Some (10 + (code digit - code (CHR ''a'')))
      else if in_range (CHR ''A'') (CHR ''F'') digit then Some (10 + (code digit - code (CHR ''A'')))
      else None)"

fun convert_to_uint_from_hex_loop :: "nat \<Rightarrow> string \<Rightarrow> nat \<Rightarrow> nat option" where
  "convert_to_uint_from_hex_loop w [] v = Some v"
| "convert_to_uint_from_hex_loop w (digit # rest) v =
     (if v > (2 ^ w - 1) div 2 ^ 4 then None
      else case hex_digit_value digit of
        None \<Rightarrow> None
      | Some digit_val \<Rightarrow> convert_to_uint_from_hex_loop w rest ((v * 2 ^ 4 + digit_val) mod 2 ^ w))"

definition convert_to_uint_from_hex :: "nat \<Rightarrow> string \<Rightarrow> nat option result" where
  "convert_to_uint_from_hex w str =
     and_then (trim_whitespace str TrimBoth) (\<lambda>str_trimmed.
       Inr (if str_trimmed = [] then None else convert_to_uint_from_hex_loop w str_trimmed 0))"

definition equals_ignoring_case :: "string \<Rightarrow> string \<Rightarrow> bool" where
  "equals_ignoring_case a b =
     (if length a \<noteq> length b then False
      else list_all (\<lambda>i. to_lowercase (a ! i) = to_lowercase (b ! i)) [0..<length a])"

definition ends_with :: "string \<Rightarrow> string \<Rightarrow> case_sensitivity \<Rightarrow> bool" where
  "ends_with str end_str case_sensitivity =
     (if end_str = [] then True
      else if str = [] then False
      else if length end_str > length str then False
      else if case_sensitivity = CaseSensitive then take (length end_str) (drop (length str - length end_str) str) = end_str
      else list_all (\<lambda>ei. to_lowercase (str ! (length str - length end_str + ei)) = to_lowercase (end_str ! ei)) [0..<length end_str])"

text \<open>\<open>same\<close>: the two views begin at the same address.\<close>

definition starts_with :: "bool \<Rightarrow> string \<Rightarrow> string \<Rightarrow> case_sensitivity \<Rightarrow> bool" where
  "starts_with same str start case_sensitivity =
     (if start = [] then True
      else if str = [] then False
      else if length start > length str then False
      else if same then True
      else if case_sensitivity = CaseSensitive then take (length start) str = start
      else list_all (\<lambda>i. to_lowercase (str ! i) = to_lowercase (start ! i)) [0..<length start])"

text \<open>
  The two loops of \<open>contains\<close>: the inner one ends in a match (\<open>Inl\<close>), or with the number of characters by which
  it moves \<open>si\<close> on.
\<close>

function contains_inner :: "string \<Rightarrow> string \<Rightarrow> nat \<Rightarrow> nat \<Rightarrow> unit + nat" where
  "contains_inner str needle si ni =
     (if si + ni < length str then
        if to_lowercase (str ! (si + ni)) \<noteq> to_lowercase (needle ! ni) then Inr ni
        else if ni + 1 = length needle then Inl ()
        else contains_inner str needle si (ni + 1)
      else Inr 0)"
  by pat_completeness auto
termination by (relation "measure (\<lambda>(s, n, si, ni). length s - (si + ni))") auto

function contains_outer :: "string \<Rightarrow> string \<Rightarrow> nat \<Rightarrow> bool" where
  "contains_outer str needle si =
     (if si < length str then
        if to_lowercase (str ! si) \<noteq> to_lowercase (needle ! 0) then contains_outer str needle (si + 1)
        else case contains_inner str needle si 0 of
          Inl _ \<Rightarrow> True
        | Inr ni \<Rightarrow> contains_outer str needle (si + ni + 1)
      else False)"
  by pat_completeness auto
termination by (relation "measure (\<lambda>(s, n, si). length s - si)") auto

declare contains_inner.simps [simp del] contains_outer.simps [simp del]

text \<open>\<open>None\<close> is a null view.\<close>

definition contains :: "string option \<Rightarrow> string option \<Rightarrow> case_sensitivity \<Rightarrow> bool result" where
  "contains str needle case_sensitivity =
     (case (str, needle) of
        (Some str, Some needle) \<Rightarrow>
          if str = [] \<or> length needle > length str then Inr False
          else if needle = [] then Inr True
          else if case_sensitivity = CaseSensitive then
            and_then (memmem_optional (bytes str) (bytes needle)) (\<lambda>r. Inr (r \<noteq> None))
          else Inr (contains_outer str needle 0)
      | _ \<Rightarrow> Inr False)"

definition is_whitespace :: "string \<Rightarrow> bool" where
  "is_whitespace str = list_all isspace str"

definition find_view :: "string \<Rightarrow> string \<Rightarrow> nat option result" where
  "find_view haystack needle = memmem_optional (bytes haystack) (bytes needle)"

definition should_insert_underscore :: "string \<Rightarrow> nat \<Rightarrow> char \<Rightarrow> bool" where
  "should_insert_underscore str i current_char =
     (if i = 0 then False
      else if islower (str ! (i - 1)) \<and> isupper current_char then True
      else if length str - 1 \<le> i then False
      else isupper current_char \<and> islower (str ! (i + 1)))"

definition to_snakecase :: "string \<Rightarrow> string" where
  "to_snakecase str = concat (map (\<lambda>i.
     (if should_insert_underscore str i (str ! i) then ''_'' else []) @ [tolower (str ! i)]) [0..<length str])"

subsection \<open>Trimming\<close>

definition strip_left :: "string \<Rightarrow> string" where
  "strip_left s = dropWhile isspace s"

definition strip_right :: "string \<Rightarrow> string" where
  "strip_right s = rev (dropWhile isspace (rev s))"

lemma strip_right_append:
  assumes "\<not> isspace c" "\<forall>x \<in> set b. isspace x"
  shows "strip_right (a @ c # b) = a @ [c]"
proof -
  have "dropWhile isspace (rev b @ c # rev a) = c # rev a"
    using assms by (subst dropWhile_append2) auto
  then show ?thesis by (simp add: strip_right_def)
qed

lemma strip_right_spaces: "\<forall>x \<in> set b. isspace x \<Longrightarrow> strip_right b = []"
  by (simp add: strip_right_def)

lemma substring_view_in [simp]: "start + len \<le> length s \<Longrightarrow> substring_view s start len = Inr (take len (drop start s))"
  by (simp add: substring_view_def)

lemma trim_left_loop_spec:
  "i \<le> length s \<Longrightarrow> trim_left_loop s i i (length s - i)
     = Some (i + length (takeWhile isspace (drop i s)), length s - (i + length (takeWhile isspace (drop i s))))"
proof (induction "length s - i" arbitrary: i rule: less_induct)
  case less
  show ?case
  proof (cases "i < length s")
    case False
    then show ?thesis using less.prems by (subst trim_left_loop.simps) simp
  next
    case True
    then have d: "drop i s = s ! i # drop (Suc i) s" by (simp add: Cons_nth_drop_Suc)
    have "trim_left_loop s (Suc i) (Suc i) (length s - Suc i)
        = Some (Suc i + length (takeWhile isspace (drop (Suc i) s)), length s - (Suc i + length (takeWhile isspace (drop (Suc i) s))))"
      using True by (intro less.hyps) auto
    then show ?thesis using True by (subst trim_left_loop.simps) (simp add: d)
  qed
qed

lemma trim_right_loop_spec:
  assumes "\<not> isspace (s ! k)" "k \<le> i" "i < length s" "\<forall>j. i < j \<and> j < length s \<longrightarrow> isspace (s ! j)"
  shows "\<exists>len. trim_right_loop s i (i + 1 - k) = Some len \<and> k + len \<le> length s \<and> take len (drop k s) = strip_right (drop k s)"
  using assms
proof (induction i)
  case 0
  then have "drop k s = [] @ s ! 0 # drop 1 s" by (simp add: Cons_nth_drop_Suc)
  moreover have "\<forall>x \<in> set (drop 1 s). isspace x"
    using 0 by (auto simp: in_set_conv_nth)
  ultimately have "strip_right (drop k s) = [s ! 0]" using 0 strip_right_append[of "s ! 0" "drop 1 s" "[]"] by simp
  then show ?case using 0 by (subst trim_right_loop.simps) (auto simp: take_Suc hd_conv_nth Suc_le_eq)
next
  case (Suc i)
  show ?case
  proof (cases "isspace (s ! Suc i)")
    case True
    then have "k \<noteq> Suc i" using Suc.prems by auto
    moreover have "\<forall>j. i < j \<and> j < length s \<longrightarrow> isspace (s ! j)" using True Suc.prems by (metis Suc_lessI)
    ultimately have "\<exists>len. trim_right_loop s i (i + 1 - k) = Some len \<and> k + len \<le> length s \<and> take len (drop k s) = strip_right (drop k s)"
      using Suc by auto
    then show ?thesis using True \<open>k \<noteq> Suc i\<close> Suc.prems by (subst trim_right_loop.simps) (auto simp: Suc_diff_le)
  next
    case False
    let ?t = "drop k s" and ?n = "Suc i - k"
    have n: "?n < length ?t" using Suc.prems by simp
    have "?t = take ?n ?t @ ?t ! ?n # drop (Suc ?n) ?t" using n by (rule id_take_nth_drop)
    moreover have nth: "?t ! ?n = s ! Suc i" using Suc.prems by simp
    moreover have "\<forall>x \<in> set (drop (Suc ?n) ?t). isspace x"
      using Suc.prems by (auto simp: in_set_conv_nth)
    ultimately have "strip_right ?t = take ?n ?t @ [?t ! ?n]" using strip_right_append[of "?t ! ?n" "drop (Suc ?n) ?t" "take ?n ?t"] False by simp
    also have "\<dots> = take (Suc ?n) ?t" using n by (simp add: take_Suc_conv_app_nth)
    finally have "take (Suc i + 1 - k) ?t = strip_right ?t" using Suc.prems by (simp add: Suc_diff_le)
    then show ?thesis using False Suc.prems by (subst trim_right_loop.simps) auto
  qed
qed

lemma drop_takeWhile: "drop (length (takeWhile p s)) s = dropWhile p s"
  by (metis append_eq_conv_conj takeWhile_dropWhile_id)

lemma trim_whitespace_both:
  assumes "length s < 2 ^ 32"
  shows "trim_whitespace s TrimBoth = Inr (strip_right (strip_left s))"
proof -
  define k where "k = length (takeWhile isspace s)"
  have k: "k \<le> length s" by (simp add: k_def length_takeWhile_le)
  have left: "trim_left_loop s 0 0 (length s) = Some (k, length s - k)"
    using trim_left_loop_spec[of 0 s] by (simp add: k_def)
  have sl: "strip_left s = drop k s" by (simp add: strip_left_def k_def drop_takeWhile)
  show ?thesis
  proof (cases "k < length s")
    case False
    then have "strip_right (strip_left s) = []" using k sl by (simp add: strip_right_def)
    moreover have "trim_right_loop s i 0 = (if i > 0 then None else Some 0)" for i
      by (subst trim_right_loop.simps) simp
    ultimately show ?thesis using left False k by (simp add: trim_whitespace_def)
  next
    case True
    have "\<not> isspace (s ! k)" using True nth_length_takeWhile[of isspace s] by (simp add: k_def)
    then obtain len where "trim_right_loop s (length s - 1) (length s - 1 + 1 - k) = Some len" "k + len \<le> length s"
      "take len (drop k s) = strip_right (drop k s)"
      using trim_right_loop_spec[of s k "length s - 1"] True by (force simp: less_Suc_eq_le)
    moreover have "usub (length s) 1 = length s - 1" "length s - 1 + 1 - k = length s - k" using assms True by auto
    ultimately show ?thesis using left sl by (simp add: trim_whitespace_def)
  qed
qed

subsection \<open>Numbers\<close>

definition decimal :: "string \<Rightarrow> nat" where
  "decimal s = foldl (\<lambda>v c. v * 10 + digit_value c) 0 s"

lemma foldl_decimal_mono: "v \<le> foldl (\<lambda>v c. v * 10 + digit_value c) v s"
proof (induction s arbitrary: v)
  case (Cons c s)
  have "v \<le> v * 10 + digit_value c" by simp
  also have "\<dots> \<le> foldl (\<lambda>v c. v * 10 + digit_value c) (v * 10 + digit_value c) s" by (rule Cons)
  finally show ?case by simp
qed simp

lemma convert_to_uint_loop_spec:
  "fits_uint w v \<Longrightarrow> convert_to_uint_loop w s v =
     (let r = foldl (\<lambda>v c. v * 10 + digit_value c) v s in if list_all isdigit s \<and> fits_uint w r then Some r else None)"
proof (induction s arbitrary: v)
  case (Cons c s)
  let ?v = "v * 10 + digit_value c"
  have m: "?v \<le> foldl (\<lambda>v c. v * 10 + digit_value c) ?v s" by (rule foldl_decimal_mono)
  show ?case
  proof (cases "fits_uint w ?v")
    case True
    then have "fits_uint w (v * 10)" by (simp add: fits_uint_def)
    then show ?thesis using True Cons.IH[of ?v] by (simp add: Let_def)
  next
    case False
    then show ?thesis using m by (auto simp: fits_uint_def Let_def)
  qed
qed simp

lemma convert_to_uint_spec:
  assumes "length s < 2 ^ 32"
  shows "convert_to_uint w s = Inr (let t = strip_right (strip_left s) in
     if t \<noteq> [] \<and> list_all isdigit t \<and> fits_uint w (decimal t) then Some (decimal t) else None)"
  using convert_to_uint_loop_spec[of w 0]
  by (auto simp: convert_to_uint_def trim_whitespace_both[OF assms] Let_def decimal_def fits_uint_def)

lemma foldl_signed: "sign = 1 \<or> sign = -1 \<Longrightarrow> foldl (\<lambda>v c. v * 10 + sign * int (digit_value c)) (sign * int v) s
    = sign * int (foldl (\<lambda>v c. v * 10 + digit_value c) v s)"
proof (induction s arbitrary: v)
  case (Cons c s)
  have "sign * int v * 10 + sign * int (digit_value c) = sign * int (v * 10 + digit_value c)"
    by (simp add: algebra_simps)
  then show ?case using Cons.IH[of "v * 10 + digit_value c"] Cons.prems by simp
qed simp

lemma fits_int_smaller: "fits_int w (sign * int b) \<Longrightarrow> sign = 1 \<or> sign = -1 \<Longrightarrow> a \<le> b \<Longrightarrow> 0 < w \<Longrightarrow> fits_int w (sign * int a)"
proof -
  assume a: "fits_int w (sign * int b)" "sign = 1 \<or> sign = -1" "a \<le> b" "0 < w"
  define m where "m = (2 :: int) ^ (w - 1)"
  have "0 < m" by (simp add: m_def)
  moreover have "int a \<le> int b" "0 \<le> int a" using a by simp_all
  ultimately show ?thesis using a(1,2) unfolding fits_int_def m_def[symmetric] by (elim disjE) auto
qed

lemma convert_to_int_loop_spec:
  assumes "sign = 1 \<or> sign = -1" "0 < w"
  shows "fits_int w (sign * int v) \<Longrightarrow> convert_to_int_loop w sign s (sign * int v) =
     (let r = sign * int (foldl (\<lambda>v c. v * 10 + digit_value c) v s) in
      if list_all isdigit s \<and> fits_int w r then Some r else None)"
proof (induction s arbitrary: v)
  case (Cons c s)
  let ?v = "v * 10 + digit_value c"
  have e: "sign * int v * 10 = sign * int (v * 10)" "sign * int (v * 10) + sign * int (digit_value c) = sign * int ?v"
    by (simp_all add: algebra_simps)
  have m: "?v \<le> foldl (\<lambda>v c. v * 10 + digit_value c) ?v s" by (rule foldl_decimal_mono)
  show ?case
  proof (cases "fits_int w (sign * int ?v)")
    case True
    then have "fits_int w (sign * int (v * 10))" using assms fits_int_smaller[of w sign ?v "v * 10"] by simp
    then show ?thesis using True Cons.IH[OF True] unfolding convert_to_int_loop.simps e by (simp add: Let_def)
  next
    case False
    then have "\<not> fits_int w (sign * int (foldl (\<lambda>v c. v * 10 + digit_value c) ?v s))"
      using assms m fits_int_smaller by blast
    then show ?thesis using False unfolding convert_to_int_loop.simps e by (simp add: Let_def)
  qed
qed simp

text \<open>What a decimal integer denotes: an optional sign and digits.\<close>

definition signed_decimal :: "string \<Rightarrow> int option" where
  "signed_decimal t =
     (case t of
        [] \<Rightarrow> None
      | c # ds \<Rightarrow>
          if c = CHR ''-'' \<or> c = CHR ''+'' then
            if ds \<noteq> [] \<and> list_all isdigit ds then Some ((if c = CHR ''-'' then -1 else 1) * int (decimal ds)) else None
          else if list_all isdigit t then Some (int (decimal t)) else None)"

lemma convert_to_int_spec:
  assumes "length s < 2 ^ 32" "0 < w"
  shows "convert_to_int w s = Inr (case signed_decimal (strip_right (strip_left s)) of
     None \<Rightarrow> None | Some v \<Rightarrow> if fits_int w v then Some v else None)"
proof -
  let ?t = "strip_right (strip_left s)"
  have z: "fits_int w 0" by (simp add: fits_int_def)
  have p: "convert_to_int_loop w 1 u 0 = (if list_all isdigit u \<and> fits_int w (int (decimal u)) then Some (int (decimal u)) else None)"
    and n: "convert_to_int_loop w (-1) u 0 = (if list_all isdigit u \<and> fits_int w (- int (decimal u)) then Some (- int (decimal u)) else None)" for u
    using convert_to_int_loop_spec[of 1 w 0 u] convert_to_int_loop_spec[of "-1" w 0 u] assms z by (simp_all add: Let_def decimal_def)
  have "convert_to_int w s = Inr (case ?t of [] \<Rightarrow> None | ch # rest \<Rightarrow>
       if ch = CHR ''-'' \<or> ch = CHR ''+'' then if length ?t = 1 then None else convert_to_int_loop w (if ch = CHR ''-'' then -1 else 1) rest 0
       else convert_to_int_loop w 1 ?t 0)"
    by (simp add: convert_to_int_def trim_whitespace_both[OF assms(1)])
  also have "\<dots> = Inr (case signed_decimal ?t of None \<Rightarrow> None | Some v \<Rightarrow> if fits_int w v then Some v else None)"
    by (auto simp: signed_decimal_def p n simp del: convert_to_int_loop.simps split: list.splits)
  finally show ?thesis .
qed

subsection \<open>Splitting\<close>

text \<open>Splitting in one pass over the characters: \<open>cur\<close> is the part read so far.\<close>

fun split_parts :: "(char \<Rightarrow> bool) \<Rightarrow> string \<Rightarrow> string \<Rightarrow> string list" where
  "split_parts p [] cur = [cur]"
| "split_parts p (c # cs) cur = (if p c then cur # split_parts p cs [] else split_parts p cs (cur @ [c]))"

fun join :: "char \<Rightarrow> string list \<Rightarrow> string" where
  "join sep [] = []"
| "join sep [x] = x"
| "join sep (x # y # xs) = x @ sep # join sep (y # xs)"

lemma split_parts_nonempty: "split_parts p s cur \<noteq> []"
  by (induction s arbitrary: cur) simp_all

lemma join_split_parts: "join sep (split_parts (\<lambda>ch. ch = sep) s cur) = cur @ s"
proof (induction s arbitrary: cur)
  case (Cons c s)
  have "join sep (cur # split_parts (\<lambda>ch. ch = sep) s []) = cur @ sep # join sep (split_parts (\<lambda>ch. ch = sep) s [])"
    using split_parts_nonempty[of "\<lambda>ch. ch = sep" s "[]"] by (cases "split_parts (\<lambda>ch. ch = sep) s []") auto
  with Cons show ?case by simp
qed simp

lemma split_parts_free: "\<forall>c \<in> set cur. \<not> p c \<Longrightarrow> \<forall>x \<in> set (split_parts p s cur). \<forall>c \<in> set x. \<not> p c"
proof (induction s arbitrary: cur)
  case (Cons c s)
  have "\<forall>x \<in> set (split_parts p s []). \<forall>c \<in> set x. \<not> p c" by (rule Cons.IH) simp
  moreover have "\<not> p c \<Longrightarrow> \<forall>x \<in> set (split_parts p s (cur @ [c])). \<forall>c \<in> set x. \<not> p c"
    by (rule Cons.IH) (use Cons.prems in simp)
  ultimately show ?case using Cons.prems by simp
qed simp

lemma split_parts_run: "\<forall>c \<in> set x. \<not> p c \<Longrightarrow> split_parts p (x @ s) cur = split_parts p s (cur @ x)"
  by (induction x arbitrary: cur) simp_all

lemma split_parts_join:
  "parts \<noteq> [] \<Longrightarrow> \<forall>part \<in> set parts. sep \<notin> set part \<Longrightarrow> split_parts (\<lambda>ch. ch = sep) (join sep parts) [] = parts"
proof (induction sep parts rule: join.induct)
  case (2 sep x)
  then have "split_parts (\<lambda>ch. ch = sep) (x @ []) [] = split_parts (\<lambda>ch. ch = sep) [] ([] @ x)"
    by (intro split_parts_run) auto
  then show ?case by simp
next
  case (3 sep x y xs)
  have "split_parts (\<lambda>ch. ch = sep) (x @ sep # join sep (y # xs)) [] = split_parts (\<lambda>ch. ch = sep) (sep # join sep (y # xs)) ([] @ x)"
    by (rule split_parts_run) (use 3(3) in auto)
  then show ?case using 3 by simp
qed simp

definition kept :: "bool \<Rightarrow> string list \<Rightarrow> string list" where
  "kept keep_empty parts = filter (\<lambda>x. keep_empty \<or> x \<noteq> []) parts"

lemma split_view_loop_spec:
  "substart \<le> i \<Longrightarrow> i \<le> length s \<Longrightarrow> split_view_loop s p keep_empty i substart v
    = Inr (v @ kept keep_empty (split_parts p (drop i s) (take (i - substart) (drop substart s))))"
proof (induction "length s - i" arbitrary: i substart v rule: less_induct)
  case less
  let ?cur = "take (i - substart) (drop substart s)"
  show ?case
  proof (cases "i < length s")
    case False
    then have "i = length s" using less.prems by simp
    then show ?thesis using less.prems by (subst split_view_loop.simps) (auto simp: kept_def)
  next
    case True
    then have d: "drop i s = s ! i # drop (Suc i) s" by (simp add: Cons_nth_drop_Suc)
    have c: "take (Suc i - substart) (drop substart s) = ?cur @ [s ! i]"
      using True less.prems by (simp add: Suc_diff_le take_Suc_conv_app_nth)
    have e: "?cur = [] \<longleftrightarrow> i = substart" using True less.prems by auto
    have A: "split_view_loop s p keep_empty (Suc i) (Suc i) u = Inr (u @ kept keep_empty (split_parts p (drop (Suc i) s) []))" for u
      using less.hyps[of "Suc i" "Suc i" u] True by simp
    have B: "split_view_loop s p keep_empty (Suc i) substart u
        = Inr (u @ kept keep_empty (split_parts p (drop (Suc i) s) (?cur @ [s ! i])))" for u
      using less.hyps[of "Suc i" substart u] True less.prems unfolding c by simp
    show ?thesis
    proof (cases "p (s ! i)")
      case True
      then show ?thesis using \<open>i < length s\<close> less.prems e A[unfolded kept_def]
        by (cases keep_empty; subst split_view_loop.simps) (simp_all add: d kept_def)
    next
      case False
      then show ?thesis using \<open>i < length s\<close> by (subst split_view_loop.simps) (simp add: d B)
    qed
  qed
qed

lemma split_view_spec:
  "split_view s sep keep_empty = Inr (if s = [] then [] else kept keep_empty (split_parts (\<lambda>ch. ch = sep) s []))"
  by (simp add: split_view_def split_view_if_def split_view_loop_spec)

text \<open>
  \<open>split_view\<close> returns the parts of a string between the separators: joined by the separator they are the string
  again, none of them contains the separator, and without \<open>keep_empty\<close> the result is these parts less the empty ones.
\<close>

theorem split_view_correct:
  assumes "s \<noteq> []"
  shows "\<exists>parts. split_view s sep True = Inr parts \<and> join sep parts = s
    \<and> list_all (\<lambda>part. sep \<notin> set part) parts \<and> split_view s sep False = Inr (filter (\<lambda>part. part \<noteq> []) parts)"
  using assms split_parts_free[of "[]" "\<lambda>ch. ch = sep" s]
  by (auto simp: split_view_spec kept_def join_split_parts list_all_iff)

theorem split_view_correct_witness:
  "\<exists>parts. split_view ''/usr//bin'' (CHR ''/'') True = Inr parts \<and> join (CHR ''/'') parts = ''/usr//bin''
    \<and> list_all (\<lambda>part. CHR ''/'' \<notin> set part) parts \<and> split_view ''/usr//bin'' (CHR ''/'') False = Inr (filter (\<lambda>part. part \<noteq> []) parts)"
  by (rule split_view_correct) simp

subsection \<open>Searching\<close>

lemma of_char_word_inj: "(of_char a :: u8) = of_char b \<longleftrightarrow> a = b"
proof
  assume "(of_char a :: u8) = of_char b"
  then have "unat (of_char a :: u8) = unat (of_char b :: u8)" by simp
  then have "code a = code b" by (simp only: unat_of_char)
  then show "a = b" by (simp add: of_char_eq_iff)
qed simp

lemma bytes_eq_iff: "bytes a = bytes b \<longleftrightarrow> a = b"
  unfolding bytes_def by (rule inj_map_eq_map) (simp add: inj_def of_char_word_inj)

lemma occurs_bytes: "occurs (bytes n) (bytes h) s \<longleftrightarrow> (\<exists>before after. h = before @ n @ after \<and> length before = s)"
proof
  assume "occurs (bytes n) (bytes h) s"
  then have "s + length n \<le> length h" "bytes (take (length n) (drop s h)) = bytes n"
    by (simp_all add: occurs_iff_take bytes_def take_map drop_map)
  then have "take (length n) (drop s h) = n" by (simp add: bytes_eq_iff)
  then have "h = take s h @ n @ drop (length n) (drop s h)" by (metis append_take_drop_id)
  then show "\<exists>before after. h = before @ n @ after \<and> length before = s"
    using \<open>s + length n \<le> length h\<close> by (metis add_leD1 length_take min.absorb2)
qed (auto simp: occurs_iff_take bytes_def)

text \<open>
  \<open>contains\<close>, case-sensitive and with a needle that is not empty and not 31 characters long, is true exactly when
  the needle is somewhere in the string.
\<close>

theorem contains_sensitive:
  assumes "needle \<noteq> []" "length needle \<noteq> 31"
  shows "contains (Some str) (Some needle) CaseSensitive = Inr (\<exists>before after. str = before @ needle @ after)"
proof (cases "str = [] \<or> length needle > length str")
  case True
  then have "\<not> (\<exists>before after. str = before @ needle @ after)" using assms by auto
  then show ?thesis using True by (auto simp: contains_def)
next
  case False
  obtain r where r: "memmem_optional (bytes str) (bytes needle) = Inr r" "first_match (bytes needle) (bytes str) r"
    using memmem_spec[of "bytes needle" "bytes str"] assms by (auto simp: bytes_def)
  then have "r \<noteq> None \<longleftrightarrow> (\<exists>s. occurs (bytes needle) (bytes str) s)"
    by (cases r) (auto simp: first_match_def)
  then show ?thesis using r False assms by (auto simp: contains_def occurs_bytes)
qed

theorem contains_sensitive_witness:
  "contains (Some ''aab'') (Some ''ab'') CaseSensitive = Inr (\<exists>before after. ''aab'' = before @ ''ab'' @ after)"
  by (rule contains_sensitive) simp_all

text \<open>
  Ignoring case, \<open>contains\<close> misses matches: after a partial match it goes on behind the character that broke it,
  so \<open>xy\<close> is not found in \<open>xxy\<close>, whatever the two letters.
\<close>

theorem contains_insensitive_misses:
  assumes "to_lowercase x \<noteq> to_lowercase y"
  shows "contains (Some [x, x, y]) (Some [x, y]) CaseInsensitive = Inr False"
proof -
  have "contains_inner [x, x, y] [x, y] 0 0 = Inr 1"
    using assms by (simp add: contains_inner.simps)
  then have "contains_outer [x, x, y] [x, y] 0 = False"
    using assms by (simp add: contains_outer.simps[of _ _ 0] contains_outer.simps[of _ _ "Suc (Suc 0)"] contains_outer.simps[of _ _ "Suc (Suc (Suc 0))"] contains_outer.simps)
  then show ?thesis by (simp add: contains_def)
qed

theorem contains_insensitive_misses_witness:
  "contains (Some ''aaB'') (Some ''aB'') CaseInsensitive = Inr False"
  by (rule contains_insensitive_misses) code_simp

text \<open>
  C37: on any string shorter than the address space, \<open>convert_to_int\<close> removes the white space around the number and
  returns the integer that an optional sign and decimal digits denote, when it fits the type, and nothing otherwise.
\<close>

theorem convert_to_int_correct:
  assumes "length s < 2 ^ 32" "0 < w"
  shows "convert_to_int w s = Inr (case signed_decimal (strip_right (strip_left s)) of
     None \<Rightarrow> None | Some v \<Rightarrow> if fits_int w v then Some v else None)"
  by (rule convert_to_int_spec[OF assms])

theorem convert_to_int_correct_witness:
  "convert_to_int 8 '' -128 '' = Inr (case signed_decimal (strip_right (strip_left '' -128 '')) of
     None \<Rightarrow> None | Some v \<Rightarrow> if fits_int 8 v then Some v else None)"
  by (rule convert_to_int_correct) simp_all

lemma trim_right_spaces: "\<forall>j \<le> i. 0 < j \<longrightarrow> isspace (s ! j) \<Longrightarrow> i < n \<Longrightarrow> trim_right_loop s i n = Some (n - i)"
proof (induction i arbitrary: n)
  case (Suc i)
  then show ?case by (subst trim_right_loop.simps) simp
qed (simp add: trim_right_loop.simps)

text \<open>
  Trimming on the right never looks at the first character: what is left of a string of white space is one
  character of it, not the empty string.
\<close>

theorem trim_right_leaves_one:
  assumes "list_all isspace s" "s \<noteq> []" "length s < 2 ^ 32"
  shows "trim_whitespace s TrimRight = Inr [hd s]"
proof -
  have "trim_right_loop s (length s - 1) (length s) = Some (length s - (length s - 1))"
    using assms by (intro trim_right_spaces) (auto simp: list_all_length Suc_le_eq)
  moreover have "length s - (length s - 1) = 1" "usub (length s) 1 = length s - 1"
    using assms by (auto simp: Suc_le_eq)
  ultimately show ?thesis using assms by (cases s) (auto simp: trim_whitespace_def)
qed

theorem trim_right_leaves_one_witness: "trim_whitespace ''   '' TrimRight = Inr [hd ''   '']"
  by (rule trim_right_leaves_one) (simp_all add: isspace_def)

subsection \<open>Lines\<close>

lemma lines_loop_plain:
  assumes "\<forall>j. i \<le> j \<and> j < k \<longrightarrow> s ! j \<noteq> CHR 0x0A \<and> s ! j \<noteq> CHR 0x0D" "k \<le> length s" "i \<le> k"
  shows "lines_loop s i substart cr v = lines_loop s k substart cr v"
  using assms
proof (induction "k - i" arbitrary: i)
  case (Suc m)
  have "lines_loop s (Suc i) substart cr v = lines_loop s k substart cr v"
    by (rule Suc.hyps(1)) (use Suc.hyps(2) Suc.prems in auto)
  moreover have "i < length s" "s ! i \<noteq> CHR 0x0A" "s ! i \<noteq> CHR 0x0D" using Suc.hyps(2) Suc.prems by auto
  ultimately show ?case by (subst lines_loop.simps) simp
qed simp

text \<open>
  \<open>lines\<close> loses the line between a carriage return and the next line feed: it still takes the two for one line
  ending, because \<open>last_ch_was_cr\<close> is never cleared by an ordinary character.
\<close>

theorem lines_loses_line:
  assumes "list_all (\<lambda>ch. ch \<noteq> CHR 0x0A \<and> ch \<noteq> CHR 0x0D) (a @ b @ c)" "c \<noteq> []"
  shows "lines (a @ [CHR 0x0D] @ b @ [CHR 0x0A] @ c) True = Inr [a, c]"
proof -
  let ?s = "a @ [CHR 0x0D] @ b @ [CHR 0x0A] @ c"
  have n: "ch \<in> set (a @ b @ c) \<Longrightarrow> ch \<noteq> CHR 0x0A \<and> ch \<noteq> CHR 0x0D" for ch using assms by (auto simp: list_all_iff)
  have 1: "lines_loop ?s 0 0 False [] = lines_loop ?s (length a) 0 False []"
    by (rule lines_loop_plain) (use n in \<open>auto simp: nth_append\<close>)
  have 2: "lines_loop ?s (length a) 0 False [] = lines_loop ?s (Suc (length a)) (Suc (length a)) True [a]"
    by (subst lines_loop.simps) (simp add: nth_append)
  have 3: "lines_loop ?s (Suc (length a)) (Suc (length a)) True [a] = lines_loop ?s (Suc (length a) + length b) (Suc (length a)) True [a]"
  proof (rule lines_loop_plain)
    show "\<forall>j. Suc (length a) \<le> j \<and> j < Suc (length a) + length b \<longrightarrow> ?s ! j \<noteq> CHR 0x0A \<and> ?s ! j \<noteq> CHR 0x0D"
    proof (intro allI impI)
      fix j assume j: "Suc (length a) \<le> j \<and> j < Suc (length a) + length b"
      have "?s ! j = ((a @ [CHR 0x0D]) @ b @ [CHR 0x0A] @ c) ! j" by simp
      also have "\<dots> = (b @ [CHR 0x0A] @ c) ! (j - Suc (length a))" using j by (subst nth_append_right) auto
      also have "\<dots> = b ! (j - Suc (length a))" using j by (subst nth_append_left) auto
      finally have "?s ! j = b ! (j - Suc (length a))" .
      moreover have "b ! (j - Suc (length a)) \<in> set b" using j by (intro nth_mem) auto
      ultimately show "?s ! j \<noteq> CHR 0x0A \<and> ?s ! j \<noteq> CHR 0x0D" using n by simp
    qed
  qed auto
  let ?k = "Suc (length a) + length b"
  have 4: "lines_loop ?s ?k (Suc (length a)) True [a] = lines_loop ?s (Suc ?k) (Suc ?k) False [a]"
    by (subst lines_loop.simps) (simp add: nth_append)
  have 5: "lines_loop ?s (Suc ?k) (Suc ?k) False [a] = lines_loop ?s (length ?s) (Suc ?k) False [a]"
  proof (rule lines_loop_plain)
    show "\<forall>j. Suc ?k \<le> j \<and> j < length ?s \<longrightarrow> ?s ! j \<noteq> CHR 0x0A \<and> ?s ! j \<noteq> CHR 0x0D"
    proof (intro allI impI)
      fix j assume j: "Suc ?k \<le> j \<and> j < length ?s"
      have "?s ! j = ((a @ [CHR 0x0D] @ b @ [CHR 0x0A]) @ c) ! j" by simp
      also have "\<dots> = c ! (j - Suc ?k)" using j by (subst nth_append_right) auto
      finally have "?s ! j = c ! (j - Suc ?k)" .
      moreover have "c ! (j - Suc ?k) \<in> set c" using j by (intro nth_mem) auto
      ultimately show "?s ! j \<noteq> CHR 0x0A \<and> ?s ! j \<noteq> CHR 0x0D" using n by simp
    qed
  qed auto
  have 6: "lines_loop ?s (length ?s) (Suc ?k) False [a] = Inr [a, c]"
    using assms(2) by (subst lines_loop.simps) simp
  show ?thesis using 1 2 3 4 5 6 by (simp add: lines_def)
qed

theorem lines_loses_line_witness: "lines (''x'' @ [CHR 0x0D] @ ''y'' @ [CHR 0x0A] @ ''z'') True = Inr [''x'', ''z'']"
  by (rule lines_loses_line) simp_all

end
