(* ===== verification/AK_GenericLexer.thy ===== *)
theory AK_GenericLexer
  imports AK_StringUtils
begin

text \<open>
  \<open>AK/GenericLexer.h\<close> and \<open>.cpp\<close>: the state of a lexer, an input and a position in it, and every operation on it. The
  operations are described by what they take of the unread input; each moves the position on by what it took and
  keeps it inside the input.
\<close>

subsection \<open>State and single characters\<close>

record lexer =
  m_input :: string
  m_index :: nat

definition make_lexer :: "string \<Rightarrow> lexer" where
  "make_lexer s = \<lparr>m_input = s, m_index = 0\<rparr>"

definition tell_remaining :: "lexer \<Rightarrow> nat" where
  "tell_remaining lx = usub (length (m_input lx)) (m_index lx)"

definition lexer_remaining :: "lexer \<Rightarrow> string result" where
  "lexer_remaining lx = substring_view_from (m_input lx) (m_index lx)"

definition is_eof :: "lexer \<Rightarrow> bool" where
  "is_eof lx \<longleftrightarrow> length (m_input lx) \<le> m_index lx"

definition peek :: "lexer \<Rightarrow> nat \<Rightarrow> char" where
  "peek lx offset = (if m_index lx + offset < length (m_input lx) then m_input lx ! (m_index lx + offset) else CHR 0x00)"

definition next_is :: "lexer \<Rightarrow> char \<Rightarrow> bool" where
  "next_is lx expected \<longleftrightarrow> peek lx 0 = expected"

definition next_is_view :: "lexer \<Rightarrow> string \<Rightarrow> bool" where
  "next_is_view lx expected = list_all (\<lambda>i. peek lx i = expected ! i) [0..<length expected]"

definition next_is_pred :: "lexer \<Rightarrow> (char \<Rightarrow> bool) \<Rightarrow> bool" where
  "next_is_pred lx pred = pred (peek lx 0)"

definition retreat :: "lexer \<Rightarrow> lexer result" where
  "retreat lx = and_then (verify (m_index lx > 0)) (\<lambda>_. Inr (lx\<lparr>m_index := m_index lx - 1\<rparr>))"

definition consume :: "lexer \<Rightarrow> (char \<times> lexer) result" where
  "consume lx = and_then (verify (\<not> is_eof lx)) (\<lambda>_. Inr (m_input lx ! m_index lx, lx\<lparr>m_index := m_index lx + 1\<rparr>))"

text \<open>\<open>min(count, m_input.length() - m_index)\<close>; past the end of the input the difference wraps around.\<close>

definition clip :: "lexer \<Rightarrow> nat \<Rightarrow> nat" where
  "clip lx count = (if m_index lx \<le> length (m_input lx) then min count (length (m_input lx) - m_index lx) else count)"

definition ignore :: "lexer \<Rightarrow> nat \<Rightarrow> lexer" where
  "ignore lx count = lx\<lparr>m_index := m_index lx + clip lx count\<rparr>"

definition consume_specific :: "lexer \<Rightarrow> char \<Rightarrow> bool \<times> lexer" where
  "consume_specific lx next = (if \<not> next_is lx next then (False, lx) else (True, ignore lx 1))"

definition consume_specific_view :: "lexer \<Rightarrow> string \<Rightarrow> bool \<times> lexer" where
  "consume_specific_view lx next = (if \<not> next_is_view lx next then (False, lx) else (True, ignore lx (length next)))"

text \<open>The map is a string of pairs, an escaped character and what it stands for.\<close>

fun escape_lookup :: "string \<Rightarrow> char \<Rightarrow> char" where
  "escape_lookup (k # v # rest) c = (if c = k then v else escape_lookup rest c)"
| "escape_lookup _ c = c"

definition default_escape_map :: string where
  "default_escape_map = [CHR ''n'', CHR 0x0A, CHR ''r'', CHR 0x0D, CHR ''t'', CHR 0x09, CHR ''b'', CHR 0x08, CHR ''f'', CHR 0x0C]"

definition consume_escaped_character :: "lexer \<Rightarrow> char \<Rightarrow> string \<Rightarrow> (char \<times> lexer) result" where
  "consume_escaped_character lx escape_char escape_map =
     (case consume_specific lx escape_char of
        (False, lx) \<Rightarrow> consume lx
      | (True, lx) \<Rightarrow> and_then (consume lx) (\<lambda>(c, lx). Inr (escape_lookup escape_map c, lx)))"

subsection \<open>Runs of characters\<close>

text \<open>The loop \<open>while (!is_eof() && cond) ++m_index\<close> that most operations begin with.\<close>

function advance_while :: "(lexer \<Rightarrow> bool) \<Rightarrow> lexer \<Rightarrow> lexer" where
  "advance_while cond lx =
     (if \<not> is_eof lx \<and> cond lx then advance_while cond (lx\<lparr>m_index := m_index lx + 1\<rparr>) else lx)"
  by pat_completeness auto
termination
  by (relation "measure (\<lambda>(cond, lx). length (m_input lx) - m_index lx)") (auto simp: is_eof_def)

declare advance_while.simps [simp del]

text \<open>The view between two positions; an empty one is the null view, \<open>None\<close>.\<close>

definition view_from :: "nat \<Rightarrow> nat \<Rightarrow> lexer \<Rightarrow> (string option \<times> lexer) result" where
  "view_from start len lx =
     (if len = 0 then Inr (None, lx) else and_then (substring_view (m_input lx) start len) (\<lambda>v. Inr (Some v, lx)))"

definition consume_count :: "lexer \<Rightarrow> nat \<Rightarrow> (string option \<times> lexer) result" where
  "consume_count lx count =
     (if count = 0 then Inr (None, lx)
      else
        let start = m_index lx; len = clip lx count in
        and_then (substring_view (m_input lx) start len) (\<lambda>v. Inr (Some v, lx\<lparr>m_index := m_index lx + len\<rparr>)))"

definition consume_all :: "lexer \<Rightarrow> (string option \<times> lexer) result" where
  "consume_all lx =
     (if is_eof lx then Inr (None, lx)
      else and_then (substring_view (m_input lx) (m_index lx) (length (m_input lx) - m_index lx)) (\<lambda>rest.
        Inr (Some rest, lx\<lparr>m_index := length (m_input lx)\<rparr>)))"

definition consume_line :: "lexer \<Rightarrow> (string option \<times> lexer) result" where
  "consume_line lx =
     (let start = m_index lx;
          lx = advance_while (\<lambda>lx. peek lx 0 \<noteq> CHR 0x0D \<and> peek lx 0 \<noteq> CHR 0x0A) lx;
          len = m_index lx - start;
          lx = snd (consume_specific lx (CHR 0x0D));
          lx = snd (consume_specific lx (CHR 0x0A)) in
      view_from start len lx)"

definition consume_until :: "lexer \<Rightarrow> char \<Rightarrow> (string option \<times> lexer) result" where
  "consume_until lx stop =
     (let start = m_index lx;
          lx = advance_while (\<lambda>lx. peek lx 0 \<noteq> stop) lx;
          len = m_index lx - start in
      view_from start len (ignore lx 1))"

definition consume_until_view :: "lexer \<Rightarrow> string \<Rightarrow> (string option \<times> lexer) result" where
  "consume_until_view lx stop =
     (let start = m_index lx;
          lx = advance_while (\<lambda>lx. \<not> next_is_view lx stop) lx;
          len = m_index lx - start in
      view_from start len (ignore lx (length stop)))"

definition is_any_of :: "string \<Rightarrow> char \<Rightarrow> bool" where
  "is_any_of values c = contains_char values c"

definition is_quote :: "char \<Rightarrow> bool" where
  "is_quote = is_any_of [CHR 0x27, CHR 0x22]"

definition is_path_separator :: "char \<Rightarrow> bool" where
  "is_path_separator = is_any_of [CHR ''/'', CHR 0x5C]"

function quoted_loop :: "char \<Rightarrow> char \<Rightarrow> lexer \<Rightarrow> lexer" where
  "quoted_loop quote_char escape_char lx =
     (if \<not> is_eof lx then
        if next_is lx escape_char then quoted_loop quote_char escape_char (lx\<lparr>m_index := m_index lx + 2\<rparr>)
        else if next_is lx quote_char then lx
        else quoted_loop quote_char escape_char (lx\<lparr>m_index := m_index lx + 1\<rparr>)
      else lx)"
  by pat_completeness auto
termination
  by (relation "measure (\<lambda>(q, e, lx). length (m_input lx) - m_index lx)") (auto simp: is_eof_def)

declare quoted_loop.simps [simp del]

definition consume_quoted_string :: "lexer \<Rightarrow> char \<Rightarrow> (string option \<times> lexer) result" where
  "consume_quoted_string lx escape_char =
     (if \<not> next_is_pred lx is_quote then Inr (None, lx)
      else and_then (consume lx) (\<lambda>(quote_char, lx).
        let start = m_index lx;
            lx = quoted_loop quote_char escape_char lx;
            len = m_index lx - start in
        if peek lx 0 \<noteq> quote_char then Inr (None, lx\<lparr>m_index := start - 1\<rparr>)
        else and_then (substring_view (m_input lx) start len) (\<lambda>v. Inr (Some v, ignore lx 1))))"

fun unescape_loop :: "nat \<Rightarrow> char \<Rightarrow> lexer \<Rightarrow> string \<Rightarrow> (string \<times> lexer) result" where
  "unescape_loop 0 escape_char lx builder = Inr (builder, lx)"
| "unescape_loop (Suc n) escape_char lx builder =
     and_then (consume_escaped_character lx escape_char default_escape_map) (\<lambda>(c, lx).
       unescape_loop n escape_char lx (builder @ [c]))"

definition lexer_consume_and_unescape_string :: "lexer \<Rightarrow> char \<Rightarrow> (string option \<times> lexer) result" where
  "lexer_consume_and_unescape_string lx escape_char =
     and_then (consume_quoted_string lx escape_char) (\<lambda>(view, lx).
       case view of
         None \<Rightarrow> Inr (None, lx)
       | Some v \<Rightarrow> and_then (unescape_loop (length v) escape_char lx []) (\<lambda>(builder, lx). Inr (Some builder, lx)))"

definition ignore_until :: "lexer \<Rightarrow> char \<Rightarrow> lexer" where
  "ignore_until lx stop = ignore (advance_while (\<lambda>lx. peek lx 0 \<noteq> stop) lx) 1"

definition ignore_until_view :: "lexer \<Rightarrow> string \<Rightarrow> lexer" where
  "ignore_until_view lx stop = ignore (advance_while (\<lambda>lx. \<not> next_is_view lx stop) lx) (length stop)"

definition consume_while :: "lexer \<Rightarrow> (char \<Rightarrow> bool) \<Rightarrow> (string option \<times> lexer) result" where
  "consume_while lx pred =
     (let start = m_index lx; lx = advance_while (\<lambda>lx. pred (peek lx 0)) lx in view_from start (m_index lx - start) lx)"

definition consume_until_pred :: "lexer \<Rightarrow> (char \<Rightarrow> bool) \<Rightarrow> (string option \<times> lexer) result" where
  "consume_until_pred lx pred =
     (let start = m_index lx; lx = advance_while (\<lambda>lx. \<not> pred (peek lx 0)) lx in view_from start (m_index lx - start) lx)"

definition ignore_while :: "lexer \<Rightarrow> (char \<Rightarrow> bool) \<Rightarrow> lexer" where
  "ignore_while lx pred = advance_while (\<lambda>lx. pred (peek lx 0)) lx"

definition ignore_until_pred :: "lexer \<Rightarrow> (char \<Rightarrow> bool) \<Rightarrow> lexer" where
  "ignore_until_pred lx pred = advance_while (\<lambda>lx. \<not> pred (peek lx 0)) lx"

subsection \<open>The position stays inside the input\<close>

definition lexer_inv :: "lexer \<Rightarrow> bool" where
  "lexer_inv lx \<longleftrightarrow> m_index lx \<le> length (m_input lx) \<and> length (m_input lx) < 2 ^ 32"

text \<open>What is left to read; the operations are described by what they take from it.\<close>

definition unread :: "lexer \<Rightarrow> string" where
  "unread lx = drop (m_index lx) (m_input lx)"

text \<open>\<open>moved lx n lx'\<close>: the operation went \<open>n\<close> characters on, and no further than the end.\<close>

definition moved :: "lexer \<Rightarrow> nat \<Rightarrow> lexer \<Rightarrow> bool" where
  "moved lx n lx' \<longleftrightarrow> m_input lx' = m_input lx \<and> m_index lx' = m_index lx + n \<and> n \<le> length (unread lx)"

lemma moved_0 [simp]: "moved lx 0 lx"
  by (simp add: moved_def)

lemma moved_trans: "moved a n b \<Longrightarrow> moved b m c \<Longrightarrow> moved a (n + m) c"
  by (auto simp: moved_def unread_def)

lemma moved_inv: "moved lx n lx' \<Longrightarrow> lexer_inv lx \<Longrightarrow> lexer_inv lx'"
  by (auto simp: moved_def lexer_inv_def unread_def)

lemma moved_unread: "moved lx n lx' \<Longrightarrow> unread lx' = drop n (unread lx)"
  by (simp add: moved_def unread_def add.commute)

lemma is_eof_unread: "is_eof lx \<longleftrightarrow> unread lx = []"
  by (simp add: is_eof_def unread_def)

lemma peek_unread: "peek lx k = (if k < length (unread lx) then unread lx ! k else CHR 0x00)"
  by (auto simp: peek_def unread_def add.commute)

lemma consume_spec: "unread lx \<noteq> [] \<Longrightarrow> consume lx = Inr (hd (unread lx), lx\<lparr>m_index := m_index lx + 1\<rparr>) \<and> moved lx 1 (lx\<lparr>m_index := m_index lx + 1\<rparr>)"
  by (auto simp: consume_def is_eof_unread moved_def unread_def hd_drop_conv_nth Suc_le_eq)

lemma consume_eof: "unread lx = [] \<Longrightarrow> consume lx = Inl VerifyFailed"
  by (simp add: consume_def is_eof_unread verify_def)

lemma ignore_moved: "lexer_inv lx \<Longrightarrow> moved lx (min n (length (unread lx))) (ignore lx n)"
  by (simp add: moved_def ignore_def clip_def unread_def lexer_inv_def)

lemma advance_while_spec:
  "lexer_inv lx \<Longrightarrow> \<exists>n. moved lx n (advance_while cond lx)
     \<and> (\<forall>k < n. cond (lx\<lparr>m_index := m_index lx + k\<rparr>))
     \<and> (is_eof (advance_while cond lx) \<or> \<not> cond (advance_while cond lx))"
proof (induction "length (unread lx)" arbitrary: lx rule: less_induct)
  case less
  show ?case
  proof (cases "\<not> is_eof lx \<and> cond lx")
    case False
    then show ?thesis by (subst (1 2 3) advance_while.simps) (intro exI[of _ 0], auto)
  next
    case True
    let ?lx = "lx\<lparr>m_index := m_index lx + 1\<rparr>"
    have m: "moved lx 1 ?lx" using True by (auto simp: moved_def unread_def is_eof_def)
    have "length (unread ?lx) < length (unread lx)" using True by (auto simp: unread_def is_eof_def)
    then obtain n where n: "moved ?lx n (advance_while cond ?lx)" "\<forall>k < n. cond (?lx\<lparr>m_index := m_index ?lx + k\<rparr>)"
      "is_eof (advance_while cond ?lx) \<or> \<not> cond (advance_while cond ?lx)"
      using less moved_inv[OF m] by blast
    have e: "advance_while cond lx = advance_while cond ?lx" using True by (subst advance_while.simps) simp
    have "cond (lx\<lparr>m_index := m_index lx + k\<rparr>)" if k: "k < 1 + n" for k
      using n(2)[rule_format, of "k - 1"] True k by (cases k) auto
    then show ?thesis using moved_trans[OF m n(1)] n(3) e by (intro exI[of _ "1 + n"]) simp
  qed
qed

text \<open>The loops that test one character stop at the first one that fails the test.\<close>

lemma advance_while_char:
  assumes "lexer_inv lx"
  shows "moved lx (length (takeWhile pred (unread lx))) (advance_while (\<lambda>lx. pred (peek lx 0)) lx)"
proof -
  let ?cond = "\<lambda>lx. pred (peek lx 0)"
  obtain n where n: "moved lx n (advance_while ?cond lx)" "\<forall>k < n. ?cond (lx\<lparr>m_index := m_index lx + k\<rparr>)"
    "is_eof (advance_while ?cond lx) \<or> \<not> ?cond (advance_while ?cond lx)"
    using advance_while_spec[OF assms] by blast
  have len: "n \<le> length (unread lx)" using n(1) by (simp add: moved_def)
  have pre: "pred (unread lx ! k)" if k: "k < n" for k
    using n(2)[rule_format, OF k] k len by (auto simp: peek_def unread_def split: if_splits)
  have "\<forall>x \<in> set (take n (unread lx)). pred x" using pre len by (auto simp: in_set_conv_nth)
  moreover have "drop n (unread lx) = [] \<or> \<not> pred (hd (drop n (unread lx)))"
    using n(3) moved_unread[OF n(1)] by (auto simp: is_eof_unread peek_unread hd_conv_nth split: if_splits)
  ultimately have "takeWhile pred (take n (unread lx) @ drop n (unread lx)) = take n (unread lx)"
    by (cases "drop n (unread lx)") (auto simp: takeWhile_append2 simp del: append_take_drop_id)
  then have "length (takeWhile pred (unread lx)) = n" using len by simp
  then show ?thesis using n(1) by simp
qed

definition as_view :: "string \<Rightarrow> string option" where
  "as_view s = (if s = [] then None else Some s)"

lemma view_from_moved:
  assumes "moved lx n lx'" "m_input lx'' = m_input lx"
  shows "view_from (m_index lx) n lx'' = Inr (as_view (take n (unread lx)), lx'')"
  using assms by (auto simp: view_from_def moved_def unread_def as_view_def)

lemma moved_input: "moved lx n lx' \<Longrightarrow> m_input lx' = m_input lx"
  by (simp add: moved_def)

lemma moved_index: "moved lx n lx' \<Longrightarrow> m_index lx' = m_index lx + n"
  by (simp add: moved_def)

lemma take_takeWhile: "take (length (takeWhile p s)) s = takeWhile p s"
  by (metis append_eq_conv_conj takeWhile_dropWhile_id)

lemma consume_while_spec:
  assumes "lexer_inv lx"
  shows "\<exists>lx'. consume_while lx pred = Inr (as_view (takeWhile pred (unread lx)), lx')
    \<and> moved lx (length (takeWhile pred (unread lx))) lx' \<and> unread lx' = dropWhile pred (unread lx)"
proof -
  let ?lx = "advance_while (\<lambda>lx. pred (peek lx 0)) lx"
  have m: "moved lx (length (takeWhile pred (unread lx))) ?lx" by (rule advance_while_char[OF assms])
  have "consume_while lx pred = Inr (as_view (takeWhile pred (unread lx)), ?lx)"
    using view_from_moved[OF m moved_input[OF m]] moved_index[OF m] by (simp add: consume_while_def Let_def take_takeWhile)
  then show ?thesis using m moved_unread[OF m] by (simp add: drop_takeWhile)
qed

lemma drop_min_1: "drop (min 1 (length xs)) xs = tl xs"
  by (cases xs) (simp_all add: min_def)

lemma consume_until_spec:
  assumes "lexer_inv lx"
  shows "\<exists>lx' n. consume_until lx stop = Inr (as_view (takeWhile (\<lambda>c. c \<noteq> stop) (unread lx)), lx')
    \<and> moved lx n lx' \<and> unread lx' = tl (dropWhile (\<lambda>c. c \<noteq> stop) (unread lx))"
proof -
  let ?p = "\<lambda>c. c \<noteq> stop" and ?lx = "advance_while (\<lambda>lx. peek lx 0 \<noteq> stop) lx"
  have m: "moved lx (length (takeWhile ?p (unread lx))) ?lx" by (rule advance_while_char[OF assms])
  have i: "moved ?lx (min 1 (length (unread ?lx))) (ignore ?lx 1)" by (rule ignore_moved[OF moved_inv[OF m assms]])
  have "unread ?lx = dropWhile ?p (unread lx)" using moved_unread[OF m] by (simp add: drop_takeWhile)
  then have "unread (ignore ?lx 1) = tl (dropWhile ?p (unread lx))"
    using moved_unread[OF i] drop_min_1[of "dropWhile ?p (unread lx)"] by simp
  moreover have "consume_until lx stop = Inr (as_view (takeWhile ?p (unread lx)), ignore ?lx 1)"
    using view_from_moved[OF m, of "ignore ?lx 1"] moved_input[OF m] moved_input[OF i] moved_index[OF m]
    by (simp add: consume_until_def Let_def take_takeWhile)
  ultimately show ?thesis using moved_trans[OF m i] by blast
qed

text \<open>
  \<open>consume_while\<close> and \<open>consume_until\<close> never fault on a lexer whose position lies inside its input: the first
  returns the longest run of characters that satisfy the predicate, the second what comes before the first stop
  character and skips that character, and both leave the position inside the input at what follows.
\<close>

theorem lexer_consume_correct:
  assumes "lexer_inv lx"
  shows "(\<exists>lx'. consume_while lx pred = Inr (as_view (takeWhile pred (unread lx)), lx')
      \<and> unread lx' = dropWhile pred (unread lx) \<and> lexer_inv lx')
    \<and> (\<exists>lx'. consume_until lx stop = Inr (as_view (takeWhile (\<lambda>c. c \<noteq> stop) (unread lx)), lx')
      \<and> unread lx' = tl (dropWhile (\<lambda>c. c \<noteq> stop) (unread lx)) \<and> lexer_inv lx')"
  using consume_while_spec[OF assms, of pred] consume_until_spec[OF assms, of stop] moved_inv[OF _ assms] by blast

theorem lexer_consume_correct_witness:
  "(\<exists>lx'. consume_while (make_lexer ''12+34'') isdigit = Inr (as_view (takeWhile isdigit (unread (make_lexer ''12+34''))), lx')
      \<and> unread lx' = dropWhile isdigit (unread (make_lexer ''12+34'')) \<and> lexer_inv lx')
    \<and> (\<exists>lx'. consume_until (make_lexer ''12+34'') (CHR ''+'') = Inr (as_view (takeWhile (\<lambda>c. c \<noteq> CHR ''+'') (unread (make_lexer ''12+34''))), lx')
      \<and> unread lx' = tl (dropWhile (\<lambda>c. c \<noteq> CHR ''+'') (unread (make_lexer ''12+34''))) \<and> lexer_inv lx')"
  by (rule lexer_consume_correct) (simp add: lexer_inv_def make_lexer_def)

subsection \<open>Quoted strings\<close>

lemma quoted_loop_plain:
  assumes "\<forall>c \<in> set body. c \<noteq> quote_char \<and> c \<noteq> escape_char" "quote_char \<noteq> escape_char"
    and "unread lx = body @ quote_char # after"
  shows "quoted_loop quote_char escape_char lx = lx\<lparr>m_index := m_index lx + length body\<rparr>"
  using assms(1,3)
proof (induction body arbitrary: lx)
  case Nil
  then have "peek lx 0 = quote_char" "\<not> is_eof lx" by (simp_all add: peek_unread is_eof_unread)
  then show ?case using assms(2) by (subst quoted_loop.simps) (simp add: next_is_def)
next
  case (Cons c body)
  let ?lx = "lx\<lparr>m_index := m_index lx + 1\<rparr>"
  have "peek lx 0 = c" "\<not> is_eof lx" using Cons.prems by (simp_all add: peek_unread is_eof_unread)
  then have "quoted_loop quote_char escape_char lx = quoted_loop quote_char escape_char ?lx"
    using Cons.prems by (subst quoted_loop.simps) (simp add: next_is_def)
  also have "unread ?lx = body @ quote_char # after"
    using Cons.prems by (simp add: unread_def) (metis drop_Suc tl_drop list.sel(3))
  then have "quoted_loop quote_char escape_char ?lx = ?lx\<lparr>m_index := m_index ?lx + length body\<rparr>"
    using Cons by simp
  finally show ?case by simp
qed

text \<open>\<open>consume_quoted_string\<close> returns what stands between the quotes, and moves behind the closing one.\<close>

lemma consume_quoted_spec:
  assumes "is_quote q" "q \<noteq> escape_char" "\<forall>c \<in> set body. c \<noteq> q \<and> c \<noteq> escape_char"
    and "unread lx = q # body @ q # after" "lexer_inv lx"
  shows "consume_quoted_string lx escape_char = Inr (Some body, lx\<lparr>m_index := m_index lx + length body + 2\<rparr>)"
proof -
  let ?lx = "lx\<lparr>m_index := m_index lx + 1\<rparr>"
  have c: "consume lx = Inr (q, ?lx)" using consume_spec[of lx] assms(4) by simp
  have r: "unread ?lx = body @ q # after"
    using assms(4) by (simp add: unread_def) (metis drop_Suc tl_drop list.sel(3))
  let ?lx2 = "lx\<lparr>m_index := m_index lx + 1 + length body\<rparr>"
  have l: "quoted_loop q escape_char ?lx = ?lx2" using quoted_loop_plain[OF assms(3,2) r] by simp
  have r2: "unread ?lx2 = q # after"
  proof -
    have "unread ?lx2 = drop (length body) (unread ?lx)" by (simp add: unread_def add.commute)
    then show ?thesis using r by simp
  qed
  then have p: "peek ?lx2 0 = q" by (simp add: peek_unread)
  have b: "m_index lx + 1 + length body < length (m_input lx)" using r2 by (simp add: unread_def) (metis drop_all linorder_not_less list.distinct(1))
  have "take (length body) (unread ?lx) = body" using r by simp
  then have v: "substring_view (m_input lx) (m_index lx + 1) (length body) = Inr body" using b by (simp add: unread_def)
  have g: "ignore ?lx2 1 = lx\<lparr>m_index := m_index lx + length body + 2\<rparr>"
    using b assms(5) by (simp add: ignore_def clip_def lexer_inv_def min_def)
  have "next_is_pred lx is_quote" using assms(1,4) by (simp add: next_is_pred_def peek_unread)
  then show ?thesis using c l p v g by (simp add: consume_quoted_string_def Let_def)
qed

text \<open>
  \<open>GenericLexer::consume_and_unescape_string\<close> takes its characters not from the quoted string but from what
  follows it: on a lexer whose input ends with the closing quote it fails an assertion, for every string that is not
  empty.
\<close>

theorem unescape_reads_behind:
  assumes "is_quote q" "q \<noteq> escape_char" "escape_char \<noteq> CHR 0x00" "list_all (\<lambda>c. c \<noteq> q \<and> c \<noteq> escape_char) body" "body \<noteq> []"
    and "length body + 2 < 2 ^ 32"
  shows "lexer_consume_and_unescape_string (make_lexer (q # body @ [q])) escape_char = Inl VerifyFailed"
proof -
  let ?lx = "make_lexer (q # body @ [q])"
  let ?lx2 = "?lx\<lparr>m_index := length body + 2\<rparr>"
  have "consume_quoted_string ?lx escape_char = Inr (Some body, ?lx\<lparr>m_index := m_index ?lx + length body + 2\<rparr>)"
    using assms by (intro consume_quoted_spec[of q escape_char body ?lx "[]"]) (auto simp: unread_def make_lexer_def lexer_inv_def list_all_iff)
  then have q: "consume_quoted_string ?lx escape_char = Inr (Some body, ?lx2)" by (simp add: make_lexer_def)
  have r: "unread ?lx2 = []" by (simp add: unread_def make_lexer_def)
  then have "consume_specific ?lx2 escape_char = (False, ?lx2)"
    using assms(3) by (simp add: consume_specific_def next_is_def peek_unread)
  then have "consume_escaped_character ?lx2 escape_char default_escape_map = Inl VerifyFailed"
    using consume_eof[OF r] by (simp add: consume_escaped_character_def)
  then show ?thesis using q assms(5) by (cases body) (simp_all add: lexer_consume_and_unescape_string_def)
qed

theorem unescape_reads_behind_witness:
  "lexer_consume_and_unescape_string (make_lexer (CHR 0x22 # ''abc'' @ [CHR 0x22])) (CHR 0x5C) = Inl VerifyFailed"
  by (rule unescape_reads_behind) (simp_all add: is_quote_def is_any_of_def)

end
