(* ===== verification/AK_Format.thy ===== *)
theory AK_Format
  imports AK_GenericLexer
begin

text \<open>
  \<open>AK/Format.cpp\<close> and \<open>AK/Format.h\<close> without their floating-point part: integers as text, \<open>FormatBuilder\<close>,
  \<open>FormatParser\<close>, the parser of the flags in \<open>StandardFormatter\<close>, the formatters of integers, strings, characters,
  booleans and pointers, and \<open>vformat\<close>. Printing digits is related to the digits of a number, and formatting by a
  sequence of literals and specifiers to one step of \<open>vformat_impl\<close> each.
\<close>

subsection \<open>Numbers as text\<close>

definition lowercase_lookup :: string where "lowercase_lookup = ''0123456789abcdef''"

definition uppercase_lookup :: string where "uppercase_lookup = ''0123456789ABCDEF''"

text \<open>
  The loops of \<open>convert_unsigned_to_string\<close>. \<open>buffer\<close> is the part of the array in use; \<open>Array::at\<close> verifies the
  index of every store into the array of 128 bytes.
\<close>

function convert_digits_loop :: "nat \<Rightarrow> nat \<Rightarrow> string \<Rightarrow> string \<Rightarrow> string result" where
  "convert_digits_loop v base lookup buffer =
     (if v > 0 then
        if base < 2 then Inl Undefined
        else and_then (verify (length buffer < 128)) (\<lambda>_.
          convert_digits_loop (v div base) base lookup (buffer @ [lookup ! (v mod base)]))
      else Inr buffer)"
  by pat_completeness auto
termination by (relation "measure (\<lambda>(v, base, lookup, buffer). v)") auto

declare convert_digits_loop.simps [simp del]

definition swap_at :: "'a list \<Rightarrow> nat \<Rightarrow> nat \<Rightarrow> 'a list" where
  "swap_at xs i j = xs[i := xs ! j, j := xs ! i]"

definition reverse_in_place :: "'a list \<Rightarrow> 'a list" where
  "reverse_in_place buffer = fold (\<lambda>i buffer. swap_at buffer i (length buffer - i - 1)) [0..<length buffer div 2] buffer"

definition convert_unsigned_to_string :: "nat \<Rightarrow> nat \<Rightarrow> bool \<Rightarrow> string result" where
  "convert_unsigned_to_string v base upper_case =
     and_then (verify (base \<ge> 2 \<and> base \<le> 16)) (\<lambda>_.
       if v = 0 then Inr ''0''
       else and_then (convert_digits_loop v base (if upper_case then uppercase_lookup else lowercase_lookup) []) (\<lambda>buffer.
         Inr (reverse_in_place buffer)))"

subsection \<open>\<open>FormatBuilder\<close>\<close>

text \<open>The operations of the builder return what they append to it.\<close>

datatype align = AlignDefault | AlignLeft | AlignCenter | AlignRight

datatype sign_mode = OnlyIfNeeded | Always | Reserved

definition put_padding :: "char \<Rightarrow> nat \<Rightarrow> string" where
  "put_padding fill amount = replicate amount fill"

fun put_literal :: "string \<Rightarrow> string" where
  "put_literal [] = []"
| "put_literal [c] = [c]"
| "put_literal (c # d # cs) = (if c = CHR ''{'' \<or> c = CHR ''}'' then c # put_literal cs else c # put_literal (d # cs))"

definition ceil_div2 :: "nat \<Rightarrow> nat" where
  "ceil_div2 n = (if n mod 2 = 0 then n div 2 else n div 2 + 1)"

definition put_string :: "string \<Rightarrow> align \<Rightarrow> nat \<Rightarrow> nat \<Rightarrow> char \<Rightarrow> string" where
  "put_string v align min_width max_width fill =
     (let used_by_string = min max_width (length v);
          used_by_padding = max min_width used_by_string - used_by_string;
          v = (if used_by_string < length v then take used_by_string v else v) in
      case align of
        AlignCenter \<Rightarrow> put_padding fill (used_by_padding div 2) @ v @ put_padding fill (ceil_div2 used_by_padding)
      | AlignRight \<Rightarrow> put_padding fill used_by_padding @ v
      | _ \<Rightarrow> v @ put_padding fill used_by_padding)"

definition prefix_width :: "nat \<Rightarrow> bool \<Rightarrow> sign_mode \<Rightarrow> bool \<Rightarrow> nat" where
  "prefix_width base prefix sign_mode is_negative =
     (if is_negative \<or> sign_mode \<noteq> OnlyIfNeeded then 1 else 0)
     + (if prefix then if base = 8 then 1 else if base = 16 then 2 else if base = 2 then 2 else 0 else 0)"

definition put_prefix :: "nat \<Rightarrow> bool \<Rightarrow> bool \<Rightarrow> sign_mode \<Rightarrow> bool \<Rightarrow> string" where
  "put_prefix base prefix upper_case sign_mode is_negative =
     (if is_negative then ''-'' else if sign_mode = Always then ''+'' else if sign_mode = Reserved then '' '' else [])
     @ (if prefix then
          if base = 2 then if upper_case then ''0B'' else ''0b''
          else if base = 8 then ''0''
          else if base = 16 then if upper_case then ''0X'' else ''0x''
          else []
        else [])"

definition put_u64 ::
  "nat \<Rightarrow> nat \<Rightarrow> bool \<Rightarrow> bool \<Rightarrow> bool \<Rightarrow> align \<Rightarrow> nat \<Rightarrow> char \<Rightarrow> sign_mode \<Rightarrow> bool \<Rightarrow> string result" where
  "put_u64 v base prefix upper_case zero_pad align min_width fill sign_mode is_negative =
     (let align = (if align = AlignDefault then AlignRight else align) in
      and_then (convert_unsigned_to_string v base upper_case) (\<lambda>digits.
        let used_by_digits = length digits;
            used_by_prefix = (if align = AlignRight \<and> zero_pad then 0 else prefix_width base prefix sign_mode is_negative);
            used_by_field = used_by_prefix + used_by_digits;
            used_by_padding = max used_by_field min_width - used_by_field;
            pre = put_prefix base prefix upper_case sign_mode is_negative in
        Inr (case align of
            AlignLeft \<Rightarrow> pre @ digits @ put_padding fill used_by_padding
          | AlignCenter \<Rightarrow>
              put_padding fill (used_by_padding div 2) @ pre @ digits @ put_padding fill (ceil_div2 used_by_padding)
          | _ \<Rightarrow>
              if zero_pad then pre @ put_padding (CHR ''0'') used_by_padding @ digits
              else put_padding fill used_by_padding @ pre @ digits)))"

text \<open>Negating the least 64-bit integer overflows.\<close>

definition put_i64 :: "int \<Rightarrow> nat \<Rightarrow> bool \<Rightarrow> bool \<Rightarrow> bool \<Rightarrow> align \<Rightarrow> nat \<Rightarrow> char \<Rightarrow> sign_mode \<Rightarrow> string result" where
  "put_i64 v base prefix upper_case zero_pad align min_width fill sign_mode =
     (if v = - (2 ^ 63) then Inl Undefined
      else put_u64 (nat \<bar>v\<bar>) base prefix upper_case zero_pad align min_width fill sign_mode (v < 0))"

subsection \<open>\<open>FormatParser\<close>\<close>

definition use_next_index :: nat where "use_next_index = 2 ^ 32 - 1"

function consume_literal_loop :: "nat \<Rightarrow> lexer \<Rightarrow> (string \<times> lexer) result" where
  "consume_literal_loop beginning lx =
     (if \<not> is_eof lx then
        if fst (consume_specific_view lx ''{{'') then consume_literal_loop beginning (snd (consume_specific_view lx ''{{''))
        else if fst (consume_specific_view lx ''}}'') then consume_literal_loop beginning (snd (consume_specific_view lx ''}}''))
        else if next_is_pred lx (is_any_of ''{}'') then
          and_then (substring_view (m_input lx) beginning (m_index lx - beginning)) (\<lambda>v. Inr (v, lx))
        else consume_literal_loop beginning (lx\<lparr>m_index := m_index lx + 1\<rparr>)
      else and_then (substring_view_from (m_input lx) beginning) (\<lambda>v. Inr (v, lx)))"
  by pat_completeness auto
termination
  by (relation "measure (\<lambda>(beginning, lx). length (m_input lx) - m_index lx)")
    (auto simp: is_eof_def consume_specific_view_def ignore_def clip_def split: if_splits)

declare consume_literal_loop.simps [simp del]

definition consume_literal :: "lexer \<Rightarrow> (string \<times> lexer) result" where
  "consume_literal lx = consume_literal_loop (m_index lx) lx"

function consume_number_loop :: "lexer \<Rightarrow> nat \<Rightarrow> bool \<Rightarrow> nat \<times> bool \<times> lexer" where
  "consume_number_loop lx v consumed_at_least_one =
     (if next_is_pred lx isdigit then
        consume_number_loop (lx\<lparr>m_index := m_index lx + 1\<rparr>) (usize (usize (v * 10) + digit_value (peek lx 0))) True
      else (v, consumed_at_least_one, lx))"
  by pat_completeness auto
termination
  by (relation "measure (\<lambda>(lx, v, c). length (m_input lx) - m_index lx)")
    (auto simp: next_is_pred_def peek_def isdigit_def in_range_def split: if_splits)

declare consume_number_loop.simps [simp del]

text \<open>The value and, when there was no digit, \<open>None\<close>.\<close>

definition consume_number :: "lexer \<Rightarrow> nat option \<times> lexer" where
  "consume_number lx =
     (case consume_number_loop lx 0 False of (v, consumed, lx) \<Rightarrow> (if consumed then Some v else None, lx))"

function specifier_loop :: "nat \<Rightarrow> lexer \<Rightarrow> lexer result" where
  "specifier_loop level lx =
     (if level > 0 then
        and_then (verify (\<not> is_eof lx)) (\<lambda>_.
          if is_eof lx then Inl VerifyFailed
          else if fst (consume_specific lx (CHR ''{'')) then specifier_loop (level + 1) (snd (consume_specific lx (CHR ''{'')))
          else if fst (consume_specific lx (CHR ''}'')) then specifier_loop (level - 1) (snd (consume_specific lx (CHR ''}'')))
          else specifier_loop level (lx\<lparr>m_index := m_index lx + 1\<rparr>))
      else Inr lx)"
  by pat_completeness auto
termination
  by (relation "measure (\<lambda>(level, lx). length (m_input lx) - m_index lx)")
    (auto simp: is_eof_def consume_specific_def ignore_def clip_def split: if_splits)

declare specifier_loop.simps [simp del]

text \<open>The index and the flags of a specifier; \<open>None\<close> when there is none.\<close>

definition consume_specifier :: "lexer \<Rightarrow> ((nat \<times> string) option \<times> lexer) result" where
  "consume_specifier lx =
     and_then (verify (\<not> next_is lx (CHR ''}''))) (\<lambda>_.
       case consume_specific lx (CHR ''{'') of
         (False, lx) \<Rightarrow> Inr (None, lx)
       | (True, lx) \<Rightarrow>
           (case consume_number lx of (number, lx) \<Rightarrow>
              let index = (case number of Some n \<Rightarrow> n | None \<Rightarrow> use_next_index) in
              case consume_specific lx (CHR '':'') of
                (True, lx) \<Rightarrow>
                  let beginning = m_index lx in
                  and_then (specifier_loop 1 lx) (\<lambda>lx.
                  and_then (substring_view (m_input lx) beginning (m_index lx - beginning - 1)) (\<lambda>flags.
                    Inr (Some (index, flags), lx)))
              | (False, lx) \<Rightarrow>
                  (case consume_specific lx (CHR ''}'') of
                     (True, lx) \<Rightarrow> Inr (Some (index, []), lx)
                   | (False, lx) \<Rightarrow> Inl NotReached)))"

definition consume_replacement_field :: "lexer \<Rightarrow> (nat option \<times> lexer) result" where
  "consume_replacement_field lx =
     (case consume_specific lx (CHR ''{'') of
        (False, lx) \<Rightarrow> Inr (None, lx)
      | (True, lx) \<Rightarrow>
          (case consume_number lx of (number, lx) \<Rightarrow>
             case consume_specific lx (CHR ''}'') of
               (True, lx) \<Rightarrow> Inr (Some (case number of Some n \<Rightarrow> n | None \<Rightarrow> use_next_index), lx)
             | (False, lx) \<Rightarrow> Inl NotReached))"


subsection \<open>Parameters\<close>

text \<open>
  A type-erased parameter: a value and the type it had, for an integer its width. The formatter of the erased type is chosen by that type in
  \<open>format_value\<close>.
\<close>

datatype parameter =
    UInt nat nat
  | SInt nat int
  | Text string
  | CharValue char
  | BoolValue bool
  | Pointer nat

definition signed_char :: "char \<Rightarrow> int" where
  "signed_char c = (if code c < 128 then int (code c) else int (code c) - 256)"

text \<open>\<open>to_size\<close> reads the value into an \<open>i64\<close>, which a \<open>u64\<close> from \<open>2^63\<close> on does not fit.\<close>

definition to_size :: "parameter \<Rightarrow> nat result" where
  "to_size p =
     (case p of
        UInt b v \<Rightarrow> and_then (verify (v < 2 ^ 63)) (\<lambda>_. Inr (usize v))
      | SInt b v \<Rightarrow> and_then (verify (v \<ge> 0)) (\<lambda>_. Inr (usize (nat v)))
      | CharValue c \<Rightarrow> and_then (verify (signed_char c \<ge> 0)) (\<lambda>_. Inr (code c))
      | BoolValue b \<Rightarrow> Inr (if b then 1 else 0)
      | _ \<Rightarrow> Inl NotReached)"

record format_params =
  m_parameters :: "parameter list"
  m_next_index :: nat

definition parameter_at :: "format_params \<Rightarrow> nat \<Rightarrow> parameter result" where
  "parameter_at params i = and_then (verify (i < length (m_parameters params))) (\<lambda>_. Inr (m_parameters params ! i))"

definition resolve_index :: "format_params \<Rightarrow> nat \<Rightarrow> nat \<times> format_params" where
  "resolve_index params index =
     (if index = use_next_index then (m_next_index params, params\<lparr>m_next_index := m_next_index params + 1\<rparr>)
      else (index, params))"

subsection \<open>\<open>StandardFormatter\<close>\<close>

datatype mode =
  ModeDefault | Binary | BinaryUppercase | Decimal | Octal | Hexadecimal | HexadecimalUppercase
  | Character | ModeString | ModePointer | Float | Hexfloat | HexfloatUppercase

record standard_formatter =
  sf_align :: align
  sf_sign_mode :: sign_mode
  sf_mode :: mode
  sf_alternative_form :: bool
  sf_fill :: char
  sf_zero_pad :: bool
  sf_width :: "nat option"
  sf_precision :: "nat option"

definition default_formatter :: standard_formatter where
  "default_formatter = \<lparr>sf_align = AlignDefault, sf_sign_mode = OnlyIfNeeded, sf_mode = ModeDefault,
     sf_alternative_form = False, sf_fill = CHR '' '', sf_zero_pad = False, sf_width = None, sf_precision = None\<rparr>"

text \<open>The first of a list of characters that can be consumed, and what it stands for.\<close>

fun consume_one_of :: "(char \<times> 'a) list \<Rightarrow> lexer \<Rightarrow> 'a option \<times> lexer" where
  "consume_one_of [] lx = (None, lx)"
| "consume_one_of ((c, x) # alternatives) lx =
     (case consume_specific lx c of (True, lx) \<Rightarrow> (Some x, lx) | (False, lx) \<Rightarrow> consume_one_of alternatives lx)"

definition parse_fill :: "standard_formatter \<Rightarrow> lexer \<Rightarrow> (standard_formatter \<times> lexer) result" where
  "parse_fill sf lx =
     (if contains_char ''<^>'' (peek lx 1) then
        and_then (verify (\<not> next_is_pred lx (is_any_of ''{}''))) (\<lambda>_.
        and_then (consume lx) (\<lambda>(c, lx). Inr (sf\<lparr>sf_fill := c\<rparr>, lx)))
      else Inr (sf, lx))"

definition parse_align_sign :: "standard_formatter \<Rightarrow> lexer \<Rightarrow> standard_formatter \<times> lexer" where
  "parse_align_sign sf lx =
     (let (align, lx) = consume_one_of [(CHR ''<'', AlignLeft), (CHR ''^'', AlignCenter), (CHR ''>'', AlignRight)] lx;
          sf = (case align of Some a \<Rightarrow> sf\<lparr>sf_align := a\<rparr> | None \<Rightarrow> sf);
          (sign, lx) = consume_one_of [(CHR ''-'', OnlyIfNeeded), (CHR ''+'', Always), (CHR '' '', Reserved)] lx;
          sf = (case sign of Some s \<Rightarrow> sf\<lparr>sf_sign_mode := s\<rparr> | None \<Rightarrow> sf);
          (alt, lx) = consume_specific lx (CHR ''#'');
          sf = (if alt then sf\<lparr>sf_alternative_form := True\<rparr> else sf);
          (zero, lx) = consume_specific lx (CHR ''0'');
          sf = (if zero then sf\<lparr>sf_zero_pad := True\<rparr> else sf) in
      (sf, lx))"

text \<open>A number or a replacement field, for the width and for the precision.\<close>

definition parse_size :: "format_params \<Rightarrow> lexer \<Rightarrow> (nat option \<times> format_params \<times> lexer) result" where
  "parse_size params lx =
     and_then (consume_replacement_field lx) (\<lambda>(field, lx).
       case field of
         Some index \<Rightarrow>
           (case resolve_index params index of (i, params) \<Rightarrow>
              and_then (parameter_at params i) (\<lambda>p. and_then (to_size p) (\<lambda>n. Inr (Some n, params, lx))))
       | None \<Rightarrow> (case consume_number lx of (number, lx) \<Rightarrow> Inr (number, params, lx)))"

definition parse_precision :: "format_params \<Rightarrow> lexer \<Rightarrow> (nat option \<times> format_params \<times> lexer) result" where
  "parse_precision params lx =
     (case consume_specific lx (CHR ''.'') of
        (True, lx) \<Rightarrow> parse_size params lx
      | (False, lx) \<Rightarrow> Inr (None, params, lx))"

definition mode_letters :: "(char \<times> mode) list" where
  "mode_letters =
     [(CHR ''b'', Binary), (CHR ''B'', BinaryUppercase), (CHR ''d'', Decimal), (CHR ''o'', Octal),
      (CHR ''x'', Hexadecimal), (CHR ''X'', HexadecimalUppercase), (CHR ''c'', Character), (CHR ''s'', ModeString),
      (CHR ''p'', ModePointer), (CHR ''f'', Float), (CHR ''a'', Hexfloat), (CHR ''A'', HexfloatUppercase)]"

definition standard_parse :: "format_params \<Rightarrow> lexer \<Rightarrow> (standard_formatter \<times> format_params) result" where
  "standard_parse params lx =
     and_then (parse_fill default_formatter lx) (\<lambda>(sf, lx).
       case parse_align_sign sf lx of (sf, lx) \<Rightarrow>
       and_then (parse_size params lx) (\<lambda>(width, params, lx).
       and_then (parse_precision params lx) (\<lambda>(precision, params, lx).
         case consume_one_of mode_letters lx of (mode, lx) \<Rightarrow>
         and_then (verify (is_eof lx)) (\<lambda>_.
           Inr (sf\<lparr>sf_width := width, sf_precision := precision,
                  sf_mode := (case mode of Some m \<Rightarrow> m | None \<Rightarrow> ModeDefault)\<rparr>, params)))))"

definition or_else :: "'a option \<Rightarrow> 'a \<Rightarrow> 'a" where
  "or_else m d = (case m of Some x \<Rightarrow> x | None \<Rightarrow> d)"

definition format_view :: "standard_formatter \<Rightarrow> string \<Rightarrow> string result" where
  "format_view sf v =
     (if sf_sign_mode sf \<noteq> OnlyIfNeeded then Inl NotReached
      else if sf_alternative_form sf then Inl NotReached
      else if sf_zero_pad sf then Inl NotReached
      else if sf_mode sf \<noteq> ModeDefault \<and> sf_mode sf \<noteq> ModeString \<and> sf_mode sf \<noteq> Character then Inl NotReached
      else if sf_width sf \<noteq> None \<and> sf_precision sf \<noteq> None then Inl NotReached
      else Inr (put_string v (sf_align sf) (or_else (sf_width sf) 0) (or_else (sf_precision sf) (2 ^ 32 - 1)) (sf_fill sf)))"

definition mode_base :: "mode \<Rightarrow> (nat \<times> bool) result" where
  "mode_base m =
     (case m of
        Binary \<Rightarrow> Inr (2, False)
      | BinaryUppercase \<Rightarrow> Inr (2, True)
      | Octal \<Rightarrow> Inr (8, False)
      | Decimal \<Rightarrow> Inr (10, False)
      | ModeDefault \<Rightarrow> Inr (10, False)
      | Hexadecimal \<Rightarrow> Inr (16, False)
      | HexadecimalUppercase \<Rightarrow> Inr (16, True)
      | _ \<Rightarrow> Inl NotReached)"

text \<open>The changes of the formatter for a pointer: eight hexadecimal digits behind \<open>0x\<close>.\<close>

definition pointer_formatter :: "standard_formatter \<Rightarrow> standard_formatter result" where
  "pointer_formatter sf =
     (if sf_mode sf = ModePointer then
        if sf_sign_mode sf \<noteq> OnlyIfNeeded then Inl NotReached
        else if sf_align sf \<noteq> AlignDefault then Inl NotReached
        else if sf_alternative_form sf then Inl NotReached
        else if sf_width sf \<noteq> None then Inl NotReached
        else Inr (sf\<lparr>sf_mode := Hexadecimal, sf_alternative_form := True, sf_width := Some (2 * 4), sf_zero_pad := True\<rparr>)
      else Inr sf)"

definition format_integral :: "standard_formatter \<Rightarrow> bool \<Rightarrow> int \<Rightarrow> string result" where
  "format_integral sf is_unsigned v =
     (if sf_mode sf = Character then
        and_then (verify (v \<ge> 0 \<and> v \<le> 127)) (\<lambda>_. format_view (sf\<lparr>sf_mode := ModeString\<rparr>) [char_of (nat v)])
      else if sf_precision sf \<noteq> None then Inl NotReached
      else and_then (pointer_formatter sf) (\<lambda>sf.
        and_then (mode_base (sf_mode sf)) (\<lambda>(base, upper_case).
          if is_unsigned then
            put_u64 (nat v) base (sf_alternative_form sf) upper_case (sf_zero_pad sf) (sf_align sf)
              (or_else (sf_width sf) 0) (sf_fill sf) (sf_sign_mode sf) False
          else
            put_i64 v base (sf_alternative_form sf) upper_case (sf_zero_pad sf) (sf_align sf)
              (or_else (sf_width sf) 0) (sf_fill sf) (sf_sign_mode sf))))"

definition is_numeric_mode :: "mode \<Rightarrow> bool" where
  "is_numeric_mode m \<longleftrightarrow>
     m = Binary \<or> m = BinaryUppercase \<or> m = Decimal \<or> m = Octal \<or> m = Hexadecimal \<or> m = HexadecimalUppercase"

definition format_char :: "standard_formatter \<Rightarrow> char \<Rightarrow> string result" where
  "format_char sf v = (if is_numeric_mode (sf_mode sf) then format_integral sf False (signed_char v) else format_view sf [v])"

definition format_bool :: "standard_formatter \<Rightarrow> bool \<Rightarrow> string result" where
  "format_bool sf v =
     (if is_numeric_mode (sf_mode sf) then format_integral sf True (if v then 1 else 0)
      else format_view sf (if v then ''true'' else ''false''))"

definition format_pointer :: "standard_formatter \<Rightarrow> nat \<Rightarrow> string result" where
  "format_pointer sf v =
     format_integral (if sf_mode sf = ModeDefault then sf\<lparr>sf_mode := ModePointer\<rparr> else sf) True (int v)"

definition format_value :: "format_params \<Rightarrow> string \<Rightarrow> parameter \<Rightarrow> (string \<times> format_params) result" where
  "format_value params flags p =
     and_then (standard_parse params (make_lexer flags)) (\<lambda>(sf, params).
     and_then (case p of
         UInt b v \<Rightarrow> format_integral sf True (int v)
       | SInt b v \<Rightarrow> format_integral sf False v
       | Text s \<Rightarrow> format_view sf s
       | CharValue c \<Rightarrow> format_char sf c
       | BoolValue b \<Rightarrow> format_bool sf b
       | Pointer a \<Rightarrow> format_pointer sf a) (\<lambda>out. Inr (out, params)))"

subsection \<open>\<open>vformat\<close>\<close>

text \<open>No operation of the parser goes back, and a specifier takes at least one character.\<close>

definition forward :: "lexer \<Rightarrow> lexer \<Rightarrow> bool" where
  "forward lx lx' \<longleftrightarrow> m_input lx' = m_input lx \<and> m_index lx \<le> m_index lx'"

lemma forward_trans: "forward a b \<Longrightarrow> forward b c \<Longrightarrow> forward a c"
  by (auto simp: forward_def)

lemma forward_refl [simp]: "forward lx lx"
  by (simp add: forward_def)

lemma forward_ignore [simp]: "forward lx (ignore lx n)"
  by (simp add: forward_def ignore_def)

lemma forward_step [simp]: "forward lx (lx\<lparr>m_index := m_index lx + n\<rparr>)"
  by (simp add: forward_def)

lemma forward_specific: "forward lx (snd (consume_specific lx c))" "forward lx (snd (consume_specific_view lx s))"
  by (simp_all add: consume_specific_def consume_specific_view_def)

lemma consume_specific_progress:
  "consume_specific lx c = (True, lx') \<Longrightarrow> c \<noteq> CHR 0x00 \<Longrightarrow> m_input lx' = m_input lx \<and> m_index lx < m_index lx' \<and> m_index lx < length (m_input lx)"
  by (auto simp: consume_specific_def next_is_def peek_def ignore_def clip_def split: if_splits)

lemma forward_literal: "consume_literal_loop beginning lx = Inr (v, lx') \<Longrightarrow> forward lx lx'"
proof (induction beginning lx rule: consume_literal_loop.induct)
  case (1 beginning lx)
  note eq = "1.prems"[unfolded consume_literal_loop.simps[of beginning lx]]
  consider "is_eof lx" | "\<not> is_eof lx" "fst (consume_specific_view lx ''{{'')"
    | "\<not> is_eof lx" "\<not> fst (consume_specific_view lx ''{{'')" "fst (consume_specific_view lx ''}}'')"
    | "\<not> is_eof lx" "\<not> fst (consume_specific_view lx ''{{'')" "\<not> fst (consume_specific_view lx ''}}'')" "next_is_pred lx (is_any_of ''{}'')"
    | "\<not> is_eof lx" "\<not> fst (consume_specific_view lx ''{{'')" "\<not> fst (consume_specific_view lx ''}}'')" "\<not> next_is_pred lx (is_any_of ''{}'')"
    by blast
  then show ?case
  proof cases
    case 1
    then show ?thesis using eq by (auto simp: and_then_Inr_iff)
  next
    case 2
    then have "forward (snd (consume_specific_view lx ''{{'')) lx'" using eq "1.IH"(1) by simp
    then show ?thesis using forward_specific(2) forward_trans by blast
  next
    case 3
    then have "forward (snd (consume_specific_view lx ''}}'')) lx'" using eq "1.IH"(2) by simp
    then show ?thesis using forward_specific(2) forward_trans by blast
  next
    case 4
    then show ?thesis using eq by (auto simp: and_then_Inr_iff)
  next
    case 5
    then have "forward (lx\<lparr>m_index := m_index lx + 1\<rparr>) lx'" using eq "1.IH"(3) by simp
    then show ?thesis using forward_step forward_trans by blast
  qed
qed

lemma forward_number: "consume_number_loop lx v b = (v', b', lx') \<Longrightarrow> forward lx lx'"
proof (induction lx v b rule: consume_number_loop.induct)
  case (1 lx v b)
  show ?case
  proof (cases "next_is_pred lx isdigit")
    case True
    then have "forward (lx\<lparr>m_index := m_index lx + 1\<rparr>) lx'" using 1 by (metis consume_number_loop.simps)
    then show ?thesis using forward_step forward_trans by blast
  next
    case False
    then show ?thesis using "1.prems" by (subst (asm) consume_number_loop.simps) simp
  qed
qed

lemma forward_specifier_loop: "specifier_loop level lx = Inr lx' \<Longrightarrow> forward lx lx'"
proof (induction level lx rule: specifier_loop.induct)
  case (1 level lx)
  note eq = "1.prems"[unfolded specifier_loop.simps[of level lx]]
  consider "level = 0" | "level > 0" "is_eof lx" | "level > 0" "\<not> is_eof lx" "fst (consume_specific lx (CHR ''{''))"
    | "level > 0" "\<not> is_eof lx" "\<not> fst (consume_specific lx (CHR ''{''))" "fst (consume_specific lx (CHR ''}''))"
    | "level > 0" "\<not> is_eof lx" "\<not> fst (consume_specific lx (CHR ''{''))" "\<not> fst (consume_specific lx (CHR ''}''))"
    by blast
  then show ?case
  proof cases
    case 3
    then have "forward (snd (consume_specific lx (CHR ''{''))) lx'" using eq "1.IH"(1) by simp
    then show ?thesis using forward_specific(1) forward_trans by blast
  next
    case 4
    then have "forward (snd (consume_specific lx (CHR ''}''))) lx'" using eq "1.IH"(2) by simp
    then show ?thesis using forward_specific(1) forward_trans by blast
  next
    case 5
    then have "forward (lx\<lparr>m_index := m_index lx + 1\<rparr>) lx'" using eq "1.IH"(3) by simp
    then show ?thesis using forward_step forward_trans by blast
  qed (use eq in simp_all)
qed

lemma consume_specifier_progress:
  assumes "consume_specifier lx = Inr (Some spec, lx')"
  shows "m_input lx' = m_input lx \<and> m_index lx < m_index lx' \<and> m_index lx < length (m_input lx)"
proof -
  obtain lx1 where 1: "consume_specific lx (CHR ''{'') = (True, lx1)"
    using assms by (auto simp: consume_specifier_def and_then_Inr_iff split: prod.splits bool.splits if_splits)
  obtain number lx2 where 2: "consume_number lx1 = (number, lx2)" by force
  then have f2: "forward lx1 lx2" using forward_number by (auto simp: consume_number_def split: prod.splits)
  have "forward lx2 lx'"
  proof (cases "consume_specific lx2 (CHR '':'')")
    case (Pair b lx3)
    have f3: "forward lx2 lx3" using forward_specific(1)[of lx2 "CHR '':''"] Pair by simp
    show ?thesis
    proof (cases b)
      case True
      then have "specifier_loop 1 lx3 = Inr lx'"
        using assms 1 2 Pair by (auto simp: consume_specifier_def and_then_Inr_iff Let_def split: if_splits)
      then show ?thesis using f3 forward_specifier_loop forward_trans by blast
    next
      case False
      then have "lx' = snd (consume_specific lx3 (CHR ''}''))"
        using assms 1 2 Pair
        by (auto simp: consume_specifier_def and_then_Inr_iff Let_def split: prod.splits bool.splits if_splits)
      then show ?thesis using f3 forward_specific(1) forward_trans by blast
    qed
  qed
  with f2 have "forward lx1 lx'" using forward_trans by blast
  then show ?thesis using consume_specific_progress[OF 1] by (auto simp: forward_def)
qed

function vformat_impl :: "format_params \<Rightarrow> string \<Rightarrow> lexer \<Rightarrow> string result" where
  "vformat_impl params builder lx =
     and_then (consume_literal lx) (\<lambda>(literal, lx).
       let builder = builder @ put_literal literal in
       and_then (consume_specifier lx) (\<lambda>(specifier, lx).
         case specifier of
           None \<Rightarrow> and_then (verify (is_eof lx)) (\<lambda>_. Inr builder)
         | Some (index, flags) \<Rightarrow>
             (case resolve_index params index of (i, params) \<Rightarrow>
                and_then (parameter_at params i) (\<lambda>p.
                and_then (format_value params flags p) (\<lambda>(out, params).
                  vformat_impl params (builder @ out) lx)))))"
  by pat_completeness auto
termination
proof (relation "measure (\<lambda>(params, builder, lx). length (m_input lx) - m_index lx)", goal_cases)
  case (2 params builder lx x literal lx1 builder' y specifier lx2)
  then have "forward lx lx1" using forward_literal by (auto simp: consume_literal_def)
  moreover have "m_input lx2 = m_input lx1 \<and> m_index lx1 < m_index lx2 \<and> m_index lx1 < length (m_input lx1)"
    using 2 consume_specifier_progress by auto
  ultimately show ?case by (auto simp: forward_def)
qed simp

declare vformat_impl.simps [simp del]

definition vformat :: "string \<Rightarrow> parameter list \<Rightarrow> string result" where
  "vformat fmtstr parameters = vformat_impl \<lparr>m_parameters = parameters, m_next_index = 0\<rparr> [] (make_lexer fmtstr)"

subsection \<open>Digits\<close>

lemma fold_snoc_upt: "fold f [0..<Suc k] x = f k (fold f [0..<k] x)"
  by simp

lemma length_fold_swap: "length (fold (\<lambda>i b. swap_at b i (length b - Suc i)) is xs) = length xs"
  by (induction "is" arbitrary: xs) (simp_all add: swap_at_def)

lemma fold_swap_nth:
  "k \<le> length xs div 2 \<Longrightarrow> j < length xs \<Longrightarrow>
   fold (\<lambda>i b. swap_at b i (length b - Suc i)) [0..<k] xs ! j
     = (if j < k \<or> length xs - k \<le> j then xs ! (length xs - 1 - j) else xs ! j)"
proof (induction k arbitrary: j)
  case (Suc k)
  let ?f = "\<lambda>i (b :: 'a list). swap_at b i (length b - Suc i)"
  let ?ys = "fold ?f [0..<k] xs"
  have l: "length ?ys = length xs" by (rule length_fold_swap)
  have k: "k < length xs - Suc k" "k < length xs" "length xs - Suc k < length xs" using Suc.prems by auto
  have a: "?ys ! k = xs ! k" "?ys ! (length xs - Suc k) = xs ! (length xs - Suc k)"
    using Suc.IH[of k] Suc.IH[of "length xs - Suc k"] Suc.prems k by auto
  have "fold ?f [0..<Suc k] xs ! j = swap_at ?ys k (length xs - Suc k) ! j" by (simp only: fold_snoc_upt l)
  also have "\<dots> = (if j = length xs - Suc k then xs ! k else if j = k then xs ! (length xs - Suc k) else ?ys ! j)"
    using k l a by (auto simp: swap_at_def nth_list_update)
  also have "\<dots> = (if j < Suc k \<or> length xs - Suc k \<le> j then xs ! (length xs - 1 - j) else xs ! j)"
    using Suc.IH[of j] Suc.prems k by (auto simp: less_Suc_eq)
  finally show ?case .
qed simp

lemma reverse_in_place_rev: "reverse_in_place xs = rev xs"
proof (rule nth_equalityI)
  have eq: "reverse_in_place xs = fold (\<lambda>i b. swap_at b i (length b - Suc i)) [0..<length xs div 2] xs"
    by (simp add: reverse_in_place_def)
  show "length (reverse_in_place xs) = length (rev xs)" by (simp add: eq length_fold_swap)
  fix j assume "j < length (reverse_in_place xs)"
  then have j: "j < length xs" by (simp add: eq length_fold_swap)
  have "reverse_in_place xs ! j = (if j < length xs div 2 \<or> length xs - length xs div 2 \<le> j then xs ! (length xs - 1 - j) else xs ! j)"
    unfolding eq by (rule fold_swap_nth) (use j in auto)
  moreover have "\<not> (j < length xs div 2 \<or> length xs - length xs div 2 \<le> j) \<Longrightarrow> j = length xs - 1 - j" using j by auto
  ultimately show "reverse_in_place xs ! j = rev xs ! j" using j by (auto simp: rev_nth)
qed

text \<open>The digits of a number, the least significant first.\<close>

function digits :: "nat \<Rightarrow> nat \<Rightarrow> nat list" where
  "digits base v = (if v = 0 \<or> base < 2 then [] else v mod base # digits base (v div base))"
  by pat_completeness auto
termination by (relation "measure snd") auto

declare digits.simps [simp del]

lemma digits_0 [simp]: "digits base 0 = []"
  by (simp add: digits.simps)

lemma digits_step: "0 < v \<Longrightarrow> 2 \<le> base \<Longrightarrow> digits base v = v mod base # digits base (v div base)"
  by (subst digits.simps) simp

lemma digits_length: "v < 2 ^ k \<Longrightarrow> length (digits base v) \<le> k"
proof (induction k arbitrary: v)
  case (Suc k)
  show ?case
  proof (cases "0 < v \<and> 2 \<le> base")
    case True
    have "v div base \<le> v div 2" using True by (simp add: div_le_mono2)
    also have "\<dots> < 2 ^ k" using Suc.prems by auto
    finally show ?thesis using Suc.IH True by (simp add: digits_step)
  next
    case False
    then show ?thesis by (subst digits.simps) auto
  qed
qed simp

lemma digits_bound: "2 \<le> base \<Longrightarrow> d \<in> set (digits base v) \<Longrightarrow> d < base"
  by (induction base v rule: digits.induct) (subst (asm) (2) digits.simps, auto split: if_splits)

lemma convert_digits_loop_spec:
  "2 \<le> base \<Longrightarrow> length buffer + length (digits base v) \<le> 128
    \<Longrightarrow> convert_digits_loop v base lookup buffer = Inr (buffer @ map (\<lambda>d. lookup ! d) (digits base v))"
proof (induction v arbitrary: buffer rule: less_induct)
  case (less v)
  show ?case
  proof (cases "v > 0")
    case True
    have "v div base < v" using True less.prems by simp
    then have "convert_digits_loop (v div base) base lookup (buffer @ [lookup ! (v mod base)])
        = Inr ((buffer @ [lookup ! (v mod base)]) @ map (\<lambda>d. lookup ! d) (digits base (v div base)))"
      using less.prems True by (intro less.IH) (auto simp: digits_step)
    then show ?thesis using True less.prems by (subst convert_digits_loop.simps) (simp add: digits_step)
  qed (simp add: convert_digits_loop.simps)
qed

definition digit_string :: "nat \<Rightarrow> bool \<Rightarrow> nat \<Rightarrow> string" where
  "digit_string base upper_case v =
     (if v = 0 then ''0''
      else map (\<lambda>d. (if upper_case then uppercase_lookup else lowercase_lookup) ! d) (rev (digits base v)))"

lemma convert_unsigned_spec:
  assumes "2 \<le> base" "base \<le> 16" "v < 2 ^ 64"
  shows "convert_unsigned_to_string v base upper_case = Inr (digit_string base upper_case v)"
proof -
  have "length (digits base v) \<le> 64" using digits_length assms(3) by blast
  then show ?thesis using assms
    by (simp add: convert_unsigned_to_string_def convert_digits_loop_spec reverse_in_place_rev digit_string_def rev_map)
qed

lemma decimal_snoc: "decimal (s @ [c]) = decimal s * 10 + digit_value c"
  by (simp add: decimal_def)

lemma lookup_digit: "d < 10 \<Longrightarrow> isdigit (lowercase_lookup ! d) \<and> digit_value (lowercase_lookup ! d) = d"
proof -
  assume "d < 10"
  then have "d \<in> {0, 1, 2, 3, 4, 5, 6, 7, 8, 9}" by auto
  then show ?thesis by (auto simp: lowercase_lookup_def isdigit_def in_range_def digit_value_def)
qed

lemma decimal_digits: "decimal (map (\<lambda>d. lowercase_lookup ! d) (rev (digits 10 v))) = v"
proof (induction v rule: less_induct)
  case (less v)
  show ?case
  proof (cases "v > 0")
    case True
    have "decimal (map (\<lambda>d. lowercase_lookup ! d) (rev (digits 10 (v div 10)))) = v div 10" using True by (intro less.IH) simp
    then show ?thesis using True lookup_digit[of "v mod 10"] by (simp add: digits_step decimal_snoc)
  qed (simp add: decimal_def)
qed

lemma digit_string_decimal:
  "decimal (digit_string 10 False v) = v" "list_all isdigit (digit_string 10 False v)" "digit_string 10 False v \<noteq> []"
proof -
  show "decimal (digit_string 10 False v) = v"
    using decimal_digits[of v] by (simp add: digit_string_def decimal_def digit_value_def)
  show "list_all isdigit (digit_string 10 False v)"
    using digits_bound[of 10 _ v] lookup_digit by (auto simp: digit_string_def list_all_iff isdigit_def in_range_def)
  show "digit_string 10 False v \<noteq> []" using digits_step[of v 10] by (auto simp: digit_string_def)
qed

lemma strip_digits: "list_all isdigit s \<Longrightarrow> strip_right (strip_left s) = s"
proof -
  assume d: "list_all isdigit s"
  have ns: "isdigit c \<Longrightarrow> \<not> isspace c" for c by (auto simp: isdigit_def in_range_def isspace_def)
  have "dropWhile isspace t = t" if "list_all isdigit t" for t using that ns by (cases t) auto
  then show ?thesis using d by (simp add: strip_left_def strip_right_def list_all_rev)
qed

lemma length_digit_string: "v < 2 ^ 64 \<Longrightarrow> length (digit_string 10 False v) \<le> 64"
  using digits_length[of v 64 10] by (simp add: digit_string_def)

lemma convert_digit_string:
  assumes "v < 2 ^ 64" "v < 2 ^ w"
  shows "convert_to_uint w (digit_string 10 False v) = Inr (Some v)"
  using convert_to_uint_spec[of "digit_string 10 False v" w] digit_string_decimal[of v] length_digit_string[OF assms(1)] assms(2)
  by (simp add: strip_digits fits_uint_def Let_def)


subsection \<open>Format strings\<close>

definition brace_free :: "string \<Rightarrow> bool" where
  "brace_free s = list_all (\<lambda>c. c \<noteq> CHR ''{'' \<and> c \<noteq> CHR ''}'') s"

lemma brace_free_Cons [simp]: "brace_free (c # s) \<longleftrightarrow> c \<noteq> CHR ''{'' \<and> c \<noteq> CHR ''}'' \<and> brace_free s"
  by (simp add: brace_free_def)

lemma brace_free_Nil [simp]: "brace_free []"
  by (simp add: brace_free_def)

lemma put_literal_plain: "brace_free s \<Longrightarrow> put_literal s = s"
  by (induction s rule: put_literal.induct) simp_all

abbreviation skip :: "lexer \<Rightarrow> nat \<Rightarrow> lexer" where
  "skip lx n \<equiv> lx\<lparr>m_index := m_index lx + n\<rparr>"

lemma unread_skip: "unread (skip lx n) = drop n (unread lx)"
  by (simp add: unread_def add.commute)

lemma skip_inv: "lexer_inv lx \<Longrightarrow> n \<le> length (unread lx) \<Longrightarrow> lexer_inv (skip lx n)"
  by (auto simp: lexer_inv_def unread_def)

lemma next_is_view2: "next_is_view lx [a, b] \<longleftrightarrow> peek lx 0 = a \<and> peek lx 1 = b"
  by (simp add: next_is_view_def upt_rec numeral_2_eq_2)

text \<open>What may follow a literal: the end, or a specifier.\<close>

definition literal_ends :: "string \<Rightarrow> bool" where
  "literal_ends t \<longleftrightarrow> t = [] \<or> (\<exists>c t'. t = CHR ''{'' # c # t' \<and> c \<noteq> CHR ''{'')"

lemma consume_literal_loop_spec:
  assumes "brace_free lit" "literal_ends tail" "unread lx = lit @ tail" "beginning \<le> m_index lx" "lexer_inv lx"
  shows "consume_literal_loop beginning lx
    = Inr (drop beginning (take (m_index lx + length lit) (m_input lx)), skip lx (length lit))"
  using assms
proof (induction lit arbitrary: lx)
  case Nil
  show ?case
  proof (cases "tail = []")
    case True
    then have "is_eof lx" "length (m_input lx) \<le> m_index lx" using Nil by (simp_all add: is_eof_unread unread_def)
    moreover have "substring_view_from (m_input lx) beginning = Inr (drop beginning (m_input lx))"
      using Nil by (simp add: substring_view_from_def lexer_inv_def)
    ultimately show ?thesis by (subst consume_literal_loop.simps) simp
  next
    case False
    then obtain c t where t: "unread lx = CHR ''{'' # c # t" "c \<noteq> CHR ''{''" using Nil by (auto simp: literal_ends_def)
    then have n: "\<not> is_eof lx" "\<not> next_is_view lx ''{{''" "\<not> next_is_view lx ''}}''" "next_is_pred lx (is_any_of ''{}'')"
      by (simp_all add: is_eof_unread next_is_view2 peek_unread next_is_pred_def is_any_of_def)
    have "m_index lx \<le> length (m_input lx)" using Nil by (simp add: lexer_inv_def)
    then show ?thesis using n Nil.prems(4) by (subst consume_literal_loop.simps) (simp add: consume_specific_view_def drop_take)
  qed
next
  case (Cons c lit)
  then have n: "\<not> is_eof lx" "\<not> next_is_view lx ''{{''" "\<not> next_is_view lx ''}}''" "\<not> next_is_pred lx (is_any_of ''{}'')"
    by (auto simp: is_eof_unread next_is_view2 peek_unread next_is_pred_def is_any_of_def)
  have "consume_literal_loop beginning (skip lx 1)
      = Inr (drop beginning (take (m_index (skip lx 1) + length lit) (m_input (skip lx 1))), skip (skip lx 1) (length lit))"
  proof (rule Cons.IH)
    show "unread (skip lx 1) = lit @ tail" using Cons.prems by (simp only: unread_skip) simp
    show "lexer_inv (skip lx 1)" using Cons.prems by (intro skip_inv) auto
  qed (use Cons.prems in auto)
  then show ?case using n by (subst consume_literal_loop.simps) (simp add: consume_specific_view_def)
qed

lemma consume_literal_spec:
  assumes "brace_free lit" "literal_ends tail" "unread lx = lit @ tail" "lexer_inv lx"
  shows "consume_literal lx = Inr (lit, skip lx (length lit))"
proof -
  have "drop (m_index lx) (take (m_index lx + length lit) (m_input lx)) = take (length lit) (unread lx)"
    by (simp add: unread_def drop_take)
  then show ?thesis using consume_literal_loop_spec[of lit tail lx "m_index lx"] assms by (simp add: consume_literal_def)
qed

lemma consume_specific_hit:
  assumes "unread lx = c # t" "lexer_inv lx"
  shows "consume_specific lx c = (True, skip lx 1)"
proof -
  have "0 < length (unread lx)" using assms(1) by simp
  then have "m_index lx < length (m_input lx)" by (simp add: unread_def)
  moreover have "next_is lx c" using assms(1) by (simp add: next_is_def peek_unread)
  ultimately show ?thesis by (simp add: consume_specific_def ignore_def clip_def min_def)
qed

lemma consume_specific_miss: "unread lx = d # t \<Longrightarrow> d \<noteq> c \<Longrightarrow> consume_specific lx c = (False, lx)"
  by (auto simp: consume_specific_def next_is_def peek_unread)

lemma consume_specific_eof: "unread lx = [] \<Longrightarrow> c \<noteq> CHR 0x00 \<Longrightarrow> consume_specific lx c = (False, lx)"
  by (auto simp: consume_specific_def next_is_def peek_unread)

lemma consume_number_none: "unread lx = [] \<or> \<not> isdigit (hd (unread lx)) \<Longrightarrow> consume_number lx = (None, lx)"
  by (subst consume_number_def, subst consume_number_loop.simps)
    (auto simp: next_is_pred_def peek_unread hd_conv_nth isdigit_def in_range_def)

lemma specifier_loop_spec:
  "brace_free flags \<Longrightarrow> unread lx = flags @ CHR ''}'' # t \<Longrightarrow> lexer_inv lx \<Longrightarrow> specifier_loop 1 lx = Inr (skip lx (length flags + 1))"
proof (induction flags arbitrary: lx)
  case Nil
  then have "consume_specific lx (CHR ''{'') = (False, lx)" "consume_specific lx (CHR ''}'') = (True, skip lx 1)" "\<not> is_eof lx"
    using consume_specific_miss[of lx "CHR ''}''"] consume_specific_hit[of lx "CHR ''}''"] by (auto simp: is_eof_unread)
  then show ?case by (subst specifier_loop.simps) (simp add: specifier_loop.simps[of 0])
next
  case (Cons c flags)
  then have "consume_specific lx (CHR ''{'') = (False, lx)" "consume_specific lx (CHR ''}'') = (False, lx)" "\<not> is_eof lx"
    using consume_specific_miss[of lx c] by (auto simp: is_eof_unread)
  moreover have "specifier_loop 1 (skip lx 1) = Inr (skip (skip lx 1) (length flags + 1))"
  proof (rule Cons.IH)
    show "unread (skip lx 1) = flags @ CHR ''}'' # t" using Cons.prems by (simp only: unread_skip) simp
    show "lexer_inv (skip lx 1)" using Cons.prems by (intro skip_inv) auto
  qed (use Cons.prems in auto)
  ultimately show ?case by (subst specifier_loop.simps) simp
qed

text \<open>The two forms of a specifier that takes the next parameter: with flags and without.\<close>

definition specifier_text :: "string \<Rightarrow> string" where
  "specifier_text flags = (if flags = [] then ''{}'' else CHR ''{'' # CHR '':'' # flags @ ''}'')"

lemma consume_specifier_spec:
  assumes "brace_free flags" "unread lx = specifier_text flags @ t" "lexer_inv lx"
  shows "consume_specifier lx = Inr (Some (use_next_index, flags), skip lx (length (specifier_text flags)))"
proof (cases "flags = []")
  case True
  then have u: "unread lx = CHR ''{'' # CHR ''}'' # t" using assms by (simp add: specifier_text_def)
  then have u1: "unread (skip lx 1) = CHR ''}'' # t" by (simp only: unread_skip) simp
  have i1: "lexer_inv (skip lx 1)" using u by (intro skip_inv assms) simp
  have "\<not> next_is lx (CHR ''}'')" using u by (simp add: next_is_def peek_unread)
  moreover have "consume_specific lx (CHR ''{'') = (True, skip lx 1)" by (rule consume_specific_hit[OF u assms(3)])
  moreover have "consume_number (skip lx 1) = (None, skip lx 1)"
    using u1 by (intro consume_number_none) (simp add: isdigit_def in_range_def)
  moreover have "consume_specific (skip lx 1) (CHR '':'') = (False, skip lx 1)" by (rule consume_specific_miss[OF u1]) simp
  moreover have "consume_specific (skip lx 1) (CHR ''}'') = (True, skip (skip lx 1) 1)" by (rule consume_specific_hit[OF u1 i1])
  ultimately show ?thesis using True by (simp add: consume_specifier_def specifier_text_def)
next
  case False
  then have u: "unread lx = CHR ''{'' # CHR '':'' # flags @ CHR ''}'' # t" using assms by (simp add: specifier_text_def)
  then have u1: "unread (skip lx 1) = CHR '':'' # flags @ CHR ''}'' # t" by (simp only: unread_skip) simp
  have i1: "lexer_inv (skip lx 1)" using u by (intro skip_inv assms) simp
  have u2: "unread (skip lx 2) = flags @ CHR ''}'' # t" using u by (simp only: unread_skip) simp
  have i2: "lexer_inv (skip lx 2)" using u by (intro skip_inv assms) simp
  have "\<not> next_is lx (CHR ''}'')" using u by (simp add: next_is_def peek_unread)
  moreover have "consume_specific lx (CHR ''{'') = (True, skip lx 1)" by (rule consume_specific_hit[OF u assms(3)])
  moreover have "consume_number (skip lx 1) = (None, skip lx 1)"
    using u1 by (intro consume_number_none) (simp add: isdigit_def in_range_def)
  moreover have "consume_specific (skip lx 1) (CHR '':'') = (True, skip lx 2)"
    using consume_specific_hit[OF u1 i1] by simp
  moreover have "specifier_loop 1 (skip lx 2) = Inr (skip lx (length flags + 3))"
    using specifier_loop_spec[OF assms(1) u2 i2] by (simp add: add.commute)
  moreover have "substring_view (m_input lx) (m_index lx + 2) (length flags) = Inr flags"
  proof -
    have "length (unread (skip lx 2)) = length flags + 1 + length t" by (simp only: u2) simp
    then have "m_index lx + 2 + length flags \<le> length (m_input lx)" by (simp add: unread_def)
    then have "substring_view (m_input lx) (m_index lx + 2) (length flags) = Inr (take (length flags) (unread (skip lx 2)))"
      by (simp add: unread_def)
    then show ?thesis by (simp only: u2) simp
  qed
  ultimately show ?thesis using False by (simp add: consume_specifier_def specifier_text_def)
qed

lemma vformat_step:
  assumes "brace_free lit" "brace_free flags" "unread lx = lit @ specifier_text flags @ t" "lexer_inv lx"
  shows "vformat_impl params builder lx =
    and_then (parameter_at params (m_next_index params)) (\<lambda>p.
    and_then (format_value (params\<lparr>m_next_index := m_next_index params + 1\<rparr>) flags p) (\<lambda>(out, params).
      vformat_impl params (builder @ lit @ out) (skip lx (length lit + length (specifier_text flags)))))"
proof -
  have e: "literal_ends (specifier_text flags @ t)" by (auto simp: literal_ends_def specifier_text_def)
  have u: "unread (skip lx (length lit)) = specifier_text flags @ t" using assms(3) by (simp only: unread_skip) simp
  have i: "lexer_inv (skip lx (length lit))" using assms by (intro skip_inv) auto
  have s: "consume_specifier (skip lx (length lit))
      = Inr (Some (use_next_index, flags), skip lx (length lit + length (specifier_text flags)))"
    using consume_specifier_spec[OF assms(2) u i] by (simp add: add.assoc)
  show ?thesis
    by (subst vformat_impl.simps)
      (simp add: consume_literal_spec[OF assms(1) e assms(3,4)] s resolve_index_def put_literal_plain[OF assms(1)]
        parameter_at_def del: and_then.simps(1) cong: and_then_cong)
qed

lemma vformat_end:
  assumes "brace_free lit" "unread lx = lit" "lexer_inv lx"
  shows "vformat_impl params builder lx = Inr (builder @ lit)"
proof -
  have l: "consume_literal lx = Inr (lit, skip lx (length lit))"
    using consume_literal_spec[of lit "[]" lx] assms by (simp add: literal_ends_def)
  have u: "unread (skip lx (length lit)) = []" using assms(2) by (simp only: unread_skip) simp
  have "consume_specifier (skip lx (length lit)) = Inr (None, skip lx (length lit))"
    using u consume_specific_eof[OF u, of "CHR ''{''"] by (simp add: consume_specifier_def next_is_def peek_unread)
  then show ?thesis using l u
    by (subst vformat_impl.simps) (simp add: put_literal_plain[OF assms(1)] is_eof_unread)
qed


lemma standard_parse_empty: "standard_parse params (make_lexer []) = Inr (default_formatter, params)"
proof -
  let ?lx = "make_lexer []"
  have u: "unread ?lx = []" by (simp add: unread_def make_lexer_def)
  have c: "consume_specific ?lx c = (False, ?lx)" if "c \<noteq> CHR 0x00" for c by (rule consume_specific_eof[OF u that])
  have n: "consume_number ?lx = (None, ?lx)" using u by (intro consume_number_none) simp
  have p: "peek ?lx (Suc 0) = CHR 0x00" using u by (simp add: peek_unread)
  show ?thesis
    by (simp add: standard_parse_def parse_fill_def p parse_align_sign_def c parse_size_def consume_replacement_field_def n
        parse_precision_def mode_letters_def is_eof_unread u default_formatter_def)
qed

lemma format_value_uint: "v < 2 ^ 64 \<Longrightarrow> format_value params [] (UInt b v) = Inr (digit_string 10 False v, params)"
  by (simp add: format_value_def standard_parse_empty format_integral_def default_formatter_def pointer_formatter_def
      mode_base_def put_u64_def convert_unsigned_spec or_else_def put_prefix_def prefix_width_def put_padding_def Let_def)

definition number_text :: "int \<Rightarrow> string" where
  "number_text v = (if v < 0 then ''-'' else []) @ digit_string 10 False (nat \<bar>v\<bar>)"

lemma format_value_sint:
  "- (2 ^ 63) < v \<Longrightarrow> v < 2 ^ 63 \<Longrightarrow> format_value params [] (SInt b v) = Inr (number_text v, params)"
  by (simp add: number_text_def format_value_def standard_parse_empty format_integral_def default_formatter_def pointer_formatter_def
      mode_base_def put_i64_def put_u64_def convert_unsigned_spec or_else_def put_prefix_def prefix_width_def put_padding_def Let_def)

lemma make_lexer_inv: "length s < 2 ^ 32 \<Longrightarrow> lexer_inv (make_lexer s)" "unread (make_lexer s) = s"
  by (simp_all add: lexer_inv_def make_lexer_def unread_def)

lemma vformat_one:
  assumes "brace_free flags" "length flags < 2 ^ 31"
  shows "vformat (specifier_text flags) [p] =
    and_then (format_value \<lparr>m_parameters = [p], m_next_index = 1\<rparr> flags p) (\<lambda>(out, params). Inr out)"
proof -
  let ?s = "specifier_text flags"
  have l: "length ?s < 2 ^ 32" using assms(2) by (simp add: specifier_text_def)
  have s: "vformat_impl \<lparr>m_parameters = [p], m_next_index = 0\<rparr> [] (make_lexer ?s) =
    and_then (format_value \<lparr>m_parameters = [p], m_next_index = 1\<rparr> flags p) (\<lambda>(out, params).
      vformat_impl params out (skip (make_lexer ?s) (length ?s)))"
    using vformat_step[of "[]" flags "make_lexer ?s" "[]" "\<lparr>m_parameters = [p], m_next_index = 0\<rparr>" "[]"] assms make_lexer_inv l
    by (simp add: parameter_at_def)
  have "unread (skip (make_lexer ?s) (length ?s)) = []" by (simp only: unread_skip make_lexer_inv) simp
  moreover have "lexer_inv (skip (make_lexer ?s) (length ?s))" using l by (intro skip_inv make_lexer_inv) (simp_all add: make_lexer_inv)
  ultimately have e: "vformat_impl params out (skip (make_lexer ?s) (length ?s)) = Inr out" for params out
    using vformat_end[of "[]" "skip (make_lexer ?s) (length ?s)" params out] by simp
  show ?thesis unfolding vformat_def s e by simp
qed

lemma strip_negative:
  assumes "list_all isdigit d" "d \<noteq> []"
  shows "strip_right (strip_left (CHR ''-'' # d)) = CHR ''-'' # d"
proof -
  have "isdigit (last d)" using assms by (simp add: list_all_iff)
  then have "\<not> isspace (last d)" by (auto simp: isdigit_def in_range_def isspace_def)
  then have "strip_right ((CHR ''-'' # butlast d) @ last d # []) = (CHR ''-'' # butlast d) @ [last d]"
    by (intro strip_right_append) auto
  then show ?thesis using assms(2) by (simp add: strip_left_def isspace_def)
qed

lemma signed_decimal_digits: "list_all isdigit d \<Longrightarrow> d \<noteq> [] \<Longrightarrow> signed_decimal d = Some (int (decimal d))"
  by (cases d) (auto simp: signed_decimal_def isdigit_def in_range_def)

lemma convert_number_text:
  assumes "- (2 ^ 63) < v" "v < 2 ^ 63"
  shows "convert_to_int 64 (number_text v) = Inr (Some v)"
proof -
  let ?d = "digit_string 10 False (nat \<bar>v\<bar>)"
  have b: "nat \<bar>v\<bar> < 2 ^ 64" using assms by simp
  have dd: "list_all isdigit ?d" "?d \<noteq> []" "decimal ?d = nat \<bar>v\<bar>" by (simp_all add: digit_string_decimal)
  have t: "strip_right (strip_left (number_text v)) = number_text v"
    using dd by (cases "v < 0") (simp_all add: number_text_def strip_negative strip_digits)
  have sd: "signed_decimal (number_text v) = Some v"
    using dd signed_decimal_digits[of ?d] by (cases "v < 0") (simp_all add: number_text_def signed_decimal_def)
  have "length (number_text v) < 2 ^ 32" using length_digit_string[OF b] by (cases "v < 0") (simp_all add: number_text_def)
  then show ?thesis using convert_to_int_spec[of "number_text v" 64] t sd assms by (simp add: fits_int_def)
qed

lemma vformat_sint: "- (2 ^ 63) < v \<Longrightarrow> v < 2 ^ 63 \<Longrightarrow> vformat ''{}'' [SInt b v] = Inr (number_text v)"
  using vformat_one[of "[]" "SInt b v"] format_value_sint[of v _ b] by (simp add: specifier_text_def)

lemma vformat_uint: "v < 2 ^ 64 \<Longrightarrow> vformat ''{}'' [UInt b v] = Inr (digit_string 10 False v)"
  using vformat_one[of "[]" "UInt b v"] format_value_uint[of v _ b] by (simp add: specifier_text_def)

text \<open>
  C36: a signed 64-bit integer other than the least one, printed by the format string \<open>{}\<close> and read back by
  \<open>convert_to_int\<close>, is the same integer.
\<close>

theorem format_integer_round_trip:
  assumes "- (2 ^ 63) < v" "v < 2 ^ 63"
  shows "\<exists>s. vformat ''{}'' [SInt 64 v] = Inr s \<and> convert_to_int 64 s = Inr (Some v)"
  using vformat_sint[OF assms] convert_number_text[OF assms] by blast

theorem format_integer_round_trip_witness:
  "\<exists>s. vformat ''{}'' [SInt 64 (-1234567)] = Inr s \<and> convert_to_int 64 s = Inr (Some (-1234567))"
  by (rule format_integer_round_trip) simp_all

lemma length_put_prefix: "length (put_prefix base prefix upper_case sign_mode is_negative) = prefix_width base prefix sign_mode is_negative"
  by (cases sign_mode) (auto simp: put_prefix_def prefix_width_def)

lemma ceil_div2_add: "n div 2 + ceil_div2 n = n"
  by (simp add: ceil_div2_def) presburger

text \<open>
  \<open>put_u64\<close> never fails an assertion on a 64-bit value and a base from 2 to 16. Unless it pads with zeroes, what
  it appends is as wide as the wider of the field width asked for and of prefix and digits, and the digits appear
  in it unchanged behind the prefix.
\<close>

theorem put_u64_width:
  assumes "2 \<le> base" "base \<le> 16" "v < 2 ^ 64" "\<not> zero_pad"
  shows "\<exists>left right. put_u64 v base prefix upper_case zero_pad align min_width fill sign_mode is_negative
      = Inr (replicate left fill @ put_prefix base prefix upper_case sign_mode is_negative
          @ digit_string base upper_case v @ replicate right fill)
    \<and> left + prefix_width base prefix sign_mode is_negative + length (digit_string base upper_case v) + right
      = max min_width (prefix_width base prefix sign_mode is_negative + length (digit_string base upper_case v))"
proof -
  define w where "w = prefix_width base prefix sign_mode is_negative + length (digit_string base upper_case v)"
  define pad where "pad = max w min_width - w"
  have s: "w + pad = max min_width w" by (simp add: pad_def)
  note d = put_u64_def convert_unsigned_spec[OF assms(1-3)] put_padding_def Let_def
  show ?thesis
  proof (cases align)
    case AlignLeft
    then show ?thesis using s assms(4) by (intro exI[of _ 0] exI[of _ pad]) (simp add: d pad_def w_def)
  next
    case AlignCenter
    then have "put_u64 v base prefix upper_case zero_pad align min_width fill sign_mode is_negative
      = Inr (replicate (pad div 2) fill @ put_prefix base prefix upper_case sign_mode is_negative
          @ digit_string base upper_case v @ replicate (ceil_div2 pad) fill)"
      using assms(4) by (simp add: d pad_def w_def)
    moreover have "pad div 2 + prefix_width base prefix sign_mode is_negative + length (digit_string base upper_case v) + ceil_div2 pad
      = max min_width w"
      using s ceil_div2_add[of pad] unfolding w_def by linarith
    ultimately show ?thesis unfolding w_def by blast
  next
    case AlignRight
    then show ?thesis using s assms(4) by (intro exI[of _ pad] exI[of _ 0]) (simp add: d pad_def w_def)
  next
    case AlignDefault
    then show ?thesis using s assms(4) by (intro exI[of _ pad] exI[of _ 0]) (simp add: d pad_def w_def)
  qed
qed

theorem put_u64_width_witness:
  "\<exists>left right. put_u64 255 16 True False False AlignCenter 9 (CHR ''*'') OnlyIfNeeded False
      = Inr (replicate left (CHR ''*'') @ put_prefix 16 True False OnlyIfNeeded False
          @ digit_string 16 False 255 @ replicate right (CHR ''*''))
    \<and> left + prefix_width 16 True OnlyIfNeeded False + length (digit_string 16 False 255) + right
      = max 9 (prefix_width 16 True OnlyIfNeeded False + length (digit_string 16 False 255))"
  by (rule put_u64_width) simp_all

end
