(* ===== verification/AK_Hex.thy ===== *)
theory AK_Hex
  imports AK_Format
begin

text \<open>
  \<open>AK/Hex.cpp\<close> and \<open>AK/URLParser.cpp\<close>: bytes as hexadecimal digits and the percent-encoding of URLs, both printed
  through \<open>vformat\<close>, and the decoders of the two.
\<close>

subsection \<open>\<open>Hex.cpp\<close>\<close>

definition decode_hex_digit :: "char \<Rightarrow> nat" where
  "decode_hex_digit digit =
     (if in_range (CHR ''0'') (CHR ''9'') digit then code digit - code (CHR ''0'')
      else if in_range (CHR ''a'') (CHR ''f'') digit then 10 + (code digit - code (CHR ''a''))
      else if in_range (CHR ''A'') (CHR ''F'') digit then 10 + (code digit - code (CHR ''A''))
      else 255)"

fun decode_hex_loop :: "string \<Rightarrow> u8 list \<Rightarrow> u8 list option" where
  "decode_hex_loop (a # b # input) out =
     (let c1 = decode_hex_digit a in
      if c1 \<ge> 16 then None
      else
        let c2 = decode_hex_digit b in
        if c2 \<ge> 16 then None else decode_hex_loop input (out @ [push_bit 4 (of_nat c1) + of_nat c2]))"
| "decode_hex_loop _ out = Some out"

definition decode_hex :: "string \<Rightarrow> u8 list option" where
  "decode_hex input = (if length input mod 2 \<noteq> 0 then None else decode_hex_loop input [])"

fun encode_hex :: "u8 list \<Rightarrow> string result" where
  "encode_hex [] = Inr []"
| "encode_hex (ch # input) =
     and_then (vformat ''{:02x}'' [UInt 8 (unat ch)]) (\<lambda>out. and_then (encode_hex input) (\<lambda>rest. Inr (out @ rest)))"

subsection \<open>Two hexadecimal digits\<close>

lemma standard_parse_hex2:
  "standard_parse params (make_lexer ''02x'')
     = Inr (default_formatter\<lparr>sf_zero_pad := True, sf_width := Some 2, sf_mode := Hexadecimal\<rparr>, params)"
  "standard_parse params (make_lexer ''02X'')
     = Inr (default_formatter\<lparr>sf_zero_pad := True, sf_width := Some 2, sf_mode := HexadecimalUppercase\<rparr>, params)"
  by (simp_all add: standard_parse_def parse_fill_def parse_align_sign_def parse_size_def consume_replacement_field_def
      parse_precision_def mode_letters_def consume_specific_def consume_number_def consume_number_loop.simps next_is_def
      next_is_pred_def peek_def make_lexer_def ignore_def clip_def is_eof_def default_formatter_def isdigit_def in_range_def
      digit_value_def)


definition hex2 :: "bool \<Rightarrow> nat \<Rightarrow> string" where
  "hex2 upper_case v =
     (let lookup = (if upper_case then uppercase_lookup else lowercase_lookup) in [lookup ! (v div 16), lookup ! (v mod 16)])"

lemma lookup_0: "lowercase_lookup ! 0 = CHR ''0''" "uppercase_lookup ! 0 = CHR ''0''"
  by (simp_all add: lowercase_lookup_def uppercase_lookup_def)

lemma put_hex2:
  assumes "v < 256"
  shows "put_u64 v 16 False upper_case True AlignDefault 2 fill OnlyIfNeeded False = Inr (hex2 upper_case v)"
proof -
  have "v < 2 ^ 64" using assms by simp
  then have c: "convert_unsigned_to_string v 16 upper_case = Inr (digit_string 16 upper_case v)" by (intro convert_unsigned_spec) auto
  have d: "digits 16 v = (if v = 0 then [] else if v < 16 then [v] else [v mod 16, v div 16])"
    using assms digits_step[of v 16] digits_step[of "v div 16" 16] by (auto simp: div_less)
  show ?thesis using c d lookup_0
    by (auto simp: put_u64_def Let_def prefix_width_def put_prefix_def put_padding_def digit_string_def hex2_def max_def)
qed

lemma format_hex2:
  assumes "v < 256"
  shows "vformat ''{:02x}'' [UInt 8 v] = Inr (hex2 False v)" "vformat ''{:02X}'' [UInt 8 v] = Inr (hex2 True v)"
proof -
  have "format_value params ''02x'' (UInt 8 v) = Inr (hex2 False v, params)"
    "format_value params ''02X'' (UInt 8 v) = Inr (hex2 True v, params)" for params
    by (simp_all add: format_value_def standard_parse_hex2 format_integral_def default_formatter_def pointer_formatter_def
        mode_base_def or_else_def put_hex2[OF assms])
  then show "vformat ''{:02x}'' [UInt 8 v] = Inr (hex2 False v)" "vformat ''{:02X}'' [UInt 8 v] = Inr (hex2 True v)"
    using vformat_one[of "''02x''" "UInt 8 v"] vformat_one[of "''02X''" "UInt 8 v"] by (simp_all add: specifier_text_def)
qed

lemma sixteen: "d < 16 \<Longrightarrow> d \<in> {0, 1, 2, 3, 4, 5, 6, 7, 8, 9, 10, 11, 12, 13, 14, 15 :: nat}"
proof -
  assume "d < 16"
  then have "d \<in> set [0..<16]" by simp
  also have "set [0..<16] = {0, 1, 2, 3, 4, 5, 6, 7, 8, 9, 10, 11, 12, 13, 14, 15 :: nat}" by code_simp
  finally show ?thesis .
qed

lemma decode_lookup: "d < 16 \<Longrightarrow> decode_hex_digit (lowercase_lookup ! d) = d"
  using sixteen[of d] by (auto simp: decode_hex_digit_def lowercase_lookup_def in_range_def)

lemma halves: "push_bit 4 (of_nat (n div 16)) + of_nat (n mod 16) = (of_nat n :: u8)"
proof -
  have "(of_nat n :: u8) = of_nat (16 * (n div 16) + n mod 16)" by simp
  also have "\<dots> = push_bit 4 (of_nat (n div 16)) + of_nat (n mod 16)"
    by (simp only: of_nat_add of_nat_mult push_bit_eq_mult) (simp add: mult.commute)
  finally show ?thesis by simp
qed

lemma byte_of_halves: "push_bit 4 (of_nat (unat ch div 16)) + of_nat (unat ch mod 16) = (ch :: u8)"
  unfolding halves by simp

lemma unat_u8: "unat (ch :: u8) < 256"
  using unsigned_less[of ch, where ?'a = nat] by simp

lemma encode_hex_spec: "encode_hex input = Inr (concat (map (\<lambda>ch. hex2 False (unat ch)) input))"
  by (induction input) (simp_all add: format_hex2 unat_u8)

lemma decode_hex_encoded: "decode_hex_loop (concat (map (\<lambda>ch. hex2 False (unat ch)) input)) out = Some (out @ input)"
proof (induction input arbitrary: out)
  case (Cons ch input)
  have "unat ch div 16 < 16" using unat_u8[of ch] by simp
  then show ?case using Cons by (simp add: hex2_def Let_def decode_lookup byte_of_halves)
qed simp

text \<open>\<open>decode_hex\<close> turns what \<open>encode_hex\<close> prints of any bytes back into these bytes.\<close>

theorem hex_round_trip: "\<exists>s. encode_hex input = Inr s \<and> decode_hex s = Some input"
proof -
  have "length (concat (map (\<lambda>ch. hex2 False (unat ch)) input)) = 2 * length input"
    by (induction input) (simp_all add: hex2_def Let_def)
  then show ?thesis by (simp add: encode_hex_spec decode_hex_def decode_hex_encoded)
qed

subsection \<open>\<open>URLParser.cpp\<close>\<close>

definition is_ascii_hex_digit :: "char \<Rightarrow> bool" where
  "is_ascii_hex_digit ch \<longleftrightarrow>
     in_range (CHR ''0'') (CHR ''9'') ch \<or> in_range (CHR ''a'') (CHR ''f'') ch \<or> in_range (CHR ''A'') (CHR ''F'') ch"

definition url_peek :: "string \<Rightarrow> nat \<Rightarrow> nat \<Rightarrow> char" where
  "url_peek input cursor offset = (if length input \<le> cursor + offset then CHR 0x00 else input ! (cursor + offset))"

text \<open>\<open>byte_point.value()\<close> verifies that there is a value.\<close>

function urldecode_loop :: "string \<Rightarrow> nat \<Rightarrow> string \<Rightarrow> string result" where
  "urldecode_loop input cursor builder =
     (if cursor < length input then
        if url_peek input cursor 0 \<noteq> CHR ''%'' then urldecode_loop input (cursor + 1) (builder @ [input ! cursor])
        else if \<not> is_ascii_hex_digit (url_peek input cursor 1) \<or> \<not> is_ascii_hex_digit (url_peek input cursor 2) then
          urldecode_loop input (cursor + 1) (builder @ [input ! cursor])
        else
          and_then (substring_view input (cursor + 1) 2) (\<lambda>v.
          and_then (convert_to_uint_from_hex 32 v) (\<lambda>byte_point.
            case byte_point of
              None \<Rightarrow> Inl VerifyFailed
            | Some b \<Rightarrow> urldecode_loop input (cursor + 3) (builder @ [char_of b])))
      else Inr builder)"
  by pat_completeness auto
termination by (relation "measure (\<lambda>(input, cursor, builder). length input - cursor)") auto

declare urldecode_loop.simps [simp del]

definition urldecode :: "string \<Rightarrow> string result" where
  "urldecode input = urldecode_loop input 0 []"

definition in_c0_control_set :: "nat \<Rightarrow> bool" where
  "in_c0_control_set c \<longleftrightarrow> c \<le> 0x1f \<or> c > code (CHR ''~'')"

definition in_fragment_set :: "nat \<Rightarrow> bool" where
  "in_fragment_set c \<longleftrightarrow> in_c0_control_set c \<or> c \<in> set (map code [CHR '' '', CHR 0x22, CHR ''<'', CHR ''>'', CHR 0x60])"

definition in_path_set :: "nat \<Rightarrow> bool" where
  "in_path_set c \<longleftrightarrow> in_fragment_set c \<or> c \<in> set (map code ''#?{}'')"

definition in_userinfo_set :: "nat \<Rightarrow> bool" where
  "in_userinfo_set c \<longleftrightarrow>
     in_path_set c \<or> c \<in> set (map code ''/:;=@'') \<or> code (CHR ''['') \<le> c \<and> c \<le> code (CHR ''^'') \<or> c = code (CHR ''|'')"

fun urlencode :: "string \<Rightarrow> string \<Rightarrow> string result" where
  "urlencode [] exclude = Inr []"
| "urlencode (ch # input) exclude =
     and_then (if in_userinfo_set (code ch) \<and> \<not> contains_char exclude ch
               then and_then (vformat ''{:02X}'' [UInt 8 (code ch)]) (\<lambda>out. Inr (CHR ''%'' # out))
               else Inr [ch]) (\<lambda>out.
     and_then (urlencode input exclude) (\<lambda>rest. Inr (out @ rest)))"

lemma hex_digit_lookup: "d < 16 \<Longrightarrow> is_ascii_hex_digit (uppercase_lookup ! d) \<and> hex_digit_value (uppercase_lookup ! d) = Some d
    \<and> \<not> isspace (uppercase_lookup ! d)"
  using sixteen[of d] by (auto simp: is_ascii_hex_digit_def hex_digit_value_def uppercase_lookup_def in_range_def isspace_def)

lemma convert_hex2:
  assumes "v < 256"
  shows "convert_to_uint_from_hex 32 (hex2 True v) = Inr (Some v)"
proof -
  have d: "v div 16 < 16" "v mod 16 < 16" using assms by simp_all
  have "trim_whitespace (hex2 True v) TrimBoth = Inr (hex2 True v)"
    using trim_whitespace_both[of "hex2 True v"] hex_digit_lookup[OF d(1)] hex_digit_lookup[OF d(2)]
    by (simp add: hex2_def Let_def strip_left_def strip_right_def)
  moreover have "convert_to_uint_from_hex_loop 32 (hex2 True v) 0 = Some v"
    using hex_digit_lookup[OF d(1)] hex_digit_lookup[OF d(2)] d assms by (simp add: hex2_def Let_def)
  ultimately show ?thesis by (simp add: convert_to_uint_from_hex_def hex2_def Let_def)
qed

text \<open>What the decoder does with one encoded character, and with one that stands for itself.\<close>

lemma urldecode_escape:
  assumes "drop cursor input = CHR ''%'' # hex2 True v @ t" "v < 256"
  shows "urldecode_loop input cursor builder = urldecode_loop input (cursor + 3) (builder @ [char_of v])"
proof -
  have d: "v div 16 < 16" "v mod 16 < 16" using assms by simp_all
  have l: "cursor + 3 \<le> length input"
    using arg_cong[OF assms(1), of length] by (simp add: hex2_def Let_def)
  have n: "input ! (cursor + k) = (CHR ''%'' # hex2 True v @ t) ! k" if "k < 3" for k
    using assms(1) l that by (metis add_leD1 nth_drop)
  have v: "substring_view input (cursor + 1) 2 = Inr (hex2 True v)"
  proof -
    have "take 2 (drop (cursor + 1) input) = take 2 (drop 1 (drop cursor input))" by simp
    also have "\<dots> = hex2 True v" unfolding assms(1) by (simp add: hex2_def Let_def)
    finally show ?thesis using l by simp
  qed
  have "url_peek input cursor 0 = CHR ''%''" "is_ascii_hex_digit (url_peek input cursor 1)" "is_ascii_hex_digit (url_peek input cursor 2)"
    using n[of 0] n[of 1] n[of 2] l hex_digit_lookup[OF d(1)] hex_digit_lookup[OF d(2)] by (simp_all add: url_peek_def hex2_def Let_def)
  moreover have "cursor < length input" using l by simp
  ultimately show ?thesis using v convert_hex2[OF assms(2)] by (subst urldecode_loop.simps) (simp add: Let_def)
qed

lemma urldecode_plain:
  assumes "drop cursor input = c # t" "c \<noteq> CHR ''%''"
  shows "urldecode_loop input cursor builder = urldecode_loop input (cursor + 1) (builder @ [c])"
proof -
  have "cursor < length input" using arg_cong[OF assms(1), of length] by simp
  moreover have "input ! cursor = c" using assms(1) \<open>cursor < length input\<close> by (metis Cons_nth_drop_Suc list.inject)
  ultimately show ?thesis using assms(2) by (subst urldecode_loop.simps) (simp add: url_peek_def)
qed

definition url_char :: "string \<Rightarrow> char \<Rightarrow> string" where
  "url_char exclude ch = (if in_userinfo_set (code ch) \<and> \<not> contains_char exclude ch then CHR ''%'' # hex2 True (code ch) else [ch])"

lemma urlencode_spec: "urlencode input exclude = Inr (concat (map (url_char exclude) input))"
  by (induction input) (simp_all add: url_char_def format_hex2 nat_of_char_less_256)

lemma urldecode_encoded:
  "drop cursor s = concat (map (url_char exclude) input) \<Longrightarrow> CHR ''%'' \<notin> set input \<Longrightarrow> urldecode_loop s cursor builder = Inr (builder @ input)"
proof (induction input arbitrary: cursor builder)
  case Nil
  then show ?case by (subst urldecode_loop.simps) simp
next
  case (Cons ch input)
  let ?t = "concat (map (url_char exclude) input)"
  show ?case
  proof (cases "in_userinfo_set (code ch) \<and> \<not> contains_char exclude ch")
    case True
    then have d: "drop cursor s = CHR ''%'' # hex2 True (code ch) @ ?t" using Cons.prems by (simp add: url_char_def[of exclude ch])
    have "drop (cursor + 3) s = drop 3 (drop cursor s)" by (simp add: add.commute)
    also have "\<dots> = ?t" unfolding d by (simp add: hex2_def Let_def)
    finally have "urldecode_loop s (cursor + 3) (builder @ [ch]) = Inr ((builder @ [ch]) @ input)" using Cons by simp
    then show ?thesis using urldecode_escape[OF d nat_of_char_less_256] by simp
  next
    case False
    then have d: "drop cursor s = ch # ?t" using Cons.prems by (auto simp: url_char_def[of exclude ch])
    have "drop (cursor + 1) s = drop 1 (drop cursor s)" by (simp add: add.commute)
    also have "\<dots> = ?t" unfolding d by simp
    finally have "urldecode_loop s (cursor + 1) (builder @ [ch]) = Inr ((builder @ [ch]) @ input)" using Cons by simp
    then show ?thesis using urldecode_plain[OF d] Cons.prems by auto
  qed
qed

text \<open>
  For every string without a percent sign, whatever characters are excluded from the encoding, \<open>urldecode\<close>
  gives back what \<open>urlencode\<close> was given.
\<close>

theorem urlencode_round_trip:
  assumes "CHR ''%'' \<notin> set input"
  shows "\<exists>s. urlencode input exclude = Inr s \<and> urldecode s = Inr input"
  using urldecode_encoded[of 0 "concat (map (url_char exclude) input)" exclude input "[]"] assms
  by (simp add: urlencode_spec urldecode_def)

theorem urlencode_round_trip_witness:
  "\<exists>s. urlencode ''a b/c?'' ''/'' = Inr s \<and> urldecode s = Inr ''a b/c?''"
  by (rule urlencode_round_trip) simp

text \<open>
  A percent sign is not encoded, so decoding takes a percent sign and two hexadecimal digits of the original
  text for an encoded character: no text that contains such a sequence comes back.
\<close>

theorem urlencode_percent:
  assumes "v < 256"
  shows "urlencode (CHR ''%'' # hex2 True v) exclude = Inr (CHR ''%'' # hex2 True v)
    \<and> urldecode (CHR ''%'' # hex2 True v) = Inr [char_of v]"
proof -
  have d: "v div 16 < 16" "v mod 16 < 16" using assms by simp_all
  have n: "\<not> in_userinfo_set (code (uppercase_lookup ! d))" if "d < 16" for d
    using sixteen[OF that]
    by (auto simp: in_userinfo_set_def in_path_set_def in_fragment_set_def in_c0_control_set_def uppercase_lookup_def)
  have "\<not> in_userinfo_set (code (CHR ''%''))"
    by (simp add: in_userinfo_set_def in_path_set_def in_fragment_set_def in_c0_control_set_def)
  then have "concat (map (url_char exclude) (CHR ''%'' # hex2 True v)) = CHR ''%'' # hex2 True v"
    using n[OF d(1)] n[OF d(2)] by (simp add: url_char_def hex2_def Let_def)
  moreover have "urldecode (CHR ''%'' # hex2 True v) = Inr [char_of v]"
    using urldecode_escape[of 0 "CHR ''%'' # hex2 True v" v "[]" "[]"] assms
    by (simp add: urldecode_def urldecode_loop.simps[of _ 3] hex2_def Let_def)
  ultimately show ?thesis by (simp add: urlencode_spec)
qed

theorem urlencode_percent_witness:
  "urlencode (CHR ''%'' # hex2 True 65) [] = Inr (CHR ''%'' # hex2 True 65)
    \<and> urldecode (CHR ''%'' # hex2 True 65) = Inr [char_of (65 :: nat)]"
  by (rule urlencode_percent) simp

end
