(* ===== verification/AK_LexicalPath.thy ===== *)
theory AK_LexicalPath
  imports AK_StringUtils
begin

text \<open>
  \<open>AK/LexicalPath.cpp\<close>: the canonical form of a path, its parts, directory name, base name, title and extension.
  The parts are related to a predicate for canonical sequences of parts, and printing and splitting them to the
  join and the split of strings.
\<close>

subsection \<open>The path\<close>

record lexical_path =
  m_parts :: "string list"
  m_string :: string
  m_dirname :: string
  m_basename :: string
  m_title :: string
  m_extension :: string
  m_is_valid :: bool
  m_is_absolute :: bool

text \<open>The loop over the parts: \<open>acc\<close> are the \<open>canonical_parts\<close> so far.\<close>

fun canonical_parts_loop :: "bool \<Rightarrow> string list \<Rightarrow> string list \<Rightarrow> string list" where
  "canonical_parts_loop is_absolute [] acc = acc"
| "canonical_parts_loop is_absolute (part # parts) acc =
     (if part = ''.'' then canonical_parts_loop is_absolute parts acc
      else if part = ''..'' \<and> acc = [] \<and> is_absolute then canonical_parts_loop is_absolute parts acc
      else if part = ''..'' \<and> acc \<noteq> [] \<and> last acc \<noteq> ''..'' then canonical_parts_loop is_absolute parts (butlast acc)
      else if part \<noteq> [] then canonical_parts_loop is_absolute parts (acc @ [part])
      else canonical_parts_loop is_absolute parts acc)"

definition build_path :: "bool \<Rightarrow> string list \<Rightarrow> string" where
  "build_path is_absolute parts =
     concat (map (\<lambda>i. (if is_absolute \<or> i \<noteq> 0 then ''/'' else []) @ parts ! i) [0..<length parts])"

definition canonicalize :: "string \<Rightarrow> lexical_path result" where
  "canonicalize s =
     (let path = \<lparr>m_parts = [], m_string = s, m_dirname = [], m_basename = [], m_title = [], m_extension = [],
                  m_is_valid = False, m_is_absolute = False\<rparr> in
      if s = [] then Inr path
      else
        let is_absolute = (s ! 0 = CHR ''/'') in
        and_then (split_view s (CHR ''/'') False) (\<lambda>parts.
          let canonical_parts = canonical_parts_loop is_absolute parts []; path = path\<lparr>m_is_absolute := is_absolute\<rparr> in
          if canonical_parts = [] then Inr (path\<lparr>m_string := ''/'', m_basename := ''/'', m_dirname := ''/''\<rparr>)
          else
            let basename = last canonical_parts; path = path\<lparr>
              m_parts := canonical_parts,
              m_dirname := build_path is_absolute (butlast canonical_parts),
              m_basename := basename,
              m_string := build_path is_absolute canonical_parts\<rparr> in
            Inr (case find_last_of basename (CHR ''.'') of
                Some last_dot \<Rightarrow> path\<lparr>m_title := take last_dot basename, m_extension := drop (last_dot + 1) basename\<rparr>
              | None \<Rightarrow> path\<lparr>m_title := basename\<rparr>)))"

definition make_lexical_path :: "string \<Rightarrow> lexical_path result" where
  "make_lexical_path s = and_then (canonicalize s) (\<lambda>path. Inr (path\<lparr>m_is_valid := True\<rparr>))"

definition has_extension :: "lexical_path \<Rightarrow> string \<Rightarrow> bool" where
  "has_extension path extension = ends_with (m_string path) extension CaseInsensitive"

definition canonicalized_path :: "string \<Rightarrow> string result" where
  "canonicalized_path path = and_then (make_lexical_path path) (\<lambda>p. Inr (m_string p))"

text \<open>\<open>None\<close> is the null string.\<close>

definition relative_path :: "string \<Rightarrow> string \<Rightarrow> string option result" where
  "relative_path absolute_path prefix =
     and_then (make_lexical_path absolute_path) (\<lambda>a.
     and_then (make_lexical_path prefix) (\<lambda>p.
       if \<not> m_is_absolute a \<or> \<not> m_is_absolute p then Inr None
       else if \<not> starts_with False absolute_path prefix CaseSensitive then Inr (Some absolute_path)
       else
         let prefix_length = length (m_string p) + (if prefix \<noteq> ''/'' then 1 else 0) in
         if prefix_length \<ge> length absolute_path then Inr None
         else Inr (Some (drop prefix_length absolute_path))))"

subsection \<open>Canonical parts\<close>

text \<open>
  A canonical sequence of parts: no part is empty or \<open>.\<close>, none contains a slash, and \<open>..\<close> occurs only at the front, and
  not at all in an absolute path.
\<close>

definition canonical :: "bool \<Rightarrow> string list \<Rightarrow> bool" where
  "canonical is_absolute parts \<longleftrightarrow>
     (\<forall>part \<in> set parts. part \<noteq> [] \<and> part \<noteq> ''.'' \<and> CHR ''/'' \<notin> set part)
     \<and> (\<exists>n. (\<forall>i < n. parts ! i = ''..'') \<and> (\<forall>i. n \<le> i \<and> i < length parts \<longrightarrow> parts ! i \<noteq> ''..'') \<and> n \<le> length parts
          \<and> (is_absolute \<longrightarrow> n = 0))"

lemma canonical_Nil [simp]: "canonical is_absolute []"
  by (auto simp: canonical_def)

lemma canonical_butlast: "canonical is_absolute parts \<Longrightarrow> canonical is_absolute (butlast parts)"
proof -
  assume c: "canonical is_absolute parts"
  then obtain n where n: "\<forall>i < n. parts ! i = ''..''" "\<forall>i. n \<le> i \<and> i < length parts \<longrightarrow> parts ! i \<noteq> ''..''" "n \<le> length parts" "is_absolute \<longrightarrow> n = 0"
    by (auto simp: canonical_def)
  let ?n = "min n (length (butlast parts))"
  have "(\<forall>i < ?n. butlast parts ! i = ''..'') \<and> (\<forall>i. ?n \<le> i \<and> i < length (butlast parts) \<longrightarrow> butlast parts ! i \<noteq> ''..'')
      \<and> ?n \<le> length (butlast parts) \<and> (is_absolute \<longrightarrow> ?n = 0)"
    using n by (auto simp: nth_butlast min_def split: if_splits)
  moreover have "\<forall>part \<in> set (butlast parts). part \<noteq> [] \<and> part \<noteq> ''.'' \<and> CHR ''/'' \<notin> set part"
    using c by (auto simp: canonical_def dest: in_set_butlastD)
  ultimately show ?thesis unfolding canonical_def by blast
qed

lemma canonical_append:
  assumes "canonical is_absolute acc" "part \<noteq> []" "part \<noteq> ''.''" "CHR ''/'' \<notin> set part"
    and "part = ''..'' \<longrightarrow> (if acc = [] then \<not> is_absolute else last acc = ''..'')"
  shows "canonical is_absolute (acc @ [part])"
proof -
  obtain n where n: "\<forall>i < n. acc ! i = ''..''" "\<forall>i. n \<le> i \<and> i < length acc \<longrightarrow> acc ! i \<noteq> ''..''" "n \<le> length acc" "is_absolute \<longrightarrow> n = 0"
    using assms by (auto simp: canonical_def)
  let ?n = "if part = ''..'' then n + 1 else n"
  have dd: "part = ''..'' \<Longrightarrow> n = length acc \<and> \<not> is_absolute"
  proof -
    assume p: "part = ''..''"
    show ?thesis
    proof (cases "acc = []")
      case True
      then show ?thesis using p assms(5) n by simp
    next
      case False
      then have l: "acc ! (length acc - 1) = ''..''" using p assms(5) by (simp add: last_conv_nth)
      then have "\<not> n \<le> length acc - 1" using n(2) False by (metis diff_less length_greater_0_conv zero_less_one)
      then have "n = length acc" "0 < n" using n(3) by auto
      then show ?thesis using n(4) by auto
    qed
  qed
  have "(\<forall>i < ?n. (acc @ [part]) ! i = ''..'') \<and> (\<forall>i. ?n \<le> i \<and> i < length (acc @ [part]) \<longrightarrow> (acc @ [part]) ! i \<noteq> ''..'')
      \<and> ?n \<le> length (acc @ [part]) \<and> (is_absolute \<longrightarrow> ?n = 0)"
    using n dd by (auto simp: nth_append less_Suc_eq)
  moreover have "\<forall>p \<in> set (acc @ [part]). p \<noteq> [] \<and> p \<noteq> ''.'' \<and> CHR ''/'' \<notin> set p"
    using assms by (auto simp: canonical_def)
  ultimately show ?thesis unfolding canonical_def by blast
qed

lemma canonical_loop:
  "canonical is_absolute acc \<Longrightarrow> \<forall>part \<in> set parts. CHR ''/'' \<notin> set part \<Longrightarrow> canonical is_absolute (canonical_parts_loop is_absolute parts acc)"
proof (induction parts arbitrary: acc)
  case (Cons part parts)
  then show ?case using canonical_butlast[of is_absolute acc] canonical_append[of is_absolute acc part] by auto
qed simp

lemma canonical_loop_fixpoint:
  "canonical is_absolute (acc @ parts) \<Longrightarrow> canonical_parts_loop is_absolute parts acc = acc @ parts"
proof (induction parts arbitrary: acc)
  case (Cons part parts)
  obtain n where n: "\<forall>i < n. (acc @ part # parts) ! i = ''..''" "\<forall>i. n \<le> i \<and> i < length (acc @ part # parts) \<longrightarrow> (acc @ part # parts) ! i \<noteq> ''..''"
    "is_absolute \<longrightarrow> n = 0"
    using Cons.prems by (auto simp: canonical_def)
  have p: "part \<noteq> ''.''" "part \<noteq> []" using Cons.prems by (auto simp: canonical_def)
  have at: "(acc @ part # parts) ! length acc = part" by simp
  have dd: "part = ''..'' \<Longrightarrow> length acc < n"
    using n(2) at by (metis (no_types, lifting) Suc_le_lessD add_Suc_right le_add1 length_Cons length_append linorder_not_less)
  have "part = ''..'' \<Longrightarrow> acc = [] \<Longrightarrow> \<not> is_absolute" using dd n(3) by auto
  moreover have "part = ''..'' \<Longrightarrow> acc \<noteq> [] \<Longrightarrow> last acc = ''..''"
  proof -
    assume a: "part = ''..''" "acc \<noteq> []"
    then have "(acc @ part # parts) ! (length acc - 1) = ''..''" using n(1) dd by auto
    then show "last acc = ''..''" using a by (simp add: nth_append last_conv_nth)
  qed
  moreover have "canonical_parts_loop is_absolute parts (acc @ [part]) = acc @ part # parts"
    using Cons.IH[of "acc @ [part]"] Cons.prems by simp
  ultimately show ?case using p by auto
qed simp

subsection \<open>Printing a path and splitting it again\<close>

lemma build_path_relative: "build_path False parts = join (CHR ''/'') parts"
proof (induction parts rule: rev_induct)
  case (snoc x xs)
  have j: "xs \<noteq> [] \<Longrightarrow> join (CHR ''/'') (xs @ [x]) = join (CHR ''/'') xs @ ''/'' @ x"
    by (induction "CHR ''/''" xs rule: join.induct) auto
  have "build_path False (xs @ [x]) = build_path False xs @ (if length xs \<noteq> 0 then ''/'' else []) @ x"
    by (simp add: build_path_def nth_append) (rule arg_cong[of _ _ concat], rule map_cong, auto)
  then show ?case using snoc j by (cases "xs = []") auto
qed (simp add: build_path_def)

lemma build_path_absolute: "parts \<noteq> [] \<Longrightarrow> build_path True parts = CHR ''/'' # build_path False parts"
proof -
  assume "parts \<noteq> []"
  then have u: "[0..<length parts] = 0 # [1..<length parts]" by (simp add: upt_conv_Cons)
  show ?thesis unfolding build_path_def u by simp (rule arg_cong[of _ _ concat], rule map_cong, auto)
qed

lemma build_path_split:
  assumes "canonical is_absolute parts" "parts \<noteq> []"
  shows "split_view (build_path is_absolute parts) (CHR ''/'') False = Inr parts"
    and "build_path is_absolute parts \<noteq> []" and "build_path is_absolute parts ! 0 = CHR ''/'' \<longleftrightarrow> is_absolute"
proof -
  have np: "\<forall>part \<in> set parts. CHR ''/'' \<notin> set part" "\<forall>part \<in> set parts. part \<noteq> []" using assms(1) by (auto simp: canonical_def)
  have sp: "split_parts (\<lambda>ch. ch = CHR ''/'') (build_path False parts) [] = parts"
    using split_parts_join[OF assms(2) np(1)] by (simp add: build_path_relative)
  have kp: "kept False parts = parts" using np(2) by (simp add: kept_def filter_id_conv)
  obtain c cs ps where c: "parts = (c # cs) # ps" using assms(2) np(2) by (metis list.set_intros(1) neq_Nil_conv)
  then have rel: "\<exists>t. build_path False parts = c # t" by (cases ps) (auto simp: build_path_relative)
  have cn: "c \<noteq> CHR ''/''" using np(1) c by auto
  show ne: "build_path is_absolute parts \<noteq> []" using rel build_path_absolute[OF assms(2)] by (cases is_absolute) auto
  show "build_path is_absolute parts ! 0 = CHR ''/'' \<longleftrightarrow> is_absolute"
    using rel cn build_path_absolute[OF assms(2)] by (cases is_absolute) auto
  show "split_view (build_path is_absolute parts) (CHR ''/'') False = Inr parts"
    using ne sp kp build_path_absolute[OF assms(2)] by (cases is_absolute) (auto simp: split_view_spec kept_def)
qed

definition path_parts :: "string \<Rightarrow> string list" where
  "path_parts s = canonical_parts_loop (s ! 0 = CHR ''/'') (kept False (split_parts (\<lambda>ch. ch = CHR ''/'') s [])) []"

lemma path_parts_canonical: "canonical (s ! 0 = CHR ''/'') (path_parts s)"
  unfolding path_parts_def
  by (rule canonical_loop) (use split_parts_free[of "[]" "\<lambda>ch. ch = CHR ''/''" s] in \<open>auto simp: kept_def\<close>)

lemma canonicalize_spec:
  assumes "s \<noteq> []"
  shows "\<exists>p. make_lexical_path s = Inr p \<and> m_is_absolute p = (s ! 0 = CHR ''/'') \<and> m_parts p = path_parts s
    \<and> m_string p = (if path_parts s = [] then ''/'' else build_path (s ! 0 = CHR ''/'') (path_parts s))"
  using assms by (auto simp: make_lexical_path_def canonicalize_def split_view_spec path_parts_def[symmetric] Let_def split: option.splits)



text \<open>
  A relative path that leads back to where it starts becomes the root directory: the canonical form of any
  name followed by \<open>/..\<close> is \<open>/\<close>, which is absolute.
\<close>

theorem relative_becomes_root:
  assumes "name \<noteq> []" "CHR ''/'' \<notin> set name" "name \<noteq> ''.''" "name \<noteq> ''..''"
  shows "canonicalized_path (name @ ''/..'') = Inr ''/''"
proof -
  let ?s = "name @ ''/..''"
  have "split_parts (\<lambda>ch. ch = CHR ''/'') ?s [] = split_parts (\<lambda>ch. ch = CHR ''/'') ''/..'' ([] @ name)"
    by (rule split_parts_run) (use assms(2) in auto)
  then have "kept False (split_parts (\<lambda>ch. ch = CHR ''/'') ?s []) = [name, ''..'']" using assms(1) by (simp add: kept_def)
  moreover have "?s ! 0 \<noteq> CHR ''/''" using assms by (cases name) auto
  ultimately have "path_parts ?s = []" using assms by (simp add: path_parts_def)
  then show ?thesis using canonicalize_spec[of ?s] by (auto simp: canonicalized_path_def)
qed

theorem relative_becomes_root_witness: "canonicalized_path (''tmp'' @ ''/..'') = Inr ''/''"
  by (rule relative_becomes_root) simp_all

end
