(* ===== verification/AK_IPv4Address.thy ===== *)
theory AK_IPv4Address
  imports AK_Format
begin

text \<open>
  \<open>AK/IPv4Address.h\<close>: an address as a 32-bit word, its octets, its printed form through \<open>vformat\<close> and its parser
  through \<open>split_view\<close> and \<open>to_uint\<close>.
\<close>

subsection \<open>Addresses\<close>

definition ipv4_address :: "u32 \<Rightarrow> u32 \<Rightarrow> u32 \<Rightarrow> u32 \<Rightarrow> u32" where
  "ipv4_address a b c d = push_bit 24 d OR push_bit 16 c OR push_bit 8 b OR a"

definition octet :: "u32 \<Rightarrow> nat \<Rightarrow> u32" where
  "octet m_data subnet = drop_bit (8 * subnet) m_data AND 0xff"

definition ipv4_at :: "u32 \<Rightarrow> int \<Rightarrow> u8 result" where
  "ipv4_at m_data i = and_then (verify (i \<ge> 0 \<and> i < 4)) (\<lambda>_. Inr (ucast (octet m_data (nat i))))"

definition ipv4_to_string :: "u32 \<Rightarrow> string result" where
  "ipv4_to_string m_data =
     vformat ''{}.{}.{}.{}'' (map (\<lambda>i. UInt 32 (unat (octet m_data i))) [0, 1, 2, 3])"

text \<open>\<open>to_uint().value_or(256)\<close>.\<close>

definition octet_or_256 :: "string \<Rightarrow> nat result" where
  "octet_or_256 part = and_then (convert_to_uint 32 part) (\<lambda>r. Inr (case r of Some v \<Rightarrow> v | None \<Rightarrow> 256))"

definition ipv4_checked :: "nat \<Rightarrow> nat \<Rightarrow> nat \<Rightarrow> nat \<Rightarrow> u32 option" where
  "ipv4_checked a b c d =
     (if a > 255 \<or> b > 255 \<or> c > 255 \<or> d > 255 then None
      else Some (ipv4_address (of_nat a) (of_nat b) (of_nat c) (of_nat d)))"

definition ipv4_from_string :: "string option \<Rightarrow> u32 option result" where
  "ipv4_from_string s =
     (case s of
        None \<Rightarrow> Inr None
      | Some s \<Rightarrow>
          and_then (split_view s (CHR ''.'') False) (\<lambda>parts.
            case parts of
              [d] \<Rightarrow> and_then (octet_or_256 d) (\<lambda>d. Inr (ipv4_checked 0 0 0 d))
            | [a, d] \<Rightarrow> and_then (octet_or_256 a) (\<lambda>a. and_then (octet_or_256 d) (\<lambda>d. Inr (ipv4_checked a 0 0 d)))
            | [a, b, d] \<Rightarrow>
                and_then (octet_or_256 a) (\<lambda>a. and_then (octet_or_256 b) (\<lambda>b. and_then (octet_or_256 d) (\<lambda>d.
                  Inr (ipv4_checked a b 0 d))))
            | [a, b, c, d] \<Rightarrow>
                and_then (octet_or_256 a) (\<lambda>a. and_then (octet_or_256 b) (\<lambda>b. and_then (octet_or_256 c) (\<lambda>c.
                and_then (octet_or_256 d) (\<lambda>d. Inr (ipv4_checked a b c d)))))
            | _ \<Rightarrow> Inr None))"

subsection \<open>The octets make up the address\<close>

lemma octet_mask: "(0xff :: u32) = mask 8"
  by (simp add: mask_eq_exp_minus_1)

lemma octets_address: "ipv4_address (octet x 0) (octet x 1) (octet x 2) (octet x 3) = x"
proof (rule bit_eqI)
  fix n assume "possible_bit TYPE(u32) n"
  then consider "n < 8" | "8 \<le> n" "n < 16" | "16 \<le> n" "n < 24" | "24 \<le> n" "n < 32"
    by (fastforce simp: possible_bit_word)
  then show "bit (ipv4_address (octet x 0) (octet x 1) (octet x 2) (octet x 3)) n \<longleftrightarrow> bit x n"
    unfolding ipv4_address_def octet_def octet_mask by cases (auto simp: bit_simps)
qed

lemma octet_bound: "unat (octet x i) < 256"
proof -
  have "octet x i = take_bit 8 (drop_bit (8 * i) x)" unfolding octet_def octet_mask by (simp only: take_bit_eq_mask)
  then have "unat (octet x i) = take_bit 8 (unat (drop_bit (8 * i) x))" by (simp only: unsigned_take_bit_eq)
  then show ?thesis by (simp only: take_bit_eq_mod) simp
qed

subsection \<open>Printing a sequence of numbers\<close>

lemma vformat_numbers:
  assumes "list_all (\<lambda>(lit, v). brace_free lit \<and> v < 2 ^ 64) xs" "brace_free t"
    and "unread lx = concat (map (\<lambda>(lit, v). lit @ ''{}'') xs) @ t" "lexer_inv lx"
    and "drop (m_next_index params) (m_parameters params) = map (\<lambda>(lit, v). UInt 32 v) xs"
  shows "vformat_impl params builder lx = Inr (builder @ concat (map (\<lambda>(lit, v). lit @ digit_string 10 False v) xs) @ t)"
  using assms
proof (induction xs arbitrary: lx params builder)
  case Nil
  then show ?case using vformat_end[of t lx params builder] by simp
next
  case (Cons x xs)
  obtain lit v where x: "x = (lit, v)" by force
  let ?t = "concat (map (\<lambda>(lit, v). lit @ ''{}'') xs) @ t" and ?p = "params\<lparr>m_next_index := m_next_index params + 1\<rparr>"
  have u: "unread lx = lit @ specifier_text [] @ ?t" using Cons.prems x by (simp add: specifier_text_def)
  have l: "m_next_index params < length (m_parameters params)" using arg_cong[OF Cons.prems(5), of length] by simp
  have h: "m_parameters params ! m_next_index params = UInt 32 v"
    using Cons.prems(5) x l by (metis (mono_tags, lifting) Cons_nth_drop_Suc case_prod_conv list.inject list.simps(9))
  have d: "drop (m_next_index ?p) (m_parameters ?p) = map (\<lambda>(lit, v). UInt 32 v) xs"
    using Cons.prems(5) by (simp add: drop_Suc tl_drop[symmetric])
  let ?lx = "skip lx (length lit + length (specifier_text []))"
  have "vformat_impl params builder lx = vformat_impl ?p (builder @ lit @ digit_string 10 False v) ?lx"
    using vformat_step[OF _ _ u Cons.prems(4), of params builder] Cons.prems(1) x l h
    by (simp add: parameter_at_def format_value_uint)
  also have "\<dots> = Inr ((builder @ lit @ digit_string 10 False v) @ concat (map (\<lambda>(lit, v). lit @ digit_string 10 False v) xs) @ t)"
  proof (rule Cons.IH)
    show "unread ?lx = ?t" by (simp only: unread_skip u) simp
    show "lexer_inv ?lx" using u by (intro skip_inv Cons.prems) simp
    show "drop (m_next_index ?p) (m_parameters ?p) = map (\<lambda>(lit, v). UInt 32 v) xs" by (rule d)
  qed (use Cons.prems in auto)
  finally show ?case using x by simp
qed

lemma digit_string_no_dot: "CHR ''.'' \<notin> set (digit_string 10 False v)"
proof
  assume "CHR ''.'' \<in> set (digit_string 10 False v)"
  then have "isdigit (CHR ''.'')" using digit_string_decimal(2)[of v] by (simp add: list_all_iff)
  then show False by (simp add: isdigit_def in_range_def)
qed

lemma octet_or_256_digits: "v < 256 \<Longrightarrow> octet_or_256 (digit_string 10 False v) = Inr v"
  using convert_digit_string[of v 32] by (simp add: octet_or_256_def)

text \<open>Every IPv4 address, printed with four decimal octets and read back, is the same address.\<close>

theorem ipv4_round_trip: "\<exists>s. ipv4_to_string x = Inr s \<and> ipv4_from_string (Some s) = Inr (Some x)"
proof -
  let ?o = "\<lambda>i. digit_string 10 False (unat (octet x i))"
  let ?s = "join (CHR ''.'') [?o 0, ?o 1, ?o 2, ?o 3]"
  have b: "unat (octet x i) < 2 ^ 64" for i using octet_bound[of x i] by simp
  have p: "ipv4_to_string x = Inr ?s"
    unfolding ipv4_to_string_def vformat_def
    using vformat_numbers[of "[([], unat (octet x 0)), (''.'', unat (octet x 1)), (''.'', unat (octet x 2)), (''.'', unat (octet x 3))]" "[]"
      "make_lexer ''{}.{}.{}.{}''" "\<lparr>m_parameters = map (\<lambda>i. UInt 32 (unat (octet x i))) [0, 1, 2, 3], m_next_index = 0\<rparr>" "[]"] b
    by (simp add: make_lexer_inv)
  have "split_parts (\<lambda>ch. ch = CHR ''.'') ?s [] = [?o 0, ?o 1, ?o 2, ?o 3]"
    by (rule split_parts_join) (use digit_string_no_dot in auto)
  moreover have "?s \<noteq> []" using digit_string_decimal(3) by simp
  ultimately have "split_view ?s (CHR ''.'') False = Inr [?o 0, ?o 1, ?o 2, ?o 3]"
    using digit_string_decimal(3) by (simp add: split_view_spec kept_def del: join.simps)
  then have "ipv4_from_string (Some ?s) = Inr (ipv4_checked (unat (octet x 0)) (unat (octet x 1)) (unat (octet x 2)) (unat (octet x 3)))"
    using octet_bound[of x] by (simp add: ipv4_from_string_def octet_or_256_digits del: join.simps)
  also have "\<dots> = Inr (Some x)"
    using octet_bound[of x 0] octet_bound[of x 1] octet_bound[of x 2] octet_bound[of x 3] octets_address[of x]
    by (simp add: ipv4_checked_def)
  finally show ?thesis using p by blast
qed

end
