(* ===== verification/AK_Streams.thy ===== *)
theory AK_Streams
  imports Prelude
begin

text \<open>
  \<open>AK/Stream.h\<close>, the \<open>InputMemoryStream\<close> of \<open>AK/MemoryStream.h\<close> and \<open>AK/LEB128.h\<close>: the error flags of a stream, reading,
  skipping and seeking in memory, and the two readers of variable-length integers, which are related to the value
  that groups of seven bits denote.
\<close>

subsection \<open>Streams and their errors\<close>

record memory_stream =
  m_bytes :: "u8 list"
  m_offset :: nat
  m_recoverable_error :: bool
  m_fatal_error :: bool

definition has_any_error :: "memory_stream \<Rightarrow> bool" where
  "has_any_error s \<longleftrightarrow> m_recoverable_error s \<or> m_fatal_error s"

definition handle_recoverable_error :: "memory_stream \<Rightarrow> (bool \<times> memory_stream) result" where
  "handle_recoverable_error s =
     and_then (verify (\<not> m_fatal_error s)) (\<lambda>_. Inr (m_recoverable_error s, s\<lparr>m_recoverable_error := False\<rparr>))"

definition handle_fatal_error :: "memory_stream \<Rightarrow> bool \<times> memory_stream" where
  "handle_fatal_error s = (m_fatal_error s, s\<lparr>m_fatal_error := False\<rparr>)"

definition handle_any_error :: "memory_stream \<Rightarrow> bool \<times> memory_stream" where
  "handle_any_error s =
     (if has_any_error s then (True, s\<lparr>m_recoverable_error := False, m_fatal_error := False\<rparr>) else (False, s))"

definition set_recoverable_error :: "memory_stream \<Rightarrow> memory_stream" where
  "set_recoverable_error s = s\<lparr>m_recoverable_error := True\<rparr>"

definition set_fatal_error :: "memory_stream \<Rightarrow> memory_stream" where
  "set_fatal_error s = s\<lparr>m_fatal_error := True\<rparr>"

subsection \<open>\<open>InputMemoryStream\<close>\<close>

text \<open>The operations that fill a buffer take its size and return what they put into it.\<close>

definition stream_eof :: "memory_stream \<Rightarrow> bool" where
  "stream_eof s \<longleftrightarrow> m_offset s \<ge> length (m_bytes s)"

definition stream_remaining :: "memory_stream \<Rightarrow> nat" where
  "stream_remaining s = usub (length (m_bytes s)) (m_offset s)"

definition stream_read :: "memory_stream \<Rightarrow> nat \<Rightarrow> u8 list \<times> memory_stream" where
  "stream_read s n =
     (if has_any_error s then ([], s)
      else
        let count = min n (stream_remaining s) in
        (take count (drop (m_offset s) (m_bytes s)), s\<lparr>m_offset := m_offset s + count\<rparr>))"

definition stream_read_or_error :: "memory_stream \<Rightarrow> nat \<Rightarrow> u8 list option \<times> memory_stream" where
  "stream_read_or_error s n =
     (if stream_remaining s < n then (None, set_recoverable_error s)
      else (Some (take n (drop (m_offset s) (m_bytes s))), s\<lparr>m_offset := m_offset s + n\<rparr>))"

definition stream_discard_or_error :: "memory_stream \<Rightarrow> nat \<Rightarrow> bool \<times> memory_stream" where
  "stream_discard_or_error s count =
     (if stream_remaining s < count then (False, set_recoverable_error s)
      else (True, s\<lparr>m_offset := m_offset s + count\<rparr>))"

definition stream_seek :: "memory_stream \<Rightarrow> nat \<Rightarrow> memory_stream result" where
  "stream_seek s offset = and_then (verify (offset < length (m_bytes s))) (\<lambda>_. Inr (s\<lparr>m_offset := offset\<rparr>))"

definition stream_peek_or_error :: "memory_stream \<Rightarrow> u8 \<times> memory_stream" where
  "stream_peek_or_error s =
     (if stream_remaining s = 0 then (0, set_recoverable_error s) else (m_bytes s ! m_offset s, s))"

subsection \<open>\<open>LEB128\<close>\<close>

text \<open>
  One turn of the loop of the two readers, up to the byte read: \<open>Inl\<close> when the reader returns false, at the end of
  the stream after going back to the offset where the number began.
\<close>

definition leb_byte :: "nat \<Rightarrow> memory_stream \<Rightarrow> (memory_stream + u8 \<times> memory_stream) result" where
  "leb_byte backup_offset s =
     (if stream_eof s then and_then (stream_seek s backup_offset) (\<lambda>s. Inr (Inl (set_fatal_error s)))
      else
        (case stream_read_or_error s 1 of
           (Some [byte], s) \<Rightarrow> Inr (if has_any_error s then Inl s else Inr (byte, s))
         | (_, s) \<Rightarrow> Inr (Inl s)))"

text \<open>The value type is 32 bits wide; a shift by its width or more is undefined.\<close>

definition leb_shift :: "u8 \<Rightarrow> nat \<Rightarrow> u32 result" where
  "leb_shift byte num_bytes =
     (if num_bytes * 7 \<ge> 32 then Inl Undefined else Inr (push_bit (num_bytes * 7) (ucast (byte AND 0x7f))))"

lemma leb_byte_progress: "leb_byte b s = Inr (Inr (byte, s')) \<Longrightarrow> m_bytes s' = m_bytes s \<and> m_offset s' = m_offset s + 1 \<and> m_offset s < length (m_bytes s)"
  by (auto simp: leb_byte_def stream_eof_def stream_read_or_error_def and_then_Inr_iff set_recoverable_error_def
      split: if_splits list.splits)

function read_leb_loop :: "nat \<Rightarrow> memory_stream \<Rightarrow> u32 \<Rightarrow> nat \<Rightarrow> ((u32 \<times> nat \<times> u8) option \<times> memory_stream) result" where
  "read_leb_loop backup_offset s r num_bytes =
     and_then (leb_byte backup_offset s) (\<lambda>x.
       case x of
         Inl s \<Rightarrow> Inr (None, s)
       | Inr (byte, s) \<Rightarrow>
           and_then (leb_shift byte num_bytes) (\<lambda>v.
             if byte AND 0x80 = 0 then Inr (Some (r OR v, num_bytes + 1, byte), s)
             else read_leb_loop backup_offset s (r OR v) (num_bytes + 1)))"
  by pat_completeness auto
termination
  by (relation "measure (\<lambda>(b, s, r, n). length (m_bytes s) - m_offset s)") (auto dest!: leb_byte_progress)

declare read_leb_loop.simps [simp del]

definition read_unsigned :: "memory_stream \<Rightarrow> (u32 option \<times> memory_stream) result" where
  "read_unsigned s =
     and_then (read_leb_loop (m_offset s) s 0 0) (\<lambda>(x, s).
       Inr (case x of None \<Rightarrow> None | Some (r, num_bytes, byte) \<Rightarrow> Some r, s))"

definition read_signed :: "memory_stream \<Rightarrow> (u32 option \<times> memory_stream) result" where
  "read_signed s =
     and_then (read_leb_loop (m_offset s) s 0 0) (\<lambda>(x, s).
       Inr (case x of
           None \<Rightarrow> None
         | Some (r, num_bytes, byte) \<Rightarrow>
             if num_bytes * 7 < 4 * 4 \<and> byte AND 0x40 \<noteq> 0 then Some (r OR push_bit (num_bytes * 7) (- 1)) else Some r, s))"

subsection \<open>What the bytes denote\<close>

text \<open>An encoded number: every byte but the last has its top bit set; its value in groups of seven bits.\<close>

fun leb_number :: "u8 list \<Rightarrow> bool" where
  "leb_number [] = False"
| "leb_number [b] = (b AND 0x80 = 0)"
| "leb_number (b # bs) = (b AND 0x80 \<noteq> 0 \<and> leb_number bs)"

fun leb_value :: "u8 list \<Rightarrow> nat" where
  "leb_value [] = 0"
| "leb_value (b # bs) = unat (b AND 0x7f) + 128 * leb_value bs"

lemma seven_bits: "unat (b AND 0x7f :: u8) < 128"
proof -
  have m: "(0x7f :: u8) = mask 7" by (simp add: mask_eq_exp_minus_1)
  have "unat (b AND 0x7f) = take_bit 7 (unat b)"
    unfolding m take_bit_eq_mask[symmetric] by (rule unsigned_take_bit_eq)
  then show ?thesis by (simp only: take_bit_eq_mod) simp
qed

lemma or_push_add:
  assumes "unat (r :: u32) < 2 ^ k"
  shows "r OR push_bit k x = r + push_bit k x"
proof -
  have "\<not> bit r n" if "k \<le> n" for n
  proof -
    have "unat (take_bit k r) = unat r" using assms by (simp add: unsigned_take_bit_eq take_bit_nat_eq_self)
    then have "take_bit k r = r" by (rule unsigned_word_eqI)
    then have "bit r n \<longleftrightarrow> bit (take_bit k r) n" by simp
    then show ?thesis using that by (simp add: bit_take_bit_iff)
  qed
  then have "r AND push_bit k x = 0" by (intro bit_eqI) (auto simp: bit_simps)
  then show ?thesis by (simp add: disjunctive_add_eq_or)
qed

lemma unat_of_nat_u32: "n < 2 ^ 32 \<Longrightarrow> unat (of_nat n :: u32) = n"
  by (simp add: unsigned_of_nat take_bit_nat_eq_self)

lemma leb_join:
  assumes "unat (r :: u32) < 2 ^ (7 * n)"
  shows "r OR push_bit (n * 7) (ucast (b AND 0x7f :: u8)) = of_nat (unat r + unat (b AND 0x7f) * 2 ^ (7 * n))"
proof -
  have "r OR push_bit (n * 7) (ucast (b AND 0x7f)) = r + push_bit (7 * n) (ucast (b AND 0x7f))"
    unfolding mult.commute[of n 7] by (rule or_push_add[OF assms])
  then show ?thesis by (simp add: push_bit_eq_mult)
qed

lemma leb_byte_next:
  assumes "drop (m_offset s) (m_bytes s) = b # t" "\<not> has_any_error s" "length (m_bytes s) < 2 ^ 32"
  shows "leb_byte backup s = Inr (Inr (b, s\<lparr>m_offset := m_offset s + 1\<rparr>))"
proof -
  have l: "m_offset s < length (m_bytes s)" using arg_cong[OF assms(1), of length] by simp
  then show ?thesis using assms
    by (auto simp: leb_byte_def stream_eof_def stream_read_or_error_def stream_remaining_def has_any_error_def Suc_le_eq)
qed

text \<open>The loop adds up the groups of a number that fits the type.\<close>

lemma read_leb_loop_spec:
  assumes "leb_number bs" "drop (m_offset s) (m_bytes s) = bs @ t" "\<not> has_any_error s" "length (m_bytes s) < 2 ^ 32"
    and "unat r < 2 ^ (7 * n)" "n + length bs \<le> 5" "unat r + leb_value bs * 2 ^ (7 * n) < 2 ^ 32"
  shows "read_leb_loop backup s r n
    = Inr (Some (of_nat (unat r + leb_value bs * 2 ^ (7 * n)), n + length bs, last bs), s\<lparr>m_offset := m_offset s + length bs\<rparr>)"
  using assms
proof (induction bs arbitrary: s r n rule: leb_number.induct)
  case 1
  then show ?case by simp
next
  case (2 b)
  have "r OR push_bit (n * 7) (ucast (b AND 0x7f)) = of_nat (unat r + unat (b AND 0x7f) * 2 ^ (7 * n))"
    by (rule leb_join) (use 2 in simp)
  then show ?case using 2 leb_byte_next[of s b t]
    by (subst read_leb_loop.simps) (simp add: leb_shift_def)
next
  case (3 b c bs)
  let ?v = "unat (b AND 0x7f)" and ?s = "s\<lparr>m_offset := m_offset s + 1\<rparr>"
  let ?r = "r OR push_bit (n * 7) (ucast (b AND 0x7f))"
  have e: "?r = of_nat (unat r + ?v * 2 ^ (7 * n))"
    by (rule leb_join) (use 3 in simp)
  have split: "unat r + leb_value (b # c # bs) * 2 ^ (7 * n) = (unat r + ?v * 2 ^ (7 * n)) + leb_value (c # bs) * 2 ^ (7 * (n + 1))"
    by (simp add: algebra_simps power_add del: leb_value.simps(2)) (simp add: algebra_simps)
  have small: "unat r + ?v * 2 ^ (7 * n) < 2 ^ (7 * (n + 1))"
  proof -
    have "unat r + ?v * 2 ^ (7 * n) < 2 ^ (7 * n) + ?v * 2 ^ (7 * n)" using 3 by simp
    also have "\<dots> = (?v + 1) * 2 ^ (7 * n)" by simp
    also have "\<dots> \<le> 128 * 2 ^ (7 * n)" using seven_bits[of b] by (intro mult_le_mono1) simp
    finally show ?thesis by (simp add: power_add)
  qed
  have u: "unat ?r = unat r + ?v * 2 ^ (7 * n)"
    unfolding e by (rule unat_of_nat_u32) (use "3.prems"(7) split in linarith)
  have "drop (m_offset ?s) (m_bytes ?s) = c # bs @ t"
    using "3.prems"(2) by (simp add: drop_Suc tl_drop[symmetric])
  then have "read_leb_loop backup ?s ?r (n + 1)
    = Inr (Some (of_nat (unat ?r + leb_value (c # bs) * 2 ^ (7 * (n + 1))), n + 1 + length (c # bs), last (c # bs)),
        ?s\<lparr>m_offset := m_offset ?s + length (c # bs)\<rparr>)"
    using "3.prems" split small u by (intro "3.IH") (auto simp: has_any_error_def)
  moreover have "leb_shift b n = Inr (push_bit (n * 7) (ucast (b AND 0x7f)))" using "3.prems"(6) by (simp add: leb_shift_def)
  ultimately show ?case using "3.prems" leb_byte_next[of s b "c # bs @ t"] u split
    by (subst read_leb_loop.simps) simp
qed

text \<open>
  Reading an unsigned LEB128 number of at most five bytes whose value fits 32 bits gives that value and stops
  behind it.
\<close>

theorem read_unsigned_correct:
  assumes "leb_number bs" "drop (m_offset s) (m_bytes s) = bs @ t" "\<not> has_any_error s" "length (m_bytes s) < 2 ^ 32"
    and "length bs \<le> 5" "leb_value bs < 2 ^ 32"
  shows "read_unsigned s = Inr (Some (of_nat (leb_value bs)), s\<lparr>m_offset := m_offset s + length bs\<rparr>)"
  using read_leb_loop_spec[OF assms(1-4), of 0 0 "m_offset s"] assms(5,6) by (simp add: read_unsigned_def)

definition sample_stream :: memory_stream where
  "sample_stream = \<lparr>m_bytes = [0xe5, 0x8e, 0x26, 7], m_offset = 0, m_recoverable_error = False, m_fatal_error = False\<rparr>"

theorem read_unsigned_correct_witness:
  "read_unsigned sample_stream = Inr (Some (of_nat (leb_value [0xe5, 0x8e, 0x26])), sample_stream\<lparr>m_offset := m_offset sample_stream + length [0xe5, 0x8e, 0x26 :: u8]\<rparr>)"
  by (rule read_unsigned_correct[where t = "[7]"]) (simp_all add: sample_stream_def has_any_error_def)

text \<open>
  A negative number that takes three or four bytes is read as a positive one: the sign is extended only
  below half the width of the type.
\<close>

theorem read_signed_loses_sign:
  assumes "leb_number bs" "length bs = 3 \<or> length bs = 4" "last bs AND 0x40 \<noteq> 0"
    and "drop (m_offset s) (m_bytes s) = bs @ t" "\<not> has_any_error s" "length (m_bytes s) < 2 ^ 32"
  shows "read_signed s = Inr (Some (of_nat (leb_value bs)), s\<lparr>m_offset := m_offset s + length bs\<rparr>)
    \<and> leb_value bs < 2 ^ 28"
proof -
  have v: "leb_value xs < 128 ^ length xs" for xs
  proof (induction xs)
    case (Cons b xs)
    have "leb_value (b # xs) < 128 + 128 * leb_value xs" using seven_bits[of b] by simp
    also have "\<dots> = 128 * Suc (leb_value xs)" by simp
    also have "\<dots> \<le> 128 * 128 ^ length xs" using Cons by (intro mult_le_mono2) simp
    finally show ?case by simp
  qed simp
  have "(128 :: nat) ^ length bs \<le> 128 ^ 4" using assms(2) by (intro power_increasing) auto
  then have b: "leb_value bs < 2 ^ 28" using v[of bs] by simp
  then show ?thesis
    using read_leb_loop_spec[OF assms(1,4,5,6), of 0 0 "m_offset s"] assms(2) by (auto simp: read_signed_def)
qed

definition negative_stream :: memory_stream where
  "negative_stream = \<lparr>m_bytes = [0xff, 0xff, 0x7b], m_offset = 0, m_recoverable_error = False, m_fatal_error = False\<rparr>"

theorem read_signed_loses_sign_witness:
  "read_signed negative_stream = Inr (Some (of_nat (leb_value [0xff, 0xff, 0x7b])), negative_stream\<lparr>m_offset := m_offset negative_stream + length [0xff, 0xff, 0x7b :: u8]\<rparr>)
    \<and> leb_value [0xff, 0xff, 0x7b] < 2 ^ 28"
  by (rule read_signed_loses_sign[where t = "[]"]) (simp_all add: negative_stream_def has_any_error_def)

text \<open>
  Reading from a stream that is already at its end does not report an error but fails an assertion: \<open>seek\<close>
  does not accept the offset of the end.
\<close>

theorem read_at_end_asserts:
  assumes "m_offset s = length (m_bytes s)"
  shows "read_unsigned s = Inl VerifyFailed \<and> read_signed s = Inl VerifyFailed"
  using assms
  by (simp add: read_unsigned_def read_signed_def read_leb_loop.simps leb_byte_def stream_eof_def stream_seek_def verify_def)

theorem read_at_end_asserts_witness:
  "read_unsigned (sample_stream\<lparr>m_offset := 4\<rparr>) = Inl VerifyFailed \<and> read_signed (sample_stream\<lparr>m_offset := 4\<rparr>) = Inl VerifyFailed"
  by (rule read_at_end_asserts) (simp add: sample_stream_def)

end
