(* ===== verification/AK_Utf8.thy ===== *)
theory AK_Utf8
  imports Prelude
begin

text \<open>
  \<open>AK/Utf8View.cpp\<close> and the code points of \<open>AK/StringBuilder.cpp\<close>: the decoder of a first byte, \<open>validate\<close>, the iterator
  and the loops over it, and \<open>append_code_point\<close>. A pointer into a view is the list of bytes from it to the end.
\<close>

subsection \<open>\<open>Utf8View\<close>\<close>

text \<open>The value and the length that a first byte announces; \<open>None\<close> when it makes no sense.\<close>

definition decode_first_byte :: "u8 \<Rightarrow> (nat \<times> u32) option" where
  "decode_first_byte byte =
     (if byte AND 128 = 0 then Some (1, ucast byte)
      else if byte AND 64 = 0 then None
      else if byte AND 32 = 0 then Some (2, ucast (byte AND 31))
      else if byte AND 16 = 0 then Some (3, ucast (byte AND 15))
      else if byte AND 8 = 0 then Some (4, ucast (byte AND 7))
      else None)"

text \<open>A pointer into the view is the list of the bytes from it to the end.\<close>

fun skip_continuation :: "nat \<Rightarrow> u8 list \<Rightarrow> u8 list option" where
  "skip_continuation 0 ptr = Some ptr"
| "skip_continuation (Suc n) [] = None"
| "skip_continuation (Suc n) (b # ptr) = (if drop_bit 6 b \<noteq> 2 then None else skip_continuation n ptr)"

lemma skip_continuation_length: "skip_continuation n ptr = Some ptr' \<Longrightarrow> length ptr' + n = length ptr"
  by (induction n ptr rule: skip_continuation.induct) (auto split: if_splits)

function validate_loop :: "u8 list \<Rightarrow> nat \<Rightarrow> bool \<times> nat" where
  "validate_loop [] valid_bytes = (True, valid_bytes)"
| "validate_loop (byte # ptr) valid_bytes =
     (case decode_first_byte byte of
        None \<Rightarrow> (False, valid_bytes)
      | Some (code_point_length_in_bytes, v) \<Rightarrow>
          (case skip_continuation (code_point_length_in_bytes - 1) ptr of
             None \<Rightarrow> (False, valid_bytes)
           | Some ptr \<Rightarrow> validate_loop ptr (valid_bytes + code_point_length_in_bytes)))"
  by pat_completeness auto
termination
  by (relation "measure (\<lambda>(ptr, n). length ptr)") (auto dest!: skip_continuation_length)

definition validate :: "u8 list \<Rightarrow> bool \<times> nat" where
  "validate s = validate_loop s 0"

subsection \<open>\<open>Utf8CodepointIterator\<close>\<close>

definition code_point_length_in_bytes :: "u8 list \<Rightarrow> nat result" where
  "code_point_length_in_bytes it =
     and_then (verify (length it > 0)) (\<lambda>_.
       case decode_first_byte (hd it) of None \<Rightarrow> Inl VerifyFailed | Some (len, v) \<Rightarrow> Inr len)"

definition iterator_next :: "u8 list \<Rightarrow> u8 list result" where
  "iterator_next it =
     and_then (verify (length it > 0)) (\<lambda>_.
       case decode_first_byte (hd it) of
         None \<Rightarrow> Inl VerifyFailed
       | Some (len, v) \<Rightarrow> and_then (verify (len \<le> length it)) (\<lambda>_. Inr (drop len it)))"

fun continuation_loop :: "nat \<Rightarrow> u8 list \<Rightarrow> u32 \<Rightarrow> u32 result" where
  "continuation_loop 0 ptr v = Inr v"
| "continuation_loop (Suc n) [] v = Inl OutOfBounds"
| "continuation_loop (Suc n) (b # ptr) v =
     and_then (verify (drop_bit 6 b = 2)) (\<lambda>_. continuation_loop n ptr (push_bit 6 v OR ucast (b AND 63)))"

definition iterator_deref :: "u8 list \<Rightarrow> u32 result" where
  "iterator_deref it =
     and_then (verify (length it > 0)) (\<lambda>_.
       case decode_first_byte (hd it) of
         None \<Rightarrow> Inl VerifyFailed
       | Some (len, v) \<Rightarrow> and_then (verify (len \<le> length it)) (\<lambda>_. continuation_loop (len - 1) (tl it) v))"

lemma first_byte_length: "decode_first_byte b = Some (len, v) \<Longrightarrow> 1 \<le> len \<and> len \<le> 4"
  by (auto simp: decode_first_byte_def split: if_splits)

lemma iterator_next_shorter: "iterator_next it = Inr it' \<Longrightarrow> length it' < length it"
proof -
  assume "iterator_next it = Inr it'"
  then obtain len v where "decode_first_byte (hd it) = Some (len, v)" "it \<noteq> []" "it' = drop len it"
    by (auto simp: iterator_next_def split: option.splits if_splits)
  then show ?thesis using first_byte_length[of "hd it" len v] by (cases it) auto
qed

text \<open>A loop over the code points: what dereferencing and advancing the iterator gives, until the end.\<close>

function code_points :: "u8 list \<Rightarrow> u32 list result" where
  "code_points it =
     (if it = [] then Inr []
      else and_then (iterator_deref it) (\<lambda>cp. and_then (iterator_next it) (\<lambda>it'.
        and_then (code_points it') (\<lambda>cps. Inr (cp # cps)))))"
  by pat_completeness auto
termination by (relation "measure length") (auto dest: iterator_next_shorter)

declare code_points.simps [simp del]

definition calculate_length :: "u8 list \<Rightarrow> nat result" where
  "calculate_length s = and_then (code_points s) (\<lambda>cps. Inr (length cps))"

function utf8_starts_with_loop :: "u8 list \<Rightarrow> u8 list \<Rightarrow> bool result" where
  "utf8_starts_with_loop k l =
     (if l = [] then Inr True
      else and_then (iterator_deref k) (\<lambda>a. and_then (iterator_deref l) (\<lambda>b.
        if a \<noteq> b then Inr False
        else and_then (iterator_next k) (\<lambda>k. and_then (iterator_next l) (\<lambda>l. utf8_starts_with_loop k l)))))"
  by pat_completeness auto
termination by (relation "measure (\<lambda>(k, l). length l)") (auto dest: iterator_next_shorter)

text \<open>\<open>same\<close>: the two views begin at the same address. \<open>length\<close> counts code points.\<close>

definition utf8_starts_with :: "bool \<Rightarrow> u8 list \<Rightarrow> u8 list \<Rightarrow> bool result" where
  "utf8_starts_with same s start =
     (if start = [] then Inr True
      else if s = [] then Inr False
      else and_then (calculate_length start) (\<lambda>n. and_then (calculate_length s) (\<lambda>m.
        if n > m then Inr False
        else if same then Inr True
        else utf8_starts_with_loop s start)))"

subsection \<open>\<open>StringBuilder\<close>\<close>

definition append_code_point :: "u32 \<Rightarrow> u8 list" where
  "append_code_point code_point =
     (if code_point \<le> 0x7f then [ucast code_point]
      else if code_point \<le> 0x07ff then
        [ucast ((drop_bit 6 code_point AND 0x1f) OR 0xc0), ucast ((code_point AND 0x3f) OR 0x80)]
      else if code_point \<le> 0xffff then
        [ucast ((drop_bit 12 code_point AND 0x0f) OR 0xe0), ucast ((drop_bit 6 code_point AND 0x3f) OR 0x80),
         ucast ((code_point AND 0x3f) OR 0x80)]
      else if code_point \<le> 0x10ffff then
        [ucast ((drop_bit 18 code_point AND 0x07) OR 0xf0), ucast ((drop_bit 12 code_point AND 0x3f) OR 0x80),
         ucast ((drop_bit 6 code_point AND 0x3f) OR 0x80), ucast ((code_point AND 0x3f) OR 0x80)]
      else [0xef, 0xbf, 0xbd])"

definition append_utf32 :: "u32 list \<Rightarrow> u8 list" where
  "append_utf32 utf32_view = concat (map append_code_point utf32_view)"

subsection \<open>Validation and iteration agree\<close>

lemma continuation_skip:
  "n \<le> length ptr \<Longrightarrow> (\<exists>v'. continuation_loop n ptr v = Inr v') \<longleftrightarrow> skip_continuation n ptr = Some (drop n ptr)"
proof (induction n ptr arbitrary: v rule: skip_continuation.induct)
  case (3 n b ptr)
  then show ?case by (cases "drop_bit 6 b = 2") (auto simp: verify_def)
qed simp_all

lemma skip_continuation_drop: "skip_continuation n ptr = Some ptr' \<Longrightarrow> n \<le> length ptr \<and> ptr' = drop n ptr"
  by (induction n ptr rule: skip_continuation.induct) (auto split: if_splits)

lemma validate_loop_spec:
  "(fst (validate_loop s n) \<longleftrightarrow> (\<exists>cps. code_points s = Inr cps)) \<and> (fst (validate_loop s n) \<longrightarrow> snd (validate_loop s n) = n + length s)"
proof (induction s n rule: validate_loop.induct)
  case (1 n)
  then show ?case by (simp add: code_points.simps)
next
  case (2 byte ptr n)
  show ?case
  proof (cases "decode_first_byte byte")
    case None
    then have "iterator_deref (byte # ptr) = Inl VerifyFailed" by (simp add: iterator_deref_def)
    then show ?thesis using None by (subst code_points.simps) simp
  next
    case (Some p)
    obtain len v where p: "p = (len, v)" by force
    have len: "1 \<le> len" using first_byte_length Some p by blast
    show ?thesis
    proof (cases "skip_continuation (len - 1) ptr")
      case None
      have "\<not> (\<exists>v'. iterator_deref (byte # ptr) = Inr v')"
        using Some p None continuation_skip[of "len - 1" ptr v] len
        by (auto simp: iterator_deref_def and_then_Inr_iff)
      then have "\<not> (\<exists>cps. code_points (byte # ptr) = Inr cps)" by (subst code_points.simps) (auto simp: and_then_Inr_iff)
      then show ?thesis using Some p None by simp
    next
      case s: (Some ptr')
      have d: "len - 1 \<le> length ptr" "ptr' = drop (len - 1) ptr" using skip_continuation_drop[OF s] by auto
      then obtain v' where "continuation_loop (len - 1) ptr v = Inr v'"
        using continuation_skip[of "len - 1" ptr v] s by auto
      then have e: "iterator_deref (byte # ptr) = Inr v'" "iterator_next (byte # ptr) = Inr ptr'"
        using Some p d len by (auto simp: iterator_deref_def iterator_next_def drop_Cons')
      have "(\<exists>cps. code_points (byte # ptr) = Inr cps) \<longleftrightarrow> (\<exists>cps. code_points ptr' = Inr cps)"
        by (subst code_points.simps) (auto simp: e and_then_Inr_iff)
      moreover have "(fst (validate_loop ptr' (n + len)) \<longleftrightarrow> (\<exists>cps. code_points ptr' = Inr cps))
          \<and> (fst (validate_loop ptr' (n + len)) \<longrightarrow> snd (validate_loop ptr' (n + len)) = n + len + length ptr')"
        using 2[OF Some p[symmetric] s] by simp
      ultimately show ?thesis using Some p s d len by auto
    qed
  qed
qed

text \<open>
  \<open>validate\<close> accepts exactly the byte strings over which the iterator runs to the end without a failed
  assertion, and then counts all their bytes as valid.
\<close>

theorem validate_iff_iterable:
  "(fst (validate s) \<longleftrightarrow> (\<exists>cps. code_points s = Inr cps)) \<and> (if fst (validate s) then snd (validate s) = length s else True)"
  using validate_loop_spec[of s 0] by (simp add: validate_def)


subsection \<open>Encoding and decoding a code point\<close>

lemma and_power: "w AND 128 = 0 \<longleftrightarrow> \<not> bit w 7" "w AND 64 = 0 \<longleftrightarrow> \<not> bit w 6" "w AND 32 = 0 \<longleftrightarrow> \<not> bit w 5"
  "w AND 16 = 0 \<longleftrightarrow> \<not> bit w 4" "w AND 8 = 0 \<longleftrightarrow> \<not> bit w 3" for w :: u8
proof -
  have "w AND 2 ^ n = 0 \<longleftrightarrow> \<not> bit w n" for n by (rule and_exp_eq_0_iff_not_bit)
  from this[of 7] this[of 6] this[of 5] this[of 4] this[of 3]
  show "w AND 128 = 0 \<longleftrightarrow> \<not> bit w 7" "w AND 64 = 0 \<longleftrightarrow> \<not> bit w 6" "w AND 32 = 0 \<longleftrightarrow> \<not> bit w 5"
    "w AND 16 = 0 \<longleftrightarrow> \<not> bit w 4" "w AND 8 = 0 \<longleftrightarrow> \<not> bit w 3" by simp_all
qed

lemma small_bits: "unat (x :: u32) < 2 ^ k \<Longrightarrow> k \<le> n \<Longrightarrow> \<not> bit x n"
proof -
  assume "unat x < 2 ^ k" "k \<le> n"
  then have "unat (take_bit k x) = unat x" by (simp add: unsigned_take_bit_eq take_bit_nat_eq_self)
  then have "take_bit k x = x" by (rule unsigned_word_eqI)
  then have "bit x n \<longleftrightarrow> bit (take_bit k x) n" by simp
  then show ?thesis using \<open>k \<le> n\<close> by (simp add: bit_take_bit_iff)
qed

definition cont :: "u32 \<Rightarrow> u8" where "cont x = ucast ((x AND 0x3f) OR 0x80)"
definition lead2 :: "u32 \<Rightarrow> u8" where "lead2 x = ucast ((x AND 0x1f) OR 0xc0)"
definition lead3 :: "u32 \<Rightarrow> u8" where "lead3 x = ucast ((x AND 0x0f) OR 0xe0)"
definition lead4 :: "u32 \<Rightarrow> u8" where "lead4 x = ucast ((x AND 0x07) OR 0xf0)"

lemma utf8_masks: "(63 :: u8) = mask 6" "(31 :: u8) = mask 5" "(15 :: u8) = mask 4" "(7 :: u8) = mask 3"
  "(63 :: u32) = mask 6" "(31 :: u32) = mask 5" "(15 :: u32) = mask 4" "(7 :: u32) = mask 3"
  by (simp_all add: mask_eq_exp_minus_1)

lemma ucast_byte_eqI: "(\<And>n. n < 8 \<Longrightarrow> bit a n = bit b n) \<Longrightarrow> (\<And>n. 8 \<le> n \<Longrightarrow> \<not> bit b n) \<Longrightarrow> ucast (a :: u8) = (b :: u32)"
proof (rule bit_eqI)
  fix n
  assume *: "\<And>n. n < 8 \<Longrightarrow> bit a n = bit b n" "\<And>n. 8 \<le> n \<Longrightarrow> \<not> bit b n"
  show "bit (ucast a :: u32) n \<longleftrightarrow> bit b n"
    using *(1)[of n] *(2)[of n] bit_imp_le_length[of a n] bit_imp_le_length[of b n] by (cases "n < 8") (auto simp: bit_unsigned_iff)
qed

lemma eight: "n < 8 \<Longrightarrow> n \<in> {0, 1, 2, 3, 4, 5, 6, 7 :: nat}"
  by auto

lemma cont_low: "ucast (cont x AND 63) = (x AND 0x3f :: u32)"
  unfolding cont_def utf8_masks
  by (rule ucast_byte_eqI) (auto dest!: eight simp: bit_simps)

lemma cont_top: "drop_bit 6 (cont x) = 2"
  unfolding cont_def by (rule byte_eqI) (auto simp: bit_simps)

lemma lead_low: "ucast (lead2 x AND 31) = (x AND 0x1f :: u32)" "ucast (lead3 x AND 15) = (x AND 0x0f :: u32)"
  "ucast (lead4 x AND 7) = (x AND 0x07 :: u32)"
  unfolding lead2_def lead3_def lead4_def utf8_masks
  by (rule ucast_byte_eqI; auto dest!: eight simp: bit_simps)+

lemma lead_first: "decode_first_byte (lead2 x) = Some (2, x AND 0x1f)" "decode_first_byte (lead3 x) = Some (3, x AND 0x0f)"
  "decode_first_byte (lead4 x) = Some (4, x AND 0x07)"
proof -
  have "bit (lead2 x) 7" "bit (lead2 x) 6" "\<not> bit (lead2 x) 5"
    "bit (lead3 x) 7" "bit (lead3 x) 6" "bit (lead3 x) 5" "\<not> bit (lead3 x) 4"
    "bit (lead4 x) 7" "bit (lead4 x) 6" "bit (lead4 x) 5" "bit (lead4 x) 4" "\<not> bit (lead4 x) 3"
    unfolding lead2_def lead3_def lead4_def by (simp_all add: bit_simps)
  then show "decode_first_byte (lead2 x) = Some (2, x AND 0x1f)" "decode_first_byte (lead3 x) = Some (3, x AND 0x0f)"
    "decode_first_byte (lead4 x) = Some (4, x AND 0x07)"
    unfolding decode_first_byte_def and_power by (simp_all add: lead_low)
qed


lemma utf8_join2: "unat cp < 2 ^ 11 \<Longrightarrow> push_bit 6 (drop_bit 6 cp AND 0x1f) OR (cp AND 0x3f) = (cp :: u32)"
proof (rule bit_eqI)
  fix n :: nat assume u: "unat cp < 2 ^ 11"
  consider "n < 6" | "6 \<le> n" "n < 11" | "11 \<le> n" by linarith
  then show "bit (push_bit 6 (drop_bit 6 cp AND 0x1f) OR (cp AND 0x3f)) n \<longleftrightarrow> bit cp n"
    unfolding utf8_masks using small_bits[OF u, of n] by cases (auto simp: bit_simps)
qed

lemma utf8_join3:
  "unat cp < 2 ^ 16 \<Longrightarrow> push_bit 6 (push_bit 6 (drop_bit 12 cp AND 0x0f) OR (drop_bit 6 cp AND 0x3f)) OR (cp AND 0x3f) = (cp :: u32)"
proof (rule bit_eqI)
  fix n :: nat assume u: "unat cp < 2 ^ 16"
  consider "n < 6" | "6 \<le> n" "n < 12" | "12 \<le> n" "n < 16" | "16 \<le> n" by linarith
  then show "bit (push_bit 6 (push_bit 6 (drop_bit 12 cp AND 0x0f) OR (drop_bit 6 cp AND 0x3f)) OR (cp AND 0x3f)) n \<longleftrightarrow> bit cp n"
    unfolding utf8_masks using small_bits[OF u, of n] by cases (auto simp: bit_simps)
qed

lemma utf8_join4:
  "unat cp < 2 ^ 21 \<Longrightarrow> push_bit 6 (push_bit 6 (push_bit 6 (drop_bit 18 cp AND 0x07) OR (drop_bit 12 cp AND 0x3f)) OR (drop_bit 6 cp AND 0x3f))
     OR (cp AND 0x3f) = (cp :: u32)"
proof (rule bit_eqI)
  fix n :: nat assume u: "unat cp < 2 ^ 21"
  consider "n < 6" | "6 \<le> n" "n < 12" | "12 \<le> n" "n < 18" | "18 \<le> n" "n < 21" | "21 \<le> n" by linarith
  then show "bit (push_bit 6 (push_bit 6 (push_bit 6 (drop_bit 18 cp AND 0x07) OR (drop_bit 12 cp AND 0x3f)) OR (drop_bit 6 cp AND 0x3f))
     OR (cp AND 0x3f)) n \<longleftrightarrow> bit cp n"
    unfolding utf8_masks using small_bits[OF u, of n] by cases (auto simp: bit_simps)
qed

lemma continuation_cont: "continuation_loop (Suc n) (cont x # ptr) v = continuation_loop n ptr (push_bit 6 v OR (x AND 0x3f))"
  by (simp add: cont_top cont_low del: push_bit_or)

lemma decode_appended:
  assumes "cp \<le> 0x10ffff"
  shows "iterator_deref (append_code_point cp @ t) = Inr cp \<and> iterator_next (append_code_point cp @ t) = Inr t"
proof -
  have "unat cp \<le> 0x10ffff" using assms by (simp add: word_le_nat_alt)
  then consider "unat cp < 2 ^ 7" | "2 ^ 7 \<le> unat cp" "unat cp < 2 ^ 11" | "2 ^ 11 \<le> unat cp" "unat cp < 2 ^ 16"
    | "2 ^ 16 \<le> unat cp" "unat cp \<le> 0x10ffff" by linarith
  then show ?thesis
  proof cases
    case 1
    have "\<not> bit (ucast cp :: u8) 7" using small_bits[OF 1, of 7] by (simp add: bit_unsigned_iff)
    moreover have "ucast (ucast cp :: u8) = cp"
      by (rule ucast_byte_eqI) (use small_bits[OF 1] in \<open>auto simp: bit_unsigned_iff\<close>)
    ultimately have "decode_first_byte (ucast cp) = Some (1, cp)" unfolding decode_first_byte_def and_power by simp
    moreover have "append_code_point cp = [ucast cp]" using 1 by (simp add: append_code_point_def word_le_nat_alt)
    ultimately show ?thesis by (simp add: iterator_deref_def iterator_next_def)
  next
    case 2
    have "append_code_point cp = [lead2 (drop_bit 6 cp), cont cp]"
      using 2 by (simp add: append_code_point_def lead2_def cont_def word_le_nat_alt)
    moreover have "continuation_loop (Suc 0) (cont cp # t) (drop_bit 6 cp AND 0x1f) = Inr cp"
      unfolding continuation_cont utf8_join2[OF 2(2)] by simp
    ultimately show ?thesis by (simp add: iterator_deref_def iterator_next_def lead_first del: continuation_loop.simps)
  next
    case 3
    have "append_code_point cp = [lead3 (drop_bit 12 cp), cont (drop_bit 6 cp), cont cp]"
      using 3 by (simp add: append_code_point_def lead3_def cont_def word_le_nat_alt)
    moreover have "continuation_loop (Suc (Suc 0)) (cont (drop_bit 6 cp) # cont cp # t) (drop_bit 12 cp AND 0x0f) = Inr cp"
      unfolding continuation_cont utf8_join3[OF 3(2)] by simp
    ultimately show ?thesis by (simp add: iterator_deref_def iterator_next_def lead_first numeral_3_eq_3 numeral_2_eq_2 del: continuation_loop.simps)
  next
    case 4
    then have u: "unat cp < 2 ^ 21" by simp
    have "append_code_point cp = [lead4 (drop_bit 18 cp), cont (drop_bit 12 cp), cont (drop_bit 6 cp), cont cp]"
      using 4 by (simp add: append_code_point_def lead4_def cont_def word_le_nat_alt)
    moreover have "continuation_loop (Suc (Suc (Suc 0))) (cont (drop_bit 12 cp) # cont (drop_bit 6 cp) # cont cp # t) (drop_bit 18 cp AND 0x07) = Inr cp"
      unfolding continuation_cont utf8_join4[OF u] by simp
    ultimately show ?thesis by (simp add: iterator_deref_def iterator_next_def lead_first eval_nat_numeral del: continuation_loop.simps)
  qed
qed

text \<open>
  C34: a sequence of code points up to \<open>0x10ffff\<close>, written with \<open>append_code_point\<close>, is read back by the iterator as
  the same sequence, and \<open>validate\<close> accepts it.
\<close>

theorem utf8_round_trip:
  assumes "list_all (\<lambda>cp. cp \<le> 0x10ffff) cps"
  shows "code_points (append_utf32 cps) = Inr cps \<and> fst (validate (append_utf32 cps))"
proof -
  have "code_points (append_utf32 cps) = Inr cps"
    using assms
  proof (induction cps)
    case Nil
    then show ?case by (simp add: append_utf32_def code_points.simps)
  next
    case (Cons cp cps)
    have a: "append_utf32 (cp # cps) = append_code_point cp @ append_utf32 cps" by (simp add: append_utf32_def)
    have "append_utf32 (cp # cps) \<noteq> []" by (simp add: append_utf32_def append_code_point_def)
    then show ?case using decode_appended[of cp "append_utf32 cps"] Cons
      by (subst code_points.simps) (simp add: a)
  qed
  then show ?thesis using validate_loop_spec[of "append_utf32 cps" 0] by (simp add: validate_def)
qed

theorem utf8_round_trip_witness:
  "code_points (append_utf32 [0x41, 0xe9, 0x20ac, 0x1f600]) = Inr [0x41, 0xe9, 0x20ac, 0x1f600]
    \<and> fst (validate (append_utf32 [0x41, 0xe9, 0x20ac, 0x1f600]))"
  by (rule utf8_round_trip) simp

end
