(* ===== verification/AK_Json.thy ===== *)
theory AK_Json
  imports AK_Format AK_Utf8
begin

text \<open>
  JSON (\<open>AK/JsonValue.h\<close>, \<open>AK/JsonObject.h\<close>, \<open>AK/JsonParser.cpp\<close>, \<open>AK/JsonArraySerializer.h\<close>,
  \<open>AK/JsonObjectSerializer.h\<close> and \<open>StringBuilder::append_escaped_for_json\<close>), in the kernel's build, which has no
  floating-point numbers.
\<close>

subsection \<open>Values\<close>

text \<open>
  The values of the kernel's build, which has no floating-point ones. An object keeps the order in which its members
  were set last.
\<close>

datatype json =
    JNull
  | JInt32 int
  | JUInt32 nat
  | JInt64 int
  | JUInt64 nat
  | JBool bool
  | JString string
  | JArray "json list"
  | JObject "(string \<times> json) list"

definition object_get :: "(string \<times> json) list \<Rightarrow> string \<Rightarrow> json" where
  "object_get members key = (case map_of members key of Some v \<Rightarrow> v | None \<Rightarrow> JNull)"

definition object_has :: "(string \<times> json) list \<Rightarrow> string \<Rightarrow> bool" where
  "object_has members key \<longleftrightarrow> map_of members key \<noteq> None"

definition object_remove :: "(string \<times> json) list \<Rightarrow> string \<Rightarrow> bool \<times> (string \<times> json) list" where
  "object_remove members key =
     (if object_has members key then (True, filter (\<lambda>m. fst m \<noteq> key) members) else (False, members))"

definition object_set :: "(string \<times> json) list \<Rightarrow> string \<Rightarrow> json \<Rightarrow> (string \<times> json) list" where
  "object_set members key v =
     (if object_has members key then filter (\<lambda>m. fst m \<noteq> key) members @ [(key, v)] else members @ [(key, v)])"

subsection \<open>Serializing\<close>

definition escape_for_json :: "char \<Rightarrow> string" where
  "escape_for_json ch =
     (if ch = CHR 0x1B then CHR 0x5C # ''u001B''
      else if ch = CHR 0x08 then CHR 0x5C # ''b''
      else if ch = CHR 0x0A then CHR 0x5C # ''n''
      else if ch = CHR 0x09 then CHR 0x5C # ''t''
      else if ch = CHR 0x22 then [CHR 0x5C, CHR 0x22]
      else if ch = CHR 0x5C then [CHR 0x5C, CHR 0x5C]
      else [ch])"

definition append_escaped_for_json :: "string \<Rightarrow> string" where
  "append_escaped_for_json s = concat (map escape_for_json s)"

definition quoted :: "string \<Rightarrow> string" where
  "quoted s = CHR 0x22 # append_escaped_for_json s @ [CHR 0x22]"

definition begin_member :: "bool \<Rightarrow> string \<Rightarrow> string" where
  "begin_member m_empty key = (if m_empty then [] else '','') @ quoted key @ '':''"

fun serialize :: "json \<Rightarrow> string result"
  and serialize_elements :: "bool \<Rightarrow> json list \<Rightarrow> string result"
  and serialize_members :: "bool \<Rightarrow> (string \<times> json) list \<Rightarrow> string result" where
  "serialize (JString s) = Inr (quoted s)"
| "serialize (JArray vs) = and_then (serialize_elements True vs) (\<lambda>s. Inr (''['' @ s @ '']''))"
| "serialize (JObject ms) = and_then (serialize_members True ms) (\<lambda>s. Inr (''{'' @ s @ ''}''))"
| "serialize (JBool b) = Inr (if b then ''true'' else ''false'')"
| "serialize (JInt32 i) = vformat ''{}'' [SInt 32 i]"
| "serialize (JInt64 i) = vformat ''{}'' [SInt 64 i]"
| "serialize (JUInt32 n) = vformat ''{}'' [UInt 32 n]"
| "serialize (JUInt64 n) = vformat ''{}'' [UInt 64 n]"
| "serialize JNull = Inr ''null''"
| "serialize_elements m_empty [] = Inr []"
| "serialize_elements m_empty (v # vs) =
     and_then (serialize v) (\<lambda>s. and_then (serialize_elements False vs) (\<lambda>s'.
       Inr ((if m_empty then [] else '','') @ s @ s')))"
| "serialize_members m_empty [] = Inr []"
| "serialize_members m_empty ((key, v) # ms) =
     and_then (serialize v) (\<lambda>s. and_then (serialize_members False ms) (\<lambda>s'.
       Inr (begin_member m_empty key @ s @ s')))"

subsection \<open>Parsing strings\<close>

function scan_plain :: "string \<Rightarrow> nat \<Rightarrow> nat" where
  "scan_plain s peek_index =
     (if length s \<le> peek_index then peek_index
      else if s ! peek_index = CHR 0x22 \<or> s ! peek_index = CHR 0x5C then peek_index
      else scan_plain s (peek_index + 1))"
  by pat_completeness auto
termination by (relation "measure (\<lambda>(s, i). length s - i)") auto

declare scan_plain.simps [simp del]

lemma scan_plain_ge: "i \<le> scan_plain s i"
  by (induction s i rule: scan_plain.induct) (subst scan_plain.simps, auto)

definition json_code_point :: "nat \<Rightarrow> string" where
  "json_code_point n = map (\<lambda>b. char_of (unat b)) (append_code_point (of_nat n))"

text \<open>What the escaped character \<open>escaped_ch\<close> appends.\<close>

definition json_escape :: "char \<Rightarrow> lexer \<Rightarrow> (string \<times> lexer) result" where
  "json_escape escaped_ch lx =
     (if escaped_ch = CHR ''n'' then Inr ([CHR 0x0A], lx)
      else if escaped_ch = CHR ''r'' then Inr ([CHR 0x0D], lx)
      else if escaped_ch = CHR ''t'' then Inr ([CHR 0x09], lx)
      else if escaped_ch = CHR ''b'' then Inr ([CHR 0x08], lx)
      else if escaped_ch = CHR ''f'' then Inr ([CHR 0x0C], lx)
      else if escaped_ch = CHR ''u'' then
        and_then (consume_count lx 4) (\<lambda>(view, lx).
        and_then (convert_to_uint_from_hex 32 (case view of Some v \<Rightarrow> v | None \<Rightarrow> [])) (\<lambda>code_point.
          Inr (case code_point of Some n \<Rightarrow> json_code_point n | None \<Rightarrow> ''?'', lx)))
      else Inr ([escaped_ch], lx))"

lemma json_escape_forward: "json_escape c lx = Inr (s, lx') \<Longrightarrow> m_input lx' = m_input lx \<and> m_index lx \<le> m_index lx'"
  by (auto simp: json_escape_def consume_count_def Let_def and_then_Inr_iff split: if_splits)

lemma consume_forward: "consume lx = Inr (c, lx') \<Longrightarrow> m_input lx' = m_input lx \<and> m_index lx' = m_index lx + 1 \<and> m_index lx < length (m_input lx)"
  by (auto simp: consume_def is_eof_def split: if_splits)

function json_string_loop :: "lexer \<Rightarrow> string \<Rightarrow> (string \<times> lexer) result" where
  "json_string_loop lx final_sb =
     (let peek_index = scan_plain (m_input lx) (m_index lx);
          final_sb = final_sb @ take (peek_index - m_index lx) (drop (m_index lx) (m_input lx));
          lx1 = lx\<lparr>m_index := peek_index\<rparr> in
      if length (m_input lx) \<le> peek_index then Inr (final_sb, lx1)
      else if m_input lx ! peek_index = CHR 0x22 then Inr (final_sb, lx1)
      else if m_input lx ! peek_index \<noteq> CHR 0x5C then
        and_then (consume lx1) (\<lambda>(c, lx2). json_string_loop lx2 (final_sb @ [c]))
      else
        and_then (consume (ignore lx1 1)) (\<lambda>(escaped_ch, lx2).
        and_then (json_escape escaped_ch lx2) (\<lambda>(s, lx3). json_string_loop lx3 (final_sb @ s))))"
  by pat_completeness auto
termination
proof (relation "measure (\<lambda>(lx, sb). length (m_input lx) - m_index lx)", goal_cases)
  case (2 lx final_sb peek_index sb lx1 x c lx2)
  then show ?case using consume_forward[of lx1 c lx2] scan_plain_ge[of "m_index lx" "m_input lx"] by auto
next
  case (3 lx final_sb peek_index sb lx1 x escaped_ch lx2 y s lx3)
  then show ?case
    using consume_forward[of "ignore lx1 1" escaped_ch lx2] json_escape_forward[of escaped_ch lx2 s lx3]
      scan_plain_ge[of "m_index lx" "m_input lx"] by (auto simp: ignore_def)
qed simp

declare json_string_loop.simps [simp del]

definition json_consume_string :: "lexer \<Rightarrow> (string option \<times> lexer) result" where
  "json_consume_string lx =
     (case consume_specific lx (CHR 0x22) of
        (False, lx) \<Rightarrow> Inr (None, lx)
      | (True, lx) \<Rightarrow>
          and_then (json_string_loop lx []) (\<lambda>(final_sb, lx).
            case consume_specific lx (CHR 0x22) of
              (False, lx) \<Rightarrow> Inr (None, lx)
            | (True, lx) \<Rightarrow> Inr (Some final_sb, lx)))"

subsection \<open>Parsing numbers and words\<close>

function number_loop :: "lexer \<Rightarrow> bool \<Rightarrow> string \<Rightarrow> string \<Rightarrow> string \<times> lexer" where
  "number_loop lx is_double number_buffer fraction_buffer =
     (let ch = peek lx 0 in
      if ch = CHR ''.'' then number_loop (lx\<lparr>m_index := m_index lx + 1\<rparr>) True number_buffer fraction_buffer
      else if ch = CHR ''-'' \<or> in_range (CHR ''0'') (CHR ''9'') ch then
        if is_double then number_loop (lx\<lparr>m_index := m_index lx + 1\<rparr>) is_double number_buffer (fraction_buffer @ [ch])
        else number_loop (lx\<lparr>m_index := m_index lx + 1\<rparr>) is_double (number_buffer @ [ch]) fraction_buffer
      else (number_buffer, lx))"
  by pat_completeness auto
termination
  by (relation "measure (\<lambda>(lx, d, n, f). length (m_input lx) - m_index lx)") (auto simp: peek_def in_range_def split: if_splits)

declare number_loop.simps [simp del]

text \<open>The conversion of a 64-bit integer to 32 bits keeps its low half.\<close>

definition to_i32 :: "int \<Rightarrow> int" where
  "to_i32 v = (v + 2 ^ 31) mod 2 ^ 32 - 2 ^ 31"

definition parse_number :: "lexer \<Rightarrow> (json option \<times> lexer) result" where
  "parse_number lx =
     (case number_loop lx False [] [] of (number_string, lx) \<Rightarrow>
        and_then (convert_to_uint 32 number_string) (\<lambda>to_unsigned_result.
          case to_unsigned_result of
            Some v \<Rightarrow> Inr (Some (JUInt32 v), lx)
          | None \<Rightarrow>
              and_then (convert_to_int 64 number_string) (\<lambda>number.
                case number of
                  None \<Rightarrow> Inr (None, lx)
                | Some v \<Rightarrow> Inr (Some (if v \<le> 2 ^ 31 - 1 then JInt32 (to_i32 v) else JInt64 v), lx))))"

definition parse_word :: "string \<Rightarrow> json \<Rightarrow> lexer \<Rightarrow> json option \<times> lexer" where
  "parse_word word v lx = (case consume_specific_view lx word of (True, lx) \<Rightarrow> (Some v, lx) | (False, lx) \<Rightarrow> (None, lx))"

definition parse_string :: "lexer \<Rightarrow> (json option \<times> lexer) result" where
  "parse_string lx =
     and_then (json_consume_string lx) (\<lambda>(r, lx). Inr (case r of Some s \<Rightarrow> Some (JString s) | None \<Rightarrow> None, lx))"

subsection \<open>Parsing values\<close>

definition skip_space :: "lexer \<Rightarrow> lexer" where
  "skip_space lx = ignore_while lx isspace"

definition finish_with :: "char \<Rightarrow> json \<Rightarrow> lexer \<Rightarrow> json option \<times> lexer" where
  "finish_with c v lx = (case consume_specific lx c of (True, lx) \<Rightarrow> (Some v, lx) | (False, lx) \<Rightarrow> (None, lx))"

text \<open>
  \<open>parse_helper\<close> and the loops of \<open>parse_object\<close> and \<open>parse_array\<close> call one another; the first argument bounds the
  depth of these calls.
\<close>

fun parse_helper :: "nat \<Rightarrow> lexer \<Rightarrow> (json option \<times> lexer) result"
  and parse_object_loop :: "nat \<Rightarrow> (string \<times> json) list \<Rightarrow> lexer \<Rightarrow> (json option \<times> lexer) result"
  and parse_array_loop :: "nat \<Rightarrow> json list \<Rightarrow> lexer \<Rightarrow> (json option \<times> lexer) result" where
  "parse_helper 0 lx = Inl Diverges"
| "parse_helper (Suc n) lx =
     (let lx = skip_space lx; type_hint = peek lx 0 in
      if type_hint = CHR ''{'' then
        (case consume_specific lx (CHR ''{'') of (False, lx) \<Rightarrow> Inr (None, lx) | (True, lx) \<Rightarrow> parse_object_loop n [] lx)
      else if type_hint = CHR ''['' then
        (case consume_specific lx (CHR ''['') of (False, lx) \<Rightarrow> Inr (None, lx) | (True, lx) \<Rightarrow> parse_array_loop n [] lx)
      else if type_hint = CHR 0x22 then parse_string lx
      else if type_hint = CHR ''-'' \<or> in_range (CHR ''0'') (CHR ''9'') type_hint then parse_number lx
      else if type_hint = CHR ''f'' then Inr (parse_word ''false'' (JBool False) lx)
      else if type_hint = CHR ''t'' then Inr (parse_word ''true'' (JBool True) lx)
      else if type_hint = CHR ''n'' then Inr (parse_word ''null'' JNull lx)
      else Inr (None, lx))"
| "parse_object_loop 0 members lx = Inl Diverges"
| "parse_object_loop (Suc n) members lx =
     (let lx = skip_space lx in
      if peek lx 0 = CHR ''}'' then Inr (finish_with (CHR ''}'') (JObject members) lx)
      else
        and_then (json_consume_string (skip_space lx)) (\<lambda>(name, lx).
          case name of
            None \<Rightarrow> Inr (None, lx)
          | Some key \<Rightarrow>
              (case consume_specific (skip_space lx) (CHR '':'') of
                 (False, lx) \<Rightarrow> Inr (None, lx)
               | (True, lx) \<Rightarrow>
                   and_then (parse_helper n (skip_space lx)) (\<lambda>(v, lx).
                     case v of
                       None \<Rightarrow> Inr (None, lx)
                     | Some v \<Rightarrow>
                         let members = object_set members key v; lx = skip_space lx in
                         if peek lx 0 = CHR ''}'' then Inr (finish_with (CHR ''}'') (JObject members) lx)
                         else
                           (case consume_specific lx (CHR '','') of
                              (False, lx) \<Rightarrow> Inr (None, lx)
                            | (True, lx) \<Rightarrow>
                                let lx = skip_space lx in
                                if peek lx 0 = CHR ''}'' then Inr (None, lx) else parse_object_loop n members lx)))))"
| "parse_array_loop 0 elements lx = Inl Diverges"
| "parse_array_loop (Suc n) elements lx =
     (let lx = skip_space lx in
      if peek lx 0 = CHR '']'' then Inr (finish_with (CHR '']'') (JArray elements) (skip_space lx))
      else
        and_then (parse_helper n lx) (\<lambda>(v, lx).
          case v of
            None \<Rightarrow> Inr (None, lx)
          | Some v \<Rightarrow>
              let elements = elements @ [v]; lx = skip_space lx in
              if peek lx 0 = CHR '']'' then Inr (finish_with (CHR '']'') (JArray elements) (skip_space lx))
              else
                (case consume_specific lx (CHR '','') of
                   (False, lx) \<Rightarrow> Inr (None, lx)
                 | (True, lx) \<Rightarrow>
                     let lx = skip_space lx in
                     if peek lx 0 = CHR '']'' then Inr (None, lx) else parse_array_loop n elements lx)))"

definition parse_json :: "string \<Rightarrow> json option result" where
  "parse_json input =
     and_then (parse_helper (2 * length input + 1) (make_lexer input)) (\<lambda>(r, lx).
       case r of
         None \<Rightarrow> Inr None
       | Some v \<Rightarrow> Inr (if is_eof (skip_space lx) then Some v else None))"

subsection \<open>A printed string is read back\<close>

lemma unread_index: "unread lx = c # t \<Longrightarrow> m_index lx < length (m_input lx) \<and> m_input lx ! m_index lx = c"
  by (metis drop_all hd_drop_conv_nth linorder_not_less list.distinct(1) list.sel(1) unread_def)

lemma string_loop_plain:
  assumes "unread lx = c # t" "c \<noteq> CHR 0x22" "c \<noteq> CHR 0x5C"
  shows "json_string_loop lx sb = json_string_loop (skip lx 1) (sb @ [c])"
proof -
  have i: "m_index lx < length (m_input lx)" "m_input lx ! m_index lx = c" using unread_index[OF assms(1)] by auto
  define p where "p = scan_plain (m_input lx) (Suc (m_index lx))"
  have p: "scan_plain (m_input lx) (m_index lx) = p"
    using i assms unfolding p_def by (subst scan_plain.simps) simp
  have ge: "Suc (m_index lx) \<le> p" using scan_plain_ge unfolding p_def by blast
  have t: "take (p - m_index lx) (drop (m_index lx) (m_input lx)) = c # take (p - Suc (m_index lx)) (drop (Suc (m_index lx)) (m_input lx))"
  proof -
    have "drop (m_index lx) (m_input lx) = c # drop (Suc (m_index lx)) (m_input lx)" using Cons_nth_drop_Suc[OF i(1)] i(2) by simp
    moreover have "p - m_index lx = Suc (p - Suc (m_index lx))" using ge by simp
    ultimately show ?thesis by simp
  qed
  show ?thesis
    by (subst (1 2) json_string_loop.simps) (simp add: p t p_def[symmetric] Let_def)
qed

lemma string_loop_quote:
  assumes "unread lx = CHR 0x22 # t"
  shows "json_string_loop lx sb = Inr (sb, lx)"
proof -
  have i: "m_index lx < length (m_input lx)" "m_input lx ! m_index lx = CHR 0x22" using unread_index[OF assms(1)] by auto
  then have "scan_plain (m_input lx) (m_index lx) = m_index lx" by (subst scan_plain.simps) simp
  then show ?thesis using i by (subst json_string_loop.simps) simp
qed

lemma string_loop_escape:
  assumes "unread lx = CHR 0x5C # e # t" "lexer_inv lx"
  shows "json_string_loop lx sb = and_then (json_escape e (skip lx 2)) (\<lambda>(s, lx3). json_string_loop lx3 (sb @ s))"
proof -
  have i: "m_index lx < length (m_input lx)" "m_input lx ! m_index lx = CHR 0x5C" using unread_index[OF assms(1)] by auto
  then have p: "scan_plain (m_input lx) (m_index lx) = m_index lx" by (subst scan_plain.simps) simp
  have u1: "unread (skip lx 1) = e # t" using assms(1) by (simp only: unread_skip) simp
  have g: "ignore lx 1 = skip lx 1" using i by (simp add: ignore_def clip_def min_def)
  have "consume (skip lx 1) = Inr (e, skip lx 2)" using consume_spec[of "skip lx 1"] u1 by simp
  then show ?thesis using i p g by (subst json_string_loop.simps) simp
qed

lemma json_escape_001B:
  assumes "unread lx = ''001B'' @ t" "lexer_inv lx"
  shows "json_escape (CHR ''u'') lx = Inr ([CHR 0x1B], skip lx 4)"
proof -
  have l: "m_index lx + 4 \<le> length (m_input lx)" using arg_cong[OF assms(1), of length] by (simp add: unread_def)
  have "take 4 (unread lx) = ''001B''" unfolding assms(1) by simp
  then have "consume_count lx 4 = Inr (Some ''001B'', skip lx 4)"
    using l by (simp add: consume_count_def Let_def clip_def min_def unread_def)
  moreover have "convert_to_uint_from_hex 32 ''001B'' = Inr (Some 27)" by code_simp
  moreover have "json_code_point 27 = [CHR 0x1B]" by code_simp
  ultimately show ?thesis by (simp add: json_escape_def)
qed

lemma string_loop_escaped:
  assumes "unread lx = escape_for_json c @ t" "lexer_inv lx"
  shows "json_string_loop lx sb = json_string_loop (skip lx (length (escape_for_json c))) (sb @ [c])"
proof (cases "c = CHR 0x1B")
  case True
  then have u: "unread lx = CHR 0x5C # CHR ''u'' # ''001B'' @ t" using assms by (simp add: escape_for_json_def)
  then have u2: "unread (skip lx 2) = ''001B'' @ t" by (simp only: unread_skip) simp
  have "lexer_inv (skip lx 2)" using u by (intro skip_inv assms) simp
  then have "json_escape (CHR ''u'') (skip lx 2) = Inr ([CHR 0x1B], skip lx 6)" using json_escape_001B[OF u2] by simp
  moreover have "length (escape_for_json c) = 6" using True by (simp add: escape_for_json_def)
  ultimately show ?thesis using string_loop_escape[OF u assms(2)] True by simp
next
  case False
  show ?thesis
  proof (cases "escape_for_json c = [c]")
    case True
    then have "c \<noteq> CHR 0x22" "c \<noteq> CHR 0x5C" by (auto simp: escape_for_json_def split: if_splits)
    then show ?thesis using string_loop_plain[of lx c t] assms(1) True by simp
  next
    case plain: False
    then obtain e where e: "escape_for_json c = [CHR 0x5C, e]" "json_escape e lx' = Inr ([c], lx')" for lx'
      using \<open>c \<noteq> CHR 0x1B\<close> by (auto simp: escape_for_json_def json_escape_def split: if_splits)
    then show ?thesis using string_loop_escape[of lx e t] assms by simp
  qed
qed

lemma string_loop_text:
  "unread lx = append_escaped_for_json s @ CHR 0x22 # t \<Longrightarrow> lexer_inv lx
    \<Longrightarrow> json_string_loop lx sb = Inr (sb @ s, skip lx (length (append_escaped_for_json s)))"
proof (induction s arbitrary: lx sb)
  case Nil
  then show ?case using string_loop_quote[of lx] by (simp add: append_escaped_for_json_def)
next
  case (Cons c s)
  let ?k = "length (escape_for_json c)"
  have u: "unread lx = escape_for_json c @ append_escaped_for_json s @ CHR 0x22 # t"
    using Cons.prems by (simp add: append_escaped_for_json_def)
  have "json_string_loop (skip lx ?k) (sb @ [c]) = Inr ((sb @ [c]) @ s, skip (skip lx ?k) (length (append_escaped_for_json s)))"
  proof (rule Cons.IH)
    show "unread (skip lx ?k) = append_escaped_for_json s @ CHR 0x22 # t" by (simp only: unread_skip u) simp
    show "lexer_inv (skip lx ?k)" using u by (intro skip_inv Cons.prems) simp
  qed
  then show ?case using string_loop_escaped[OF u Cons.prems(2)] by (simp add: append_escaped_for_json_def add.assoc)
qed

lemma json_string_text:
  assumes "unread lx = quoted s @ t" "lexer_inv lx"
  shows "json_consume_string lx = Inr (Some s, skip lx (length (quoted s)))"
proof -
  let ?k = "length (append_escaped_for_json s)"
  have u: "unread lx = CHR 0x22 # append_escaped_for_json s @ CHR 0x22 # t" using assms by (simp add: quoted_def)
  have u1: "unread (skip lx 1) = append_escaped_for_json s @ CHR 0x22 # t" by (simp only: unread_skip u) simp
  have i1: "lexer_inv (skip lx 1)" using u by (intro skip_inv assms) simp
  have u2: "unread (skip lx (Suc ?k)) = CHR 0x22 # t" by (simp only: unread_skip u) simp
  have i2: "lexer_inv (skip lx (Suc ?k))" using u by (intro skip_inv assms) simp
  have "consume_specific lx (CHR 0x22) = (True, skip lx 1)" by (rule consume_specific_hit[OF u assms(2)])
  moreover have "json_string_loop (skip lx 1) [] = Inr (s, skip lx (Suc ?k))" using string_loop_text[OF u1 i1, of "[]"] by simp
  moreover have "consume_specific (skip lx (Suc ?k)) (CHR 0x22) = (True, skip lx (?k + 2))"
    using consume_specific_hit[OF u2 i2] by simp
  ultimately show ?thesis by (simp add: json_consume_string_def quoted_def)
qed


subsection \<open>A printed number is read back\<close>

definition number_char :: "char \<Rightarrow> bool" where
  "number_char c \<longleftrightarrow> c = CHR ''-'' \<or> in_range (CHR ''0'') (CHR ''9'') c"

definition value_stop :: "string \<Rightarrow> bool" where
  "value_stop t \<longleftrightarrow> t = [] \<or> \<not> number_char (hd t) \<and> hd t \<noteq> CHR ''.''"

lemma number_loop_text:
  "list_all number_char num \<Longrightarrow> value_stop t \<Longrightarrow> unread lx = num @ t \<Longrightarrow> number_loop lx False buf fr = (buf @ num, skip lx (length num))"
proof (induction num arbitrary: lx buf)
  case Nil
  then have "peek lx 0 \<noteq> CHR ''.''" "\<not> number_char (peek lx 0)"
    by (auto simp: peek_unread value_stop_def hd_conv_nth number_char_def in_range_def)
  then show ?case by (subst number_loop.simps) (simp add: number_char_def Let_def)
next
  case (Cons c num)
  have "unread (skip lx 1) = num @ t" using Cons.prems by (simp only: unread_skip) simp
  then have "number_loop (skip lx 1) False (buf @ [c]) fr = ((buf @ [c]) @ num, skip (skip lx 1) (length num))"
    using Cons by (intro Cons.IH) auto
  moreover have "peek lx 0 = c" using Cons.prems by (simp add: peek_unread)
  moreover have "c \<noteq> CHR ''.''" "number_char c" using Cons.prems by (auto simp: number_char_def in_range_def)
  ultimately show ?case by (subst number_loop.simps) (simp add: number_char_def Let_def)
qed

lemma digit_number_chars: "list_all number_char (digit_string 10 False v)"
  using digit_string_decimal(2)[of v] by (auto simp: list_all_iff number_char_def isdigit_def)

lemma parse_unsigned_text:
  assumes "n < 2 ^ 32" "unread lx = digit_string 10 False n @ t" "value_stop t"
  shows "parse_number lx = Inr (Some (JUInt32 n), skip lx (length (digit_string 10 False n)))"
  using number_loop_text[OF digit_number_chars assms(3,2), of "[]" "[]"] convert_digit_string[of n 32] assms(1)
  by (simp add: parse_number_def)

lemma number_text_chars: "list_all number_char (number_text v)"
  using digit_number_chars by (simp add: number_text_def number_char_def)

lemma convert_negative_uint: "- (2 ^ 63) < v \<Longrightarrow> v < 0 \<Longrightarrow> convert_to_uint 32 (number_text v) = Inr None"
proof -
  assume v: "- (2 ^ 63) < v" "v < 0"
  let ?d = "digit_string 10 False (nat \<bar>v\<bar>)"
  have "strip_right (strip_left (number_text v)) = CHR ''-'' # ?d"
    using v strip_negative[of ?d] digit_string_decimal[of "nat \<bar>v\<bar>"] by (simp add: number_text_def)
  moreover have "nat \<bar>v\<bar> < 2 ^ 64" using v by simp
  then have "length (number_text v) < 2 ^ 32" using length_digit_string[of "nat \<bar>v\<bar>"] v by (simp add: number_text_def)
  ultimately show ?thesis using convert_to_uint_spec[of "number_text v" 32] by (simp add: Let_def isdigit_def in_range_def)
qed

lemma parse_negative_text:
  assumes "- (2 ^ 31) \<le> v" "v < 0" "unread lx = number_text v @ t" "value_stop t"
  shows "parse_number lx = Inr (Some (JInt32 v), skip lx (length (number_text v)))"
proof -
  have "to_i32 v = v" using assms by (simp add: to_i32_def mod_pos_pos_trivial)
  then show ?thesis
    using number_loop_text[OF number_text_chars assms(4,3), of "[]" "[]"] convert_negative_uint[of v] convert_number_text[of v] assms(1,2)
    by (simp add: parse_number_def)
qed

lemma parse_large_text:
  assumes "2 ^ 32 \<le> v" "v < 2 ^ 63" "unread lx = number_text v @ t" "value_stop t"
  shows "parse_number lx = Inr (Some (JInt64 v), skip lx (length (number_text v)))"
proof -
  let ?d = "digit_string 10 False (nat v)"
  have nt: "number_text v = ?d" using assms by (simp add: number_text_def)
  have "nat v < 2 ^ 64" using assms(2) by simp
  then have l: "length ?d < 2 ^ 32" using length_digit_string[of "nat v"] by simp
  have "\<not> nat v < 2 ^ 32" using assms(1) by simp
  then have "convert_to_uint 32 ?d = Inr None"
    using convert_to_uint_spec[OF l, of 32] digit_string_decimal[of "nat v"] strip_digits[of ?d] by (simp add: Let_def fits_uint_def)
  then show ?thesis
    using number_loop_text[OF number_text_chars assms(4,3), of "[]" "[]"] convert_number_text[of v] assms(1,2) nt
    by (simp add: parse_number_def)
qed

subsection \<open>A printed value is read back\<close>

definition value_start :: "char \<Rightarrow> bool" where
  "value_start c \<longleftrightarrow> number_char c \<or> c \<in> set ''{[tfn'' \<or> c = CHR 0x22"

lemma value_start_not: "value_start c \<Longrightarrow> \<not> isspace c \<and> c \<noteq> CHR '']'' \<and> c \<noteq> CHR ''}''"
  by (auto simp: value_start_def number_char_def in_range_def isspace_def)

definition parses :: "json \<Rightarrow> string \<Rightarrow> bool" where
  "parses v s \<longleftrightarrow> s \<noteq> [] \<and> value_start (hd s) \<and> (\<forall>lx t fuel. unread lx = s @ t \<longrightarrow> lexer_inv lx \<longrightarrow> value_stop t
     \<longrightarrow> 2 * length s + 1 \<le> fuel \<longrightarrow> parse_helper fuel lx = Inr (Some v, skip lx (length s)))"

lemma skip_space_noop: "unread lx = [] \<or> \<not> isspace (hd (unread lx)) \<Longrightarrow> skip_space lx = lx"
  unfolding skip_space_def ignore_while_def
  by (subst advance_while.simps) (auto simp: is_eof_unread peek_unread hd_conv_nth)

lemma parsesI:
  assumes "s \<noteq> []" "value_start (hd s)"
    and "\<And>lx t n. unread lx = s @ t \<Longrightarrow> lexer_inv lx \<Longrightarrow> value_stop t \<Longrightarrow> 2 * length s \<le> n \<Longrightarrow> skip_space lx = lx \<Longrightarrow> peek lx 0 = hd s
      \<Longrightarrow> parse_helper (Suc n) lx = Inr (Some v, skip lx (length s))"
  shows "parses v s"
  unfolding parses_def
proof (intro conjI allI impI)
  fix lx t fuel
  assume a: "unread lx = s @ t" "lexer_inv lx" "value_stop t" "2 * length s + 1 \<le> fuel"
  then obtain n where n: "fuel = Suc n" "2 * length s \<le> n" by (cases fuel) auto
  have h: "hd (unread lx) = hd s" "unread lx \<noteq> []" using a(1) assms(1) by auto
  have "skip_space lx = lx" using h value_start_not[OF assms(2)] by (intro skip_space_noop) simp
  moreover have "peek lx 0 = hd s" using h by (simp add: peek_unread hd_conv_nth)
  ultimately show "parse_helper fuel lx = Inr (Some v, skip lx (length s))" using assms(3)[OF a(1-3) n(2)] n(1) by simp
qed (use assms in auto)

lemma next_is_view_text: "unread lx = w @ t \<Longrightarrow> next_is_view lx w"
  by (simp add: next_is_view_def list_all_length peek_unread nth_append)

lemma parse_word_text:
  assumes "unread lx = w @ t" "lexer_inv lx"
  shows "parse_word w v lx = (Some v, skip lx (length w))"
proof -
  have "length (unread lx) = length w + length t" using assms(1) by simp
  then have "clip lx (length w) = length w" by (auto simp: clip_def unread_def)
  then show ?thesis using next_is_view_text[OF assms(1)] by (simp add: parse_word_def consume_specific_view_def ignore_def)
qed

lemma parses_null: "parses JNull ''null''"
  by (rule parsesI) (simp_all add: value_start_def parse_word_text number_char_def in_range_def)

lemma parses_bool: "parses (JBool b) (if b then ''true'' else ''false'')"
  by (rule parsesI) (auto simp: value_start_def parse_word_text number_char_def in_range_def)

lemma parses_string: "parses (JString s) (quoted s)"
proof (rule parsesI)
  show "quoted s \<noteq> []" "value_start (hd (quoted s))" by (simp_all add: quoted_def value_start_def)
  fix lx t n
  assume a: "unread lx = quoted s @ t" "lexer_inv lx" "skip_space lx = lx" "peek lx 0 = hd (quoted s)"
  then have "peek lx 0 = CHR 0x22" by (simp add: quoted_def)
  then show "parse_helper (Suc n) lx = Inr (Some (JString s), skip lx (length (quoted s)))"
    using a json_string_text[OF a(1,2)] by (simp add: parse_string_def)
qed

lemma number_start: "list_all number_char s \<Longrightarrow> s \<noteq> [] \<Longrightarrow> number_char (hd s)"
  by (cases s) auto

lemma parses_number:
  assumes "list_all number_char s" "s \<noteq> []"
    and "\<And>lx t. unread lx = s @ t \<Longrightarrow> value_stop t \<Longrightarrow> parse_number lx = Inr (Some v, skip lx (length s))"
  shows "parses v s"
proof (rule parsesI)
  have c: "number_char (hd s)" by (rule number_start[OF assms(1,2)])
  then show "value_start (hd s)" by (simp add: value_start_def)
  fix lx t n
  assume a: "unread lx = s @ t" "value_stop t" "skip_space lx = lx" "peek lx 0 = hd s"
  have "hd s \<noteq> CHR ''{''" "hd s \<noteq> CHR ''[''" "hd s \<noteq> CHR 0x22" using c by (auto simp: number_char_def in_range_def)
  then show "parse_helper (Suc n) lx = Inr (Some v, skip lx (length s))"
    using a c assms(3)[OF a(1,2)] by (simp add: number_char_def)
qed (rule assms(2))

lemma value_stop_punct: "value_stop (CHR '','' # t)" "value_stop (CHR '']'' # t)" "value_stop (CHR ''}'' # t)"
  by (simp_all add: value_stop_def number_char_def in_range_def)

lemma finish_with_text: "unread lx = c # t \<Longrightarrow> lexer_inv lx \<Longrightarrow> finish_with c v lx = (Some v, skip lx 1)"
  using consume_specific_hit[of lx c t] by (simp add: finish_with_def)

definition array_next :: "nat \<Rightarrow> json list \<Rightarrow> lexer \<Rightarrow> (json option \<times> lexer) result" where
  "array_next n elements lx =
     (let lx = skip_space lx in
      if peek lx 0 = CHR '']'' then Inr (finish_with (CHR '']'') (JArray elements) (skip_space lx))
      else
        (case consume_specific lx (CHR '','') of
           (False, lx) \<Rightarrow> Inr (None, lx)
         | (True, lx) \<Rightarrow>
             let lx = skip_space lx in
             if peek lx 0 = CHR '']'' then Inr (None, lx) else parse_array_loop n elements lx))"

definition parses_rest :: "json list \<Rightarrow> string \<Rightarrow> bool" where
  "parses_rest vs s \<longleftrightarrow> (\<forall>t. value_stop (s @ CHR '']'' # t)) \<and> (\<forall>elements lx t fuel. unread lx = s @ CHR '']'' # t \<longrightarrow> lexer_inv lx
     \<longrightarrow> 2 * length s + 1 \<le> fuel \<longrightarrow> array_next fuel elements lx = Inr (Some (JArray (elements @ vs)), skip lx (length s + 1)))"

lemma peek_head: "unread lx = s @ t \<Longrightarrow> s \<noteq> [] \<Longrightarrow> peek lx 0 = hd s"
  by (cases s) (simp_all add: peek_unread)

lemma skip_space_value: "unread lx = s @ t \<Longrightarrow> s \<noteq> [] \<Longrightarrow> value_start (hd s) \<Longrightarrow> skip_space lx = lx"
  using value_start_not by (intro skip_space_noop) auto

lemma array_step:
  assumes v: "parses v s" and vs: "parses_rest vs s'" and u: "unread lx = s @ s' @ CHR '']'' # t" and i: "lexer_inv lx"
    and f: "2 * length (s @ s') + 2 \<le> fuel"
  shows "parse_array_loop fuel elements lx = Inr (Some (JArray (elements @ v # vs)), skip lx (length (s @ s') + 1))"
proof -
  obtain n where n: "fuel = Suc n" "2 * length (s @ s') + 1 \<le> n" using f by (cases fuel) auto
  have s: "s \<noteq> []" "value_start (hd s)" using v by (auto simp: parses_def)
  have sk: "skip_space lx = lx" by (rule skip_space_value[OF u s])
  have pk: "peek lx 0 \<noteq> CHR '']''" using peek_head[OF u s(1)] value_start_not[OF s(2)] by simp
  have ph: "parse_helper n lx = Inr (Some v, skip lx (length s))"
    using v u i n(2) vs by (auto simp: parses_def parses_rest_def)
  have u': "unread (skip lx (length s)) = s' @ CHR '']'' # t" using u by (simp only: unread_skip) simp
  have "lexer_inv (skip lx (length s))" using u i by (intro skip_inv) simp_all
  then have "array_next n (elements @ [v]) (skip lx (length s)) = Inr (Some (JArray ((elements @ [v]) @ vs)), skip (skip lx (length s)) (length s' + 1))"
    using vs u' n(2) unfolding parses_rest_def by simp
  then show ?thesis unfolding n(1) by (simp add: sk pk ph array_next_def Let_def add.assoc)
qed

lemma parses_rest_Nil: "parses_rest [] []"
proof -
  have "array_next fuel elements lx = Inr (Some (JArray elements), skip lx 1)"
    if u: "unread lx = CHR '']'' # t" "lexer_inv lx" for fuel elements lx t
  proof -
    have "skip_space lx = lx" using u by (intro skip_space_noop) (simp add: isspace_def)
    then show ?thesis using u peek_head[of lx "'']''" t] finish_with_text[OF u] by (simp add: array_next_def)
  qed
  then show ?thesis by (simp add: parses_rest_def value_stop_punct)
qed

lemma parses_rest_Cons:
  assumes v: "parses v s" and vs: "parses_rest vs s'"
  shows "parses_rest (v # vs) (CHR '','' # s @ s')"
proof -
  have "array_next fuel elements lx = Inr (Some (JArray (elements @ v # vs)), skip lx (length (s @ s') + 2))"
    if u: "unread lx = CHR '','' # s @ s' @ CHR '']'' # t" and i: "lexer_inv lx" and f: "2 * length (s @ s') + 3 \<le> fuel" for fuel elements lx t
  proof -
    have sk: "skip_space lx = lx" using u by (intro skip_space_noop) (simp add: isspace_def)
    have pk: "peek lx 0 = CHR '',''" using peek_head[of lx "'',''"] u by simp
    have c: "consume_specific lx (CHR '','') = (True, skip lx 1)" by (rule consume_specific_hit[OF u i])
    have u1: "unread (skip lx 1) = s @ s' @ CHR '']'' # t" using u by (simp only: unread_skip) simp
    have i1: "lexer_inv (skip lx 1)" using u i by (intro skip_inv) simp_all
    have s: "s \<noteq> []" "value_start (hd s)" using v by (auto simp: parses_def)
    have "skip_space (skip lx 1) = skip lx 1" "peek (skip lx 1) 0 \<noteq> CHR '']''"
      using skip_space_value[OF u1 s] peek_head[OF u1 s(1)] value_start_not[OF s(2)] by simp_all
    moreover have "parse_array_loop fuel elements (skip lx 1) = Inr (Some (JArray (elements @ v # vs)), skip (skip lx 1) (length (s @ s') + 1))"
      using f by (intro array_step[OF v vs u1 i1]) simp
    ultimately show ?thesis by (simp add: array_next_def sk pk c)
  qed
  then show ?thesis by (simp add: parses_rest_def value_stop_punct)
qed

lemma parses_array:
  assumes "parses v s" "parses_rest vs s'"
  shows "parses (JArray (v # vs)) (CHR ''['' # s @ s' @ '']'')"
proof (rule parsesI)
  fix lx t n
  assume a: "unread lx = (CHR ''['' # s @ s' @ '']'') @ t" "lexer_inv lx" "2 * length (CHR ''['' # s @ s' @ '']'') \<le> n"
    "skip_space lx = lx" "peek lx 0 = hd (CHR ''['' # s @ s' @ '']'')"
  have c: "consume_specific lx (CHR ''['') = (True, skip lx 1)" using a(1,2) by (intro consume_specific_hit) simp_all
  have u1: "unread (skip lx 1) = s @ s' @ CHR '']'' # t" using a(1) by (simp only: unread_skip) simp
  have i1: "lexer_inv (skip lx 1)" using a(1,2) by (intro skip_inv) simp_all
  show "parse_helper (Suc n) lx = Inr (Some (JArray (v # vs)), skip lx (length (CHR ''['' # s @ s' @ '']'')))"
    using array_step[OF assms u1 i1, of n "[]"] a(3-5) c by simp
qed (simp_all add: value_start_def)

lemma parses_empty_array: "parses (JArray []) ''[]''"
proof (rule parsesI)
  fix lx t n
  assume a: "unread lx = ''[]'' @ t" "lexer_inv lx" "2 * length ''[]'' \<le> n" "skip_space lx = lx" "peek lx 0 = hd ''[]''"
  have c: "consume_specific lx (CHR ''['') = (True, skip lx 1)" using a(1,2) by (intro consume_specific_hit) simp_all
  have u1: "unread (skip lx 1) = CHR '']'' # t" using a(1) by (simp only: unread_skip) simp
  have i1: "lexer_inv (skip lx 1)" using a(1,2) by (intro skip_inv) simp_all
  have "skip_space (skip lx 1) = skip lx 1" using u1 by (intro skip_space_noop) (simp add: isspace_def)
  moreover have "peek (skip lx 1) 0 = CHR '']''" using peek_head[of "skip lx 1" "'']''"] u1 by simp
  moreover obtain m where "n = Suc m" using a(3) by (cases n) auto
  ultimately show "parse_helper (Suc n) lx = Inr (Some (JArray []), skip lx (length ''[]''))"
    using a(4,5) c finish_with_text[OF u1 i1] by simp
qed (simp_all add: value_start_def)

definition object_next :: "nat \<Rightarrow> (string \<times> json) list \<Rightarrow> lexer \<Rightarrow> (json option \<times> lexer) result" where
  "object_next n members lx =
     (let lx = skip_space lx in
      if peek lx 0 = CHR ''}'' then Inr (finish_with (CHR ''}'') (JObject members) lx)
      else
        (case consume_specific lx (CHR '','') of
           (False, lx) \<Rightarrow> Inr (None, lx)
         | (True, lx) \<Rightarrow>
             let lx = skip_space lx in
             if peek lx 0 = CHR ''}'' then Inr (None, lx) else parse_object_loop n members lx))"

definition new_keys :: "(string \<times> json) list \<Rightarrow> (string \<times> json) list \<Rightarrow> bool" where
  "new_keys members ms \<longleftrightarrow> distinct (map fst ms) \<and> fst ` set members \<inter> fst ` set ms = {}"

lemma new_keys_Cons: "new_keys members ((k, v) # ms) \<Longrightarrow> object_set members k v = members @ [(k, v)] \<and> new_keys (members @ [(k, v)]) ms"
  by (auto simp: new_keys_def object_set_def object_has_def map_of_eq_None_iff)

definition parses_members :: "(string \<times> json) list \<Rightarrow> string \<Rightarrow> bool" where
  "parses_members ms s \<longleftrightarrow> (\<forall>t. value_stop (s @ CHR ''}'' # t)) \<and> (\<forall>members lx t fuel. unread lx = s @ CHR ''}'' # t \<longrightarrow> lexer_inv lx
     \<longrightarrow> new_keys members ms \<longrightarrow> 2 * length s + 1 \<le> fuel
     \<longrightarrow> object_next fuel members lx = Inr (Some (JObject (members @ ms)), skip lx (length s + 1)))"

lemma parses_membersD:
  "parses_members ms s \<Longrightarrow> unread lx = s @ CHR ''}'' # t \<Longrightarrow> lexer_inv lx \<Longrightarrow> new_keys members ms \<Longrightarrow> 2 * length s + 1 \<le> fuel
    \<Longrightarrow> object_next fuel members lx = Inr (Some (JObject (members @ ms)), skip lx (length s + 1))"
  unfolding parses_members_def by blast

lemma parsesD:
  "parses v s \<Longrightarrow> unread lx = s @ t \<Longrightarrow> lexer_inv lx \<Longrightarrow> value_stop t \<Longrightarrow> 2 * length s + 1 \<le> fuel
    \<Longrightarrow> parse_helper fuel lx = Inr (Some v, skip lx (length s))"
  unfolding parses_def by blast

lemma quoted_start: "quoted k \<noteq> []" "value_start (hd (quoted k))"
  by (simp_all add: quoted_def value_start_def)

lemma object_step:
  assumes v: "parses v s" and ms: "parses_members ms s'" and u: "unread lx = quoted k @ CHR '':'' # s @ s' @ CHR ''}'' # t"
    and i: "lexer_inv lx" and nk: "new_keys members ((k, v) # ms)"
    and f: "2 * length (quoted k @ s @ s') + 4 \<le> fuel"
  shows "parse_object_loop fuel members lx
    = Inr (Some (JObject (members @ (k, v) # ms)), skip lx (length (quoted k @ s @ s') + 2))"
proof -
  obtain n where n: "fuel = Suc n" "2 * length (quoted k @ s @ s') + 3 \<le> n" using f by (cases fuel) auto
  let ?k = "length (quoted k)"
  have sk: "skip_space lx = lx" by (rule skip_space_value[OF u quoted_start])
  have pk: "peek lx 0 \<noteq> CHR ''}''" using peek_head[OF u quoted_start(1)] value_start_not[OF quoted_start(2)] by simp
  have cs: "json_consume_string lx = Inr (Some k, skip lx ?k)" by (rule json_string_text[OF u i])
  have u1: "unread (skip lx ?k) = CHR '':'' # s @ s' @ CHR ''}'' # t" using u by (simp only: unread_skip) simp
  have i1: "lexer_inv (skip lx ?k)" using u i by (intro skip_inv) simp_all
  have sk1: "skip_space (skip lx ?k) = skip lx ?k" using u1 by (intro skip_space_noop) (simp add: isspace_def)
  have c: "consume_specific (skip lx ?k) (CHR '':'') = (True, skip lx (?k + 1))" using consume_specific_hit[OF u1 i1] by simp
  have u2: "unread (skip lx (?k + 1)) = s @ s' @ CHR ''}'' # t" using u by (simp only: unread_skip) simp
  have i2: "lexer_inv (skip lx (?k + 1))" using u i by (intro skip_inv) simp_all
  have sk2: "skip_space (skip lx (?k + 1)) = skip lx (?k + 1)" using v by (intro skip_space_value[OF u2]) (auto simp: parses_def)
  have ph: "parse_helper n (skip lx (?k + 1)) = Inr (Some v, skip (skip lx (?k + 1)) (length s))"
    using n(2) ms by (intro parsesD[OF v u2 i2]) (auto simp: parses_members_def)
  have u3: "unread (skip lx (?k + 1 + length s)) = s' @ CHR ''}'' # t" using u by (simp only: unread_skip) simp
  have i3: "lexer_inv (skip lx (?k + 1 + length s))" using u i by (intro skip_inv) simp_all
  have set: "object_set members k v = members @ [(k, v)]" and nk': "new_keys (members @ [(k, v)]) ms"
    using new_keys_Cons[OF nk] by auto
  have "object_next n (members @ [(k, v)]) (skip lx (?k + 1 + length s))
    = Inr (Some (JObject ((members @ [(k, v)]) @ ms)), skip (skip lx (?k + 1 + length s)) (length s' + 1))"
    using n(2) by (intro parses_membersD[OF ms u3 i3 nk']) simp
  then show ?thesis using sk1 c sk2 ph unfolding n(1) by (simp add: sk pk cs set object_next_def Let_def add.assoc)
qed


lemma parses_members_Nil: "parses_members [] []"
proof -
  have "object_next fuel members lx = Inr (Some (JObject members), skip lx 1)"
    if u: "unread lx = CHR ''}'' # t" "lexer_inv lx" for fuel members lx t
  proof -
    have "skip_space lx = lx" using u by (intro skip_space_noop) (simp add: isspace_def)
    then show ?thesis using u peek_head[of lx "''}''" t] finish_with_text[OF u] by (simp add: object_next_def)
  qed
  then show ?thesis by (simp add: parses_members_def value_stop_punct)
qed

lemma parses_members_Cons:
  assumes v: "parses v s" and ms: "parses_members ms s'"
  shows "parses_members ((k, v) # ms) (CHR '','' # quoted k @ CHR '':'' # s @ s')"
proof -
  have "object_next fuel members lx = Inr (Some (JObject (members @ (k, v) # ms)), skip lx (length (quoted k @ s @ s') + 3))"
    if u: "unread lx = CHR '','' # quoted k @ CHR '':'' # s @ s' @ CHR ''}'' # t" and i: "lexer_inv lx"
      and nk: "new_keys members ((k, v) # ms)" and f: "2 * length (quoted k @ s @ s') + 5 \<le> fuel" for fuel members lx t
  proof -
    have sk: "skip_space lx = lx" using u by (intro skip_space_noop) (simp add: isspace_def)
    have pk: "peek lx 0 = CHR '',''" using peek_head[of lx "'',''"] u by simp
    have c: "consume_specific lx (CHR '','') = (True, skip lx 1)" by (rule consume_specific_hit[OF u i])
    have u1: "unread (skip lx 1) = quoted k @ CHR '':'' # s @ s' @ CHR ''}'' # t" using u by (simp only: unread_skip) simp
    have i1: "lexer_inv (skip lx 1)" using u i by (intro skip_inv) simp_all
    have "skip_space (skip lx 1) = skip lx 1" "peek (skip lx 1) 0 \<noteq> CHR ''}''"
      using skip_space_value[OF u1 quoted_start] peek_head[OF u1 quoted_start(1)] value_start_not[OF quoted_start(2)] by simp_all
    moreover have "parse_object_loop fuel members (skip lx 1)
        = Inr (Some (JObject (members @ (k, v) # ms)), skip (skip lx 1) (length (quoted k @ s @ s') + 2))"
      using f by (intro object_step[OF v ms u1 i1 nk]) simp
    ultimately show ?thesis by (simp add: object_next_def sk pk c)
  qed
  then show ?thesis by (simp add: parses_members_def value_stop_punct)
qed

lemma parses_object:
  assumes "parses v s" "parses_members ms s'" "distinct (map fst ((k, v) # ms))"
  shows "parses (JObject ((k, v) # ms)) (CHR ''{'' # quoted k @ CHR '':'' # s @ s' @ ''}'')"
proof (rule parsesI)
  let ?s = "CHR ''{'' # quoted k @ CHR '':'' # s @ s' @ ''}''"
  fix lx t n
  assume a: "unread lx = ?s @ t" "lexer_inv lx" "2 * length ?s \<le> n" "skip_space lx = lx" "peek lx 0 = hd ?s"
  have c: "consume_specific lx (CHR ''{'') = (True, skip lx 1)" using a(1,2) by (intro consume_specific_hit) simp_all
  have u1: "unread (skip lx 1) = quoted k @ CHR '':'' # s @ s' @ CHR ''}'' # t" using a(1) by (simp only: unread_skip) simp
  have i1: "lexer_inv (skip lx 1)" using a(1,2) by (intro skip_inv) simp_all
  have "new_keys [] ((k, v) # ms)" using assms(3) by (simp add: new_keys_def)
  then show "parse_helper (Suc n) lx = Inr (Some (JObject ((k, v) # ms)), skip lx (length ?s))"
    using object_step[OF assms(1,2) u1 i1, of "[]" n] a(3-5) c by simp
qed (simp_all add: value_start_def)

lemma parses_empty_object: "parses (JObject []) ''{}''"
proof (rule parsesI)
  fix lx t n
  assume a: "unread lx = ''{}'' @ t" "lexer_inv lx" "2 * length ''{}'' \<le> n" "skip_space lx = lx" "peek lx 0 = hd ''{}''"
  have c: "consume_specific lx (CHR ''{'') = (True, skip lx 1)" using a(1,2) by (intro consume_specific_hit) simp_all
  have u1: "unread (skip lx 1) = CHR ''}'' # t" using a(1) by (simp only: unread_skip) simp
  have i1: "lexer_inv (skip lx 1)" using a(1,2) by (intro skip_inv) simp_all
  have "skip_space (skip lx 1) = skip lx 1" using u1 by (intro skip_space_noop) (simp add: isspace_def)
  moreover have "peek (skip lx 1) 0 = CHR ''}''" using peek_head[of "skip lx 1" "''}''"] u1 by simp
  moreover obtain m where "n = Suc m" using a(3) by (cases n) auto
  ultimately show "parse_helper (Suc n) lx = Inr (Some (JObject []), skip lx (length ''{}''))"
    using a(4,5) c finish_with_text[OF u1 i1] by simp
qed (simp_all add: value_start_def)

fun json_ok :: "json \<Rightarrow> bool"
  and json_elements_ok :: "json list \<Rightarrow> bool"
  and json_members_ok :: "(string \<times> json) list \<Rightarrow> bool" where
  "json_ok (JString s) \<longleftrightarrow> True"
| "json_ok (JArray vs) \<longleftrightarrow> json_elements_ok vs"
| "json_ok (JObject ms) \<longleftrightarrow> distinct (map fst ms) \<and> json_members_ok ms"
| "json_ok (JBool b) \<longleftrightarrow> True"
| "json_ok (JInt32 i) \<longleftrightarrow> - (2 ^ 31) \<le> i \<and> i < 0"
| "json_ok (JInt64 i) \<longleftrightarrow> 2 ^ 32 \<le> i \<and> i < 2 ^ 63"
| "json_ok (JUInt32 n) \<longleftrightarrow> n < 2 ^ 32"
| "json_ok (JUInt64 n) \<longleftrightarrow> False"
| "json_ok JNull \<longleftrightarrow> True"
| "json_elements_ok [] \<longleftrightarrow> True"
| "json_elements_ok (v # vs) \<longleftrightarrow> json_ok v \<and> json_elements_ok vs"
| "json_members_ok [] \<longleftrightarrow> True"
| "json_members_ok ((k, v) # ms) \<longleftrightarrow> json_ok v \<and> json_members_ok ms"

lemma serialize_parses:
  "json_ok v \<Longrightarrow> \<exists>s. serialize v = Inr s \<and> parses v s"
  "json_elements_ok vs \<Longrightarrow> (\<exists>s. serialize_elements False vs = Inr s \<and> parses_rest vs s)
     \<and> (\<exists>s. serialize_elements True vs = Inr s \<and> parses (JArray vs) (''['' @ s @ '']''))"
  "json_members_ok ms \<Longrightarrow> distinct (map fst ms) \<Longrightarrow> (\<exists>s. serialize_members False ms = Inr s \<and> parses_members ms s)
     \<and> (\<exists>s. serialize_members True ms = Inr s \<and> parses (JObject ms) (''{'' @ s @ ''}''))"
proof (induction v and vs and ms rule: json_ok_json_elements_ok_json_members_ok.induct)
  case (5 i)
  have "parses (JInt32 i) (number_text i)"
    using 5 parse_negative_text by (intro parses_number number_text_chars) (auto simp: number_text_def)
  then show ?case using 5 vformat_sint[of i 32] by simp
next
  case (6 i)
  have "parses (JInt64 i) (number_text i)"
    using 6 parse_large_text digit_string_decimal(3) by (intro parses_number number_text_chars) (auto simp: number_text_def)
  then show ?case using 6 vformat_sint[of i 64] by simp
next
  case (7 n)
  have "parses (JUInt32 n) (digit_string 10 False n)"
    using 7 parse_unsigned_text digit_string_decimal(3) by (intro parses_number digit_number_chars) auto
  then show ?case using 7 vformat_uint[of n 32] by simp
next
  case (11 v vs)
  then obtain s s' where "serialize v = Inr s" "parses v s" "serialize_elements False vs = Inr s'" "parses_rest vs s'" by auto
  then show ?case using parses_rest_Cons[of v s vs s'] parses_array[of v s vs s'] by simp
next
  case (13 k v ms)
  then obtain s s' where "serialize v = Inr s" "parses v s" "serialize_members False ms = Inr s'" "parses_members ms s'" by auto
  then show ?case using parses_members_Cons[of v s ms s' k] parses_object[of v s ms s' k] 13(4) by (simp add: begin_member_def)
qed (auto simp: parses_string parses_bool parses_null parses_rest_Nil parses_empty_array parses_members_Nil parses_empty_object)

lemma json_parse_serialized:
  assumes "json_ok v" "serialize v = Inr s" "length s < 2 ^ 32"
  shows "parse_json s = Inr (Some v)"
proof -
  have p: "parses v s" using serialize_parses(1)[OF assms(1)] assms(2) by auto
  let ?l = "make_lexer s"
  have u: "unread ?l = s @ []" by (simp add: make_lexer_def unread_def)
  have h: "parse_helper (2 * length s + 1) ?l = Inr (Some v, skip ?l (length s))"
    using assms(3) by (intro parsesD[OF p u]) (auto simp: make_lexer_inv value_stop_def)
  have "unread (skip ?l (length s)) = []" using u by (simp only: unread_skip) simp
  then have "skip_space (skip ?l (length s)) = skip ?l (length s)" "is_eof (skip ?l (length s))"
    by (auto intro: skip_space_noop simp: is_eof_unread)
  then show ?thesis using h by (simp add: parse_json_def)
qed

subsection \<open>Every text is settled\<close>

definition advances :: "lexer \<Rightarrow> lexer \<Rightarrow> bool" where
  "advances lx lx' \<longleftrightarrow> m_input lx' = m_input lx \<and> m_index lx \<le> m_index lx' \<and> lexer_inv lx'"

definition settles :: "lexer \<Rightarrow> ('a option \<times> lexer) result \<Rightarrow> bool" where
  "settles lx r \<longleftrightarrow> (case r of Inl f \<Rightarrow> f = VerifyFailed
     | Inr (v, lx') \<Rightarrow> v \<noteq> None \<longrightarrow> advances lx lx' \<and> m_index lx < m_index lx')"

lemma advances_trans: "advances a b \<Longrightarrow> advances b c \<Longrightarrow> advances a c"
  by (simp add: advances_def)

lemma advances_refl: "lexer_inv lx \<Longrightarrow> advances lx lx"
  by (simp add: advances_def)

lemma settles_None [simp]: "settles lx (Inr (None, lx'))"
  by (simp add: settles_def)

lemma settles_weaken: "advances lx lx1 \<Longrightarrow> settles lx1 r \<Longrightarrow> settles lx r"
  by (auto simp: settles_def advances_def split: sum.splits)

lemma settles_then:
  assumes "settles lx r" "\<And>lx'. f (None, lx') = Inr (None, lx')"
    and "\<And>v lx'. advances lx lx' \<Longrightarrow> m_index lx < m_index lx' \<Longrightarrow> settles lx (f (Some v, lx'))"
  shows "settles lx (and_then r f)"
proof (cases r)
  case (Inl e)
  then show ?thesis using assms(1) by (simp add: settles_def)
next
  case (Inr p)
  then obtain v lx' where p: "r = Inr (v, lx')" by (cases p) auto
  show ?thesis
  proof (cases v)
    case None
    then show ?thesis using p assms(2) by simp
  next
    case (Some x)
    then have a: "advances lx lx'" "m_index lx < m_index lx'" using assms(1) p by (auto simp: settles_def)
    then show ?thesis using p Some assms(3)[OF a] by simp
  qed
qed

lemma skip_space_advances: "lexer_inv lx \<Longrightarrow> advances lx (skip_space lx)"
  using advance_while_spec[of lx "\<lambda>lx. isspace (peek lx 0)"]
  by (auto simp: skip_space_def ignore_while_def advances_def moved_def lexer_inv_def unread_def)

lemma ignore_advances: "lexer_inv lx \<Longrightarrow> advances lx (ignore lx n)"
  by (auto simp: ignore_def clip_def advances_def lexer_inv_def)

lemma consume_specific_cases:
  assumes "lexer_inv lx" "c \<noteq> CHR 0x00"
  obtains lx' where "consume_specific lx c = (True, lx')" "advances lx lx'" "m_index lx < m_index lx'" "peek lx 0 = c"
  | "consume_specific lx c = (False, lx)" "peek lx 0 \<noteq> c"
proof (cases "peek lx 0 = c")
  case True
  then have c: "consume_specific lx c = (True, ignore lx 1)" by (simp add: consume_specific_def next_is_def)
  show ?thesis using consume_specific_progress[OF c assms(2)] by (intro that(1)[OF c ignore_advances[OF assms(1)]] True) simp
next
  case False
  then show ?thesis using that(2) by (simp add: consume_specific_def next_is_def)
qed

lemma finish_with_settles: "lexer_inv lx \<Longrightarrow> c \<noteq> CHR 0x00 \<Longrightarrow> settles lx (Inr (finish_with c v lx))"
  by (erule (1) consume_specific_cases) (simp_all add: finish_with_def settles_def)

lemma finish_settles: "advances lx l1 \<Longrightarrow> c \<noteq> CHR 0x00 \<Longrightarrow> settles lx (Inr (finish_with c v l1))"
  using settles_weaken finish_with_settles unfolding advances_def by blast

lemma consume_advances: "lexer_inv lx \<Longrightarrow> consume lx = Inr (c, lx') \<Longrightarrow> advances lx lx'"
  using consume_forward[of lx c lx'] by (simp add: advances_def lexer_inv_def)

lemma trim_whitespace_total: "length s < 2 ^ 32 \<Longrightarrow> \<exists>t. trim_whitespace s TrimBoth = Inr t"
  by (simp add: trim_whitespace_both)

lemma json_escape_settles:
  assumes "lexer_inv lx"
  shows "\<exists>s lx'. json_escape c lx = Inr (s, lx') \<and> advances lx lx'"
proof (cases "c = CHR ''u''")
  case True
  let ?n = "clip lx 4"
  have n: "m_index lx + ?n \<le> length (m_input lx)" "?n \<le> 4" using assms by (auto simp: clip_def lexer_inv_def)
  define w where "w = take ?n (drop (m_index lx) (m_input lx))"
  have "substring_view (m_input lx) (m_index lx) ?n = Inr w"
    using n(1) assms by (simp add: substring_view_def w_def lexer_inv_def usize_def)
  then have "consume_count lx 4 = Inr (Some w, skip lx ?n)" by (simp add: consume_count_def Let_def)
  moreover have "length w < 2 ^ 32" using n(2) by (simp add: w_def)
  then have "trim_whitespace w TrimBoth = Inr (strip_right (strip_left w))" by (rule trim_whitespace_both)
  moreover have "advances lx (skip lx ?n)" using n(1) assms by (simp add: advances_def lexer_inv_def)
  ultimately show ?thesis using True by (simp add: json_escape_def convert_to_uint_from_hex_def)
qed (simp add: json_escape_def advances_refl assms)

lemma scan_plain_le: "i \<le> length s \<Longrightarrow> scan_plain s i \<le> length s"
  by (induction s i rule: scan_plain.induct) (subst scan_plain.simps, auto)

lemma scan_plain_stop:
  "length s \<le> scan_plain s i \<or> s ! scan_plain s i = CHR 0x22 \<or> s ! scan_plain s i = CHR 0x5C"
  by (induction s i rule: scan_plain.induct) (subst (1 2 3) scan_plain.simps, auto)

abbreviation "left" where "left lx \<equiv> length (m_input lx) - m_index lx"

lemma string_loop_settles:
  "lexer_inv lx \<Longrightarrow> case json_string_loop lx sb of Inl f \<Rightarrow> f = VerifyFailed | Inr (s, lx') \<Rightarrow> advances lx lx'"
proof (induction "left lx" arbitrary: lx sb rule: less_induct)
  case less
  let ?p = "scan_plain (m_input lx) (m_index lx)"
  let ?lx1 = "lx\<lparr>m_index := ?p\<rparr>"
  have p: "m_index lx \<le> ?p" "?p \<le> length (m_input lx)" using scan_plain_ge scan_plain_le less.prems by (auto simp: lexer_inv_def)
  then have a1: "advances lx ?lx1" using less.prems by (simp add: advances_def lexer_inv_def)
  consider "length (m_input lx) \<le> ?p \<or> m_input lx ! ?p = CHR 0x22" | "?p < length (m_input lx)" "m_input lx ! ?p = CHR 0x5C"
    using scan_plain_stop[of "m_input lx" "m_index lx"] by fastforce
  then show ?case
  proof cases
    case 1
    then show ?thesis using a1 by (subst json_string_loop.simps) (auto simp: Let_def)
  next
    case 2
    note cond = this
    have ig: "advances ?lx1 (ignore ?lx1 1)" by (rule ignore_advances) (use a1 in \<open>simp add: advances_def\<close>)
    show ?thesis
    proof (cases "consume (ignore ?lx1 1)")
      case (Inl e)
      then have "e = VerifyFailed" by (auto simp: consume_def verify_def split: if_splits)
      then show ?thesis using Inl cond by (subst json_string_loop.simps) (simp add: Let_def)
    next
      case (Inr q)
      then obtain ch lx2 where c: "consume (ignore ?lx1 1) = Inr (ch, lx2)" by (cases q) auto
      have "lexer_inv (ignore ?lx1 1)" using ig by (simp add: advances_def)
      then have a2: "advances (ignore ?lx1 1) lx2" by (rule consume_advances[OF _ c])
      then obtain s lx3 where e: "json_escape ch lx2 = Inr (s, lx3)" "advances lx2 lx3"
        using json_escape_settles[of lx2 ch] by (auto simp: advances_def)
      have a3: "advances lx lx3" using a1 ig a2 e(2) advances_trans by blast
      define sb' where "sb' = (sb @ take (?p - m_index lx) (drop (m_index lx) (m_input lx))) @ s"
      have "case json_string_loop lx3 sb' of Inl f \<Rightarrow> f = VerifyFailed | Inr (s, lx') \<Rightarrow> advances lx3 lx'"
        by (rule less.hyps) (use consume_forward[OF c] a1 ig e(2) in \<open>auto simp: advances_def\<close>)
      then have "case json_string_loop lx3 sb' of Inl f \<Rightarrow> f = VerifyFailed | Inr (s, lx') \<Rightarrow> advances lx lx'"
        using advances_trans[OF a3] by (auto split: sum.splits)
      then show ?thesis using cond c e(1) by (subst json_string_loop.simps) (simp add: Let_def sb'_def)
    qed
  qed
qed

lemma json_consume_string_settles:
  assumes "lexer_inv lx"
  shows "settles lx (json_consume_string lx)"
proof (rule consume_specific_cases[OF assms, of "CHR 0x22"])
  fix lx1
  assume 1: "consume_specific lx (CHR 0x22) = (True, lx1)" "advances lx lx1" "m_index lx < m_index lx1"
  then have i: "lexer_inv lx1" by (simp add: advances_def)
  show ?thesis
  proof (cases "json_string_loop lx1 []")
    case (Inl e)
    then show ?thesis using string_loop_settles[OF i, of "[]"] 1 by (simp add: json_consume_string_def settles_def)
  next
    case (Inr p)
    then obtain s lx2 where l: "json_string_loop lx1 [] = Inr (s, lx2)" "advances lx1 lx2" using string_loop_settles[OF i, of "[]"] by (cases p) auto
    then have i2: "lexer_inv lx2" by (simp add: advances_def)
    show ?thesis
      by (rule consume_specific_cases[OF i2, of "CHR 0x22"]) (use l 1 in \<open>auto simp: json_consume_string_def settles_def advances_def\<close>)
  qed
qed (simp_all add: json_consume_string_def)

lemma parse_string_settles: "lexer_inv lx \<Longrightarrow> settles lx (parse_string lx)"
  unfolding parse_string_def by (rule settles_then[OF json_consume_string_settles]) (auto simp: settles_def advances_def)

lemma parse_word_settles:
  assumes "lexer_inv lx" "w \<noteq> []" "CHR 0x00 \<notin> set w"
  shows "settles lx (Inr (parse_word w v lx))"
proof (cases "next_is_view lx w")
  case True
  then have "peek lx 0 = w ! 0" "w ! 0 \<in> set w" using assms(2) by (simp_all add: next_is_view_def list_all_iff)
  then have "peek lx 0 \<noteq> CHR 0x00" using assms(3) by auto
  then have "m_index lx < length (m_input lx)" by (auto simp: peek_def split: if_splits)
  then have "0 < clip lx (length w)" using assms(2) by (simp add: clip_def)
  then show ?thesis using True ignore_advances[OF assms(1)]
    by (simp add: parse_word_def consume_specific_view_def settles_def) (simp add: ignore_def)
qed (simp add: parse_word_def consume_specific_view_def)

lemma number_loop_advances:
  "lexer_inv lx \<Longrightarrow> number_loop lx d buf fr = (num, lx') \<Longrightarrow> advances lx lx' \<and> length num \<le> length buf + left lx"
proof (induction lx d buf fr rule: number_loop.induct)
  case (1 lx d buf fr)
  let ?c = "peek lx 0" and ?l = "lx\<lparr>m_index := m_index lx + 1\<rparr>"
  have p: "advances lx ?l" "left lx = Suc (left ?l)" if "?c \<noteq> CHR 0x00"
    using that "1.prems"(1) by (auto simp: peek_def advances_def lexer_inv_def split: if_splits)
  consider "?c = CHR ''.''" | "?c \<noteq> CHR ''.''" "number_char ?c" d | "?c \<noteq> CHR ''.''" "number_char ?c" "\<not> d"
    | "?c \<noteq> CHR ''.''" "\<not> number_char ?c" by blast
  then show ?case
  proof cases
    case 1
    then have "number_loop ?l True buf fr = (num, lx')" using "1.prems"(2) by (subst (asm) number_loop.simps) (simp add: Let_def)
    then have "advances ?l lx' \<and> length num \<le> length buf + left ?l" using "1.IH"(1) 1 p(1) by (simp add: advances_def)
    then show ?thesis using p 1 advances_trans[of lx ?l lx'] by simp
  next
    case 2
    then have nz: "?c \<noteq> CHR 0x00" by (auto simp: number_char_def in_range_def)
    have "number_loop ?l d buf (fr @ [?c]) = (num, lx')" using "1.prems"(2) 2
      by (subst (asm) number_loop.simps) (simp add: Let_def number_char_def)
    then have "advances ?l lx' \<and> length num \<le> length buf + left ?l"
      using "1.IH"(2) 2 p(1)[OF nz] by (simp add: advances_def number_char_def)
    then show ?thesis using p[OF nz] advances_trans[of lx ?l lx'] by simp
  next
    case 3
    then have nz: "?c \<noteq> CHR 0x00" by (auto simp: number_char_def in_range_def)
    have "number_loop ?l d (buf @ [?c]) fr = (num, lx')" using "1.prems"(2) 3
      by (subst (asm) number_loop.simps) (simp add: Let_def number_char_def)
    then have "advances ?l lx' \<and> length num \<le> length (buf @ [?c]) + left ?l"
      using "1.IH"(3) 3 p(1)[OF nz] by (simp add: advances_def number_char_def)
    then show ?thesis using p[OF nz] advances_trans[of lx ?l lx'] by simp
  next
    case 4
    then show ?thesis using "1.prems" by (subst (asm) number_loop.simps) (auto simp: Let_def number_char_def advances_def)
  qed
qed

lemma number_loop_progress:
  assumes l: "number_loop lx False buf fr = (num, lx')" and c: "number_char (peek lx 0)" and i: "lexer_inv lx"
  shows "m_index lx < m_index lx'"
proof -
  let ?l = "lx\<lparr>m_index := m_index lx + 1\<rparr>"
  have "peek lx 0 \<noteq> CHR 0x00" using c by (auto simp: number_char_def in_range_def)
  then have "lexer_inv ?l" using i by (auto simp: peek_def lexer_inv_def split: if_splits)
  moreover have "peek lx 0 \<noteq> CHR ''.''" using c by (auto simp: number_char_def in_range_def)
  then have "number_loop ?l False (buf @ [peek lx 0]) fr = (num, lx')"
    using l c by (subst (asm) number_loop.simps) (simp add: Let_def number_char_def)
  ultimately have "advances ?l lx'" using number_loop_advances by blast
  then show ?thesis by (simp add: advances_def)
qed

lemma parse_number_settles:
  assumes "lexer_inv lx" "number_char (peek lx 0)"
  shows "settles lx (parse_number lx)"
proof -
  obtain num lx' where l: "number_loop lx False [] [] = (num, lx')" by (cases "number_loop lx False [] []") auto
  have a: "advances lx lx'" "length num \<le> left lx" "m_index lx < m_index lx'"
    using number_loop_advances[OF assms(1) l] number_loop_progress[OF l assms(2,1)] by simp_all
  then have n: "length num < 2 ^ 32" using assms(1) by (auto simp: lexer_inv_def)
  show ?thesis using l a(1,3) convert_to_uint_spec[OF n, of 32] convert_to_int_spec[OF n, of 64]
    by (auto simp: parse_number_def settles_def Let_def split: option.splits)
qed

lemma array_next_settles:
  assumes i: "lexer_inv lx"
    and more: "\<And>lx'. advances lx lx' \<Longrightarrow> m_index lx < m_index lx' \<Longrightarrow> settles lx' (parse_array_loop n vs lx')"
  shows "settles lx (array_next n vs lx)"
proof -
  let ?s = "skip_space lx"
  have s: "advances lx ?s" "lexer_inv ?s" using skip_space_advances[OF i] by (auto simp: advances_def)
  show ?thesis
  proof (cases "peek ?s 0 = CHR '']''")
    case True
    have "advances lx (skip_space ?s)" "lexer_inv (skip_space ?s)"
      using skip_space_advances[OF s(2)] s(1) by (simp_all add: advances_def)
    then have "settles lx (Inr (finish_with (CHR '']'') (JArray vs) (skip_space ?s)))" by (intro finish_settles) simp_all
    then show ?thesis using True by (simp add: array_next_def)
  next
    case False
    show ?thesis
    proof (rule consume_specific_cases[OF s(2), of "CHR '',''"])
      fix l1
      assume c: "consume_specific ?s (CHR '','') = (True, l1)" "advances ?s l1" "m_index ?s < m_index l1"
      have k: "advances l1 (skip_space l1)" by (rule skip_space_advances) (use c(2) in \<open>simp add: advances_def\<close>)
      have a: "advances lx (skip_space l1)" "m_index lx < m_index (skip_space l1)"
        using s(1) c k by (simp_all add: advances_def)
      then show ?thesis using False c(1) settles_weaken[OF a(1) more[OF a]] by (simp add: array_next_def Let_def)
    qed (use False in \<open>simp_all add: array_next_def\<close>)
  qed
qed

lemma object_next_settles:
  assumes i: "lexer_inv lx"
    and more: "\<And>lx'. advances lx lx' \<Longrightarrow> m_index lx < m_index lx' \<Longrightarrow> settles lx' (parse_object_loop n ms lx')"
  shows "settles lx (object_next n ms lx)"
proof -
  let ?s = "skip_space lx"
  have s: "advances lx ?s" "lexer_inv ?s" using skip_space_advances[OF i] by (auto simp: advances_def)
  show ?thesis
  proof (cases "peek ?s 0 = CHR ''}''")
    case True
    have "settles lx (Inr (finish_with (CHR ''}'') (JObject ms) ?s))" using s by (intro finish_settles) simp_all
    then show ?thesis using True by (simp add: object_next_def)
  next
    case False
    show ?thesis
    proof (rule consume_specific_cases[OF s(2), of "CHR '',''"])
      fix l1
      assume c: "consume_specific ?s (CHR '','') = (True, l1)" "advances ?s l1" "m_index ?s < m_index l1"
      have k: "advances l1 (skip_space l1)" by (rule skip_space_advances) (use c(2) in \<open>simp add: advances_def\<close>)
      have a: "advances lx (skip_space l1)" "m_index lx < m_index (skip_space l1)"
        using s(1) c k by (simp_all add: advances_def)
      then show ?thesis using False c(1) settles_weaken[OF a(1) more[OF a]] by (simp add: object_next_def Let_def)
    qed (use False in \<open>simp_all add: object_next_def\<close>)
  qed
qed

lemma array_loop_next:
  "parse_array_loop (Suc n) vs lx =
     (let lx = skip_space lx in
      if peek lx 0 = CHR '']'' then Inr (finish_with (CHR '']'') (JArray vs) (skip_space lx))
      else and_then (parse_helper n lx) (\<lambda>(v, lx). case v of None \<Rightarrow> Inr (None, lx) | Some v \<Rightarrow> array_next n (vs @ [v]) lx))"
  unfolding parse_array_loop.simps array_next_def Let_def ..

lemma object_loop_next:
  "parse_object_loop (Suc n) ms lx =
     (let lx = skip_space lx in
      if peek lx 0 = CHR ''}'' then Inr (finish_with (CHR ''}'') (JObject ms) lx)
      else and_then (json_consume_string (skip_space lx)) (\<lambda>(name, lx). case name of None \<Rightarrow> Inr (None, lx) | Some key \<Rightarrow>
        (case consume_specific (skip_space lx) (CHR '':'') of (False, lx) \<Rightarrow> Inr (None, lx) | (True, lx) \<Rightarrow>
          and_then (parse_helper n (skip_space lx)) (\<lambda>(v, lx). case v of None \<Rightarrow> Inr (None, lx) | Some v \<Rightarrow>
            object_next n (object_set ms key v) lx))))"
  unfolding parse_object_loop.simps object_next_def Let_def ..

lemma advances_left: "advances lx lx' \<Longrightarrow> left lx' \<le> left lx"
  by (auto simp: advances_def)

lemma advances_left_less: "advances lx lx' \<Longrightarrow> m_index lx < m_index lx' \<Longrightarrow> left lx' < left lx"
  by (auto simp: advances_def lexer_inv_def)

lemma array_loop_settles:
  assumes i: "lexer_inv lx" and f: "2 * left lx + 1 \<le> n"
    and h: "\<And>lx. lexer_inv lx \<Longrightarrow> 2 * left lx + 1 \<le> n \<Longrightarrow> settles lx (parse_helper n lx)"
    and l: "\<And>lx vs. lexer_inv lx \<Longrightarrow> 2 * left lx + 2 \<le> n \<Longrightarrow> settles lx (parse_array_loop n vs lx)"
  shows "settles lx (parse_array_loop (Suc n) vs lx)"
proof -
  let ?s = "skip_space lx"
  have s: "advances lx ?s" "lexer_inv ?s" using skip_space_advances[OF i] by (auto simp: advances_def)
  have "settles ?s (and_then (parse_helper n ?s) (\<lambda>(v, lx). case v of None \<Rightarrow> Inr (None, lx) | Some v \<Rightarrow> array_next n (vs @ [v]) lx))"
  proof (rule settles_then)
    show "settles ?s (parse_helper n ?s)" using advances_left[OF s(1)] f by (intro h[OF s(2)]) simp
    fix v l1
    assume l1: "advances ?s l1" "m_index ?s < m_index l1"
    have "settles l1 (array_next n (vs @ [v]) l1)"
    proof (rule array_next_settles)
      fix l2
      assume l2: "advances l1 l2" "m_index l1 < m_index l2"
      have "left l2 < left lx" using advances_left[OF s(1)] advances_left_less[OF l1] advances_left[OF l2(1)] by simp
      then show "settles l2 (parse_array_loop n (vs @ [v]) l2)" using l2(1) f by (intro l) (simp_all add: advances_def)
    qed (use l1 in \<open>simp add: advances_def\<close>)
    then show "settles ?s (case (Some v, l1) of (v, lx) \<Rightarrow> case v of None \<Rightarrow> Inr (None, lx) | Some v \<Rightarrow> array_next n (vs @ [v]) lx)"
      using settles_weaken[OF l1(1)] by simp
  qed simp
  from settles_weaken[OF s(1) this] have "settles lx (and_then (parse_helper n ?s) (\<lambda>(v, lx). case v of None \<Rightarrow> Inr (None, lx) | Some v \<Rightarrow> array_next n (vs @ [v]) lx))" .
  moreover have "settles lx (Inr (finish_with (CHR '']'') (JArray vs) (skip_space ?s)))"
    using skip_space_advances[OF s(2)] s(1) by (intro finish_settles) (simp_all add: advances_def)
  ultimately show ?thesis unfolding array_loop_next by (simp add: Let_def)
qed

lemma object_loop_settles:
  assumes i: "lexer_inv lx" and f: "2 * left lx + 1 \<le> n"
    and h: "\<And>lx. lexer_inv lx \<Longrightarrow> 2 * left lx + 1 \<le> n \<Longrightarrow> settles lx (parse_helper n lx)"
    and l: "\<And>lx ms. lexer_inv lx \<Longrightarrow> 2 * left lx + 2 \<le> n \<Longrightarrow> settles lx (parse_object_loop n ms lx)"
  shows "settles lx (parse_object_loop (Suc n) ms lx)"
proof -
  let ?s = "skip_space (skip_space lx)"
  let ?read_value = "\<lambda>key (v, lx). case v of None \<Rightarrow> Inr (None, lx) | Some v \<Rightarrow> object_next n (object_set ms key v) lx"
  let ?colon = "\<lambda>key lx. case consume_specific (skip_space lx) (CHR '':'') of (False, lx) \<Rightarrow> Inr (None, lx)
    | (True, lx) \<Rightarrow> and_then (parse_helper n (skip_space lx)) (?read_value key)"
  have s: "advances lx (skip_space lx)" "advances lx ?s" "lexer_inv (skip_space lx)" "lexer_inv ?s"
    using skip_space_advances[OF i] by (auto simp: advances_def dest: skip_space_advances)
  have val: "settles l1 (and_then (parse_helper n l1) (?read_value key))" if l1: "advances lx l1" for l1 key
  proof (rule settles_then)
    show "settles l1 (parse_helper n l1)" using advances_left[OF l1] f l1 by (intro h) (simp_all add: advances_def)
    fix v l2
    assume l2: "advances l1 l2" "m_index l1 < m_index l2"
    have "settles l2 (object_next n (object_set ms key v) l2)"
    proof (rule object_next_settles)
      fix l3
      assume l3: "advances l2 l3" "m_index l2 < m_index l3"
      have "left l3 < left lx" using advances_left[OF l1] advances_left_less[OF l2] advances_left[OF l3(1)] by simp
      then show "settles l3 (parse_object_loop n (object_set ms key v) l3)" using l3(1) f by (intro l) (simp_all add: advances_def)
    qed (use l2 in \<open>simp add: advances_def\<close>)
    then show "settles l1 (?read_value key (Some v, l2))" using settles_weaken[OF l2(1)] by simp
  qed simp
  have colon: "settles l1 (?colon key l1)" if l1: "advances lx l1" for l1 key
  proof -
    have s1: "advances l1 (skip_space l1)" "lexer_inv (skip_space l1)"
      using skip_space_advances[of l1] l1 by (simp_all add: advances_def)
    show ?thesis
    proof (rule consume_specific_cases[OF s1(2), of "CHR '':''"])
      fix l2
      assume c: "consume_specific (skip_space l1) (CHR '':'') = (True, l2)" "advances (skip_space l1) l2"
      have k: "advances l2 (skip_space l2)" by (rule skip_space_advances) (use c(2) in \<open>simp add: advances_def\<close>)
      have a: "advances l1 (skip_space l2)" "advances lx (skip_space l2)"
        using s1 l1 c k by (simp_all add: advances_def)
      show ?thesis using settles_weaken[OF a(1) val[OF a(2)]] c(1) by simp
    qed simp_all
  qed
  have str: "settles ?s (and_then (json_consume_string ?s) (\<lambda>(name, lx). case name of None \<Rightarrow> Inr (None, lx) | Some key \<Rightarrow> ?colon key lx))"
  proof (rule settles_then[OF json_consume_string_settles[OF s(4)]])
    fix key l1
    assume l1: "advances ?s l1" "m_index ?s < m_index l1"
    show "settles ?s (case (Some key, l1) of (name, lx) \<Rightarrow> case name of None \<Rightarrow> Inr (None, lx) | Some key \<Rightarrow> ?colon key lx)"
      using settles_weaken[OF l1(1) colon[OF advances_trans[OF s(2) l1(1)]]] by simp
  qed simp
  have "settles lx (Inr (finish_with (CHR ''}'') (JObject ms) (skip_space lx)))"
    using s(1,3) by (intro finish_settles) simp_all
  then show ?thesis unfolding object_loop_next using settles_weaken[OF s(2) str] by (simp add: Let_def)
qed

lemma helper_settles:
  assumes i: "lexer_inv lx" and f: "2 * left lx \<le> n"
    and l: "\<And>lx ms vs. lexer_inv lx \<Longrightarrow> 2 * left lx + 2 \<le> n \<Longrightarrow> settles lx (parse_object_loop n ms lx) \<and> settles lx (parse_array_loop n vs lx)"
  shows "settles lx (parse_helper (Suc n) lx)"
proof -
  let ?s = "skip_space lx" and ?h = "peek (skip_space lx) 0"
  have s: "advances lx ?s" "lexer_inv ?s" using skip_space_advances[OF i] by (auto simp: advances_def)
  have loops: "settles ?s (parse_object_loop n [] l1) \<and> settles ?s (parse_array_loop n [] l1)"
    if l1: "advances ?s l1" "m_index ?s < m_index l1" for l1
  proof -
    have "2 * left l1 + 2 \<le> n" using advances_left[OF s(1)] advances_left_less[OF l1] f by simp
    then have "settles l1 (parse_object_loop n [] l1)" "settles l1 (parse_array_loop n [] l1)" using l[of l1] l1 by (simp_all add: advances_def)
    then show ?thesis using settles_weaken[OF l1(1)] by blast
  qed
  have "settles ?s (parse_helper (Suc n) lx)"
  proof -
    consider "?h = CHR ''{''" | "?h = CHR ''[''" | "?h = CHR 0x22" | "number_char ?h"
      | "?h \<noteq> CHR ''{''" "?h \<noteq> CHR ''[''" "?h \<noteq> CHR 0x22" "\<not> number_char ?h" by blast
    then show ?thesis
    proof cases
      case 1
      show ?thesis by (rule consume_specific_cases[OF s(2), of "CHR ''{''"]) (use 1 loops in \<open>auto simp: Let_def\<close>)
    next
      case 2
      show ?thesis by (rule consume_specific_cases[OF s(2), of "CHR ''[''"]) (use 2 loops in \<open>auto simp: Let_def\<close>)
    next
      case 3
      then show ?thesis using parse_string_settles[OF s(2)] by (simp add: Let_def)
    next
      case 4
      then have "?h \<noteq> CHR ''{''" "?h \<noteq> CHR ''[''" "?h \<noteq> CHR 0x22" by (auto simp: number_char_def in_range_def)
      then show ?thesis using 4 parse_number_settles[OF s(2) 4] by (simp add: Let_def number_char_def)
    next
      case 5
      then show ?thesis using parse_word_settles[OF s(2)] by (simp add: Let_def number_char_def)
    qed
  qed
  then show ?thesis by (rule settles_weaken[OF s(1)])
qed

lemma parse_settles:
  "lexer_inv lx \<Longrightarrow> (2 * left lx + 1 \<le> n \<longrightarrow> settles lx (parse_helper n lx))
     \<and> (2 * left lx + 2 \<le> n \<longrightarrow> settles lx (parse_object_loop n ms lx) \<and> settles lx (parse_array_loop n vs lx))"
proof (induction n arbitrary: lx ms vs)
  case (Suc n)
  have h: "settles lx (parse_helper (Suc n) lx)" if "2 * left lx \<le> n"
    using Suc.IH that by (intro helper_settles[OF Suc.prems]) simp_all
  have m: "settles lx (parse_object_loop (Suc n) ms lx)" if "2 * left lx + 1 \<le> n"
    using Suc.IH that by (intro object_loop_settles[OF Suc.prems]) simp_all
  have a: "settles lx (parse_array_loop (Suc n) vs lx)" if "2 * left lx + 1 \<le> n"
    using Suc.IH that by (intro array_loop_settles[OF Suc.prems]) simp_all
  show ?case using h m a by simp
qed simp

text \<open>
  C26: whatever text the JSON parser is given, it comes to an end: it returns a value or nothing, and the only fault it
  can run into is a failed assertion.
\<close>

theorem json_parse_ends:
  assumes "length input < 2 ^ 32"
  shows "parse_json input = Inl VerifyFailed \<or> (\<exists>r. parse_json input = Inr r)"
proof -
  have "lexer_inv (make_lexer input)" using assms by (simp add: make_lexer_inv)
  then have "settles (make_lexer input) (parse_helper (2 * length input + 1) (make_lexer input))"
    using parse_settles[of "make_lexer input" "2 * length input + 1"] by (simp add: make_lexer_def)
  then show ?thesis by (auto simp: parse_json_def settles_def split: sum.splits option.splits)
qed

theorem json_parse_ends_witness:
  "length ''[1, {'' < 2 ^ 32 \<and> (parse_json ''[1, {'' = Inl VerifyFailed \<or> (\<exists>r. parse_json ''[1, {'' = Inr r))"
  using json_parse_ends[of "''[1, {''"] by simp

lemma string_loop_plain_text:
  "\<forall>c \<in> set s. c \<noteq> CHR 0x22 \<and> c \<noteq> CHR 0x5C \<Longrightarrow> unread lx = s @ t \<Longrightarrow> json_string_loop lx sb = json_string_loop (skip lx (length s)) (sb @ s)"
proof (induction s arbitrary: lx sb)
  case (Cons c s)
  have u: "unread (skip lx 1) = s @ t" using Cons.prems(2) by (simp only: unread_skip) simp
  show ?case using string_loop_plain[of lx c "s @ t" sb] Cons.prems Cons.IH[OF _ u, of "sb @ [c]"] by simp
qed simp

text \<open>
  A text that ends within a string, right after a backslash, stops the parser with a failed assertion: it
  consumes the character behind the backslash without looking whether there is one.
\<close>

theorem json_trailing_backslash:
  assumes "\<forall>c \<in> set s. c \<noteq> CHR 0x22 \<and> c \<noteq> CHR 0x5C" "length s < 2 ^ 31"
  shows "parse_json (CHR 0x22 # s @ [CHR 0x5C]) = Inl VerifyFailed"
proof -
  let ?l = "make_lexer (CHR 0x22 # s @ [CHR 0x5C])"
  have i: "lexer_inv ?l" using assms(2) by (simp add: make_lexer_inv)
  have u: "unread ?l = CHR 0x22 # s @ [CHR 0x5C]" by (simp add: make_lexer_def unread_def)
  have u1: "unread (skip ?l 1) = s @ [CHR 0x5C]" using u by (simp only: unread_skip) simp
  let ?k = "skip ?l (Suc (length s))"
  have u2: "unread ?k = [CHR 0x5C]" using u by (simp only: unread_skip) simp
  have sc: "scan_plain (m_input ?k) (m_index ?k) = m_index ?k" using unread_index[OF u2] by (subst scan_plain.simps) simp
  have "unread (ignore ?k 1) = []" using u2 unread_index[OF u2] by (auto simp: ignore_def clip_def unread_def make_lexer_def)
  then have "json_string_loop ?k s = Inl VerifyFailed"
    using unread_index[OF u2] sc consume_eof by (subst json_string_loop.simps) (simp add: Let_def)
  then have "json_string_loop (skip ?l 1) [] = Inl VerifyFailed" using string_loop_plain_text[OF assms(1) u1, of "[]"] by simp
  then have "json_consume_string ?l = Inl VerifyFailed"
    using consume_specific_hit[OF u i] by (simp add: json_consume_string_def)
  moreover have "skip_space ?l = ?l" using u by (intro skip_space_noop) (simp add: isspace_def)
  moreover have "peek ?l 0 = CHR 0x22" using u by (simp add: peek_unread)
  ultimately show ?thesis by (simp add: parse_json_def parse_string_def)
qed

theorem json_trailing_backslash_witness: "parse_json (CHR 0x22 # ''ab'' @ [CHR 0x5C]) = Inl VerifyFailed"
  by (rule json_trailing_backslash) simp_all



text \<open>
  A number below the least 32-bit integer is cut down to 32 bits by the parser: its test for what an \<open>i32\<close> can hold
  looks at the upper bound only.
\<close>

theorem json_negative_truncated:
  assumes "- (2 ^ 63) < v" "v < - (2 ^ 31)"
  shows "parse_json (number_text v) = Inr (Some (JInt32 (to_i32 v))) \<and> to_i32 v \<noteq> v"
proof
  let ?s = "number_text v" let ?l = "make_lexer ?s"
  have "nat \<bar>v\<bar> < 2 ^ 64" using assms by simp
  then have len: "length ?s < 2 ^ 32" using length_digit_string[of "nat \<bar>v\<bar>"] assms by (simp add: number_text_def)
  have ne: "?s \<noteq> []" using assms by (simp add: number_text_def)
  have u: "unread ?l = ?s @ []" by (simp add: make_lexer_def unread_def)
  have "parse_number lx = Inr (Some (JInt32 (to_i32 v)), skip lx (length ?s))" if "unread lx = ?s @ t" "value_stop t" for lx t
    using number_loop_text[OF number_text_chars that(2,1), of "[]" "[]"] convert_negative_uint[of v] convert_number_text[of v] assms
    by (simp add: parse_number_def)
  then have "parses (JInt32 (to_i32 v)) ?s" using ne by (intro parses_number number_text_chars) auto
  then have h: "parse_helper (2 * length ?s + 1) ?l = Inr (Some (JInt32 (to_i32 v)), skip ?l (length ?s))"
    using len by (intro parsesD[OF _ u]) (auto simp: make_lexer_inv value_stop_def)
  have "unread (skip ?l (length ?s)) = []" using u by (simp only: unread_skip) simp
  then have "skip_space (skip ?l (length ?s)) = skip ?l (length ?s)" "is_eof (skip ?l (length ?s))"
    by (auto intro: skip_space_noop simp: is_eof_unread)
  then show "parse_json ?s = Inr (Some (JInt32 (to_i32 v)))" using h by (simp add: parse_json_def)
  have "- (2 ^ 31) \<le> to_i32 v" by (simp add: to_i32_def)
  then show "to_i32 v \<noteq> v" using assms(2) by simp
qed

theorem json_negative_truncated_witness:
  "parse_json (number_text (- 2147483649)) = Inr (Some (JInt32 (to_i32 (- 2147483649)))) \<and> to_i32 (- 2147483649) \<noteq> - 2147483649"
  by (rule json_negative_truncated) simp_all

subsection \<open>The object's two containers\<close>

text \<open>
  \<open>JsonObject\<close> keeps the order of its keys in a vector and the values in a hash map. An index that is not found is
  \<open>value()\<close> of an empty \<open>Optional\<close>, an assertion.
\<close>

record json_object =
  m_order :: "string list"
  m_members :: "string \<rightharpoonup> json"

definition order_remove :: "string list \<Rightarrow> string \<Rightarrow> string list result" where
  "order_remove order key =
     (if key \<in> set order then Inr (takeWhile (\<lambda>k. k \<noteq> key) order @ tl (dropWhile (\<lambda>k. k \<noteq> key) order)) else Inl VerifyFailed)"

definition jo_empty :: json_object where
  "jo_empty = \<lparr>m_order = [], m_members = Map.empty\<rparr>"

definition jo_get :: "json_object \<Rightarrow> string \<Rightarrow> json" where
  "jo_get obj key = (case m_members obj key of Some v \<Rightarrow> v | None \<Rightarrow> JNull)"

definition jo_has :: "json_object \<Rightarrow> string \<Rightarrow> bool" where
  "jo_has obj key \<longleftrightarrow> m_members obj key \<noteq> None"

definition jo_set :: "json_object \<Rightarrow> string \<Rightarrow> json \<Rightarrow> json_object result" where
  "jo_set obj key v =
     (let members = (m_members obj)(key \<mapsto> v) in
      if m_members obj key \<noteq> None
      then and_then (order_remove (m_order obj) key) (\<lambda>order. Inr \<lparr>m_order = order @ [key], m_members = members\<rparr>)
      else Inr \<lparr>m_order = m_order obj @ [key], m_members = members\<rparr>)"

definition jo_remove :: "json_object \<Rightarrow> string \<Rightarrow> (bool \<times> json_object) result" where
  "jo_remove obj key =
     (if m_members obj key \<noteq> None
      then and_then (order_remove (m_order obj) key) (\<lambda>order. Inr (True, \<lparr>m_order = order, m_members = (m_members obj)(key := None)\<rparr>))
      else Inr (False, obj))"

definition for_each_member :: "json_object \<Rightarrow> (string \<times> json) list" where
  "for_each_member obj = map (\<lambda>key. (key, the (m_members obj key))) (m_order obj)"

definition jo_inv :: "json_object \<Rightarrow> bool" where
  "jo_inv obj \<longleftrightarrow> distinct (m_order obj) \<and> set (m_order obj) = dom (m_members obj)"

lemma order_remove_spec:
  "distinct order \<Longrightarrow> key \<in> set order \<Longrightarrow> order_remove order key = Inr (filter (\<lambda>k. k \<noteq> key) order)"
  unfolding order_remove_def
proof (induction order)
  case (Cons k order)
  have "filter (\<lambda>k. k \<noteq> key) order = order" if "key \<notin> set order" using that by (simp add: filter_id_conv) blast
  then show ?case using Cons by auto
qed simp

lemma jo_members: "jo_inv obj \<Longrightarrow> map_of (for_each_member obj) key = m_members obj key"
  by (auto simp: for_each_member_def jo_inv_def map_of_map_keys restrict_map_def domIff)

lemma jo_filter: "filter (\<lambda>m. fst m \<noteq> key) (for_each_member obj) = map (\<lambda>k. (k, the (m_members obj k))) (filter (\<lambda>k. k \<noteq> key) (m_order obj))"
  by (simp add: for_each_member_def filter_map o_def)


lemma jo_set_spec:
  assumes "jo_inv obj"
  shows "\<exists>obj'. jo_set obj key v = Inr obj' \<and> jo_inv obj' \<and> for_each_member obj' = object_set (for_each_member obj) key v"
proof (cases "m_members obj key")
  case None
  then have "key \<notin> set (m_order obj)" using assms by (auto simp: jo_inv_def)
  then show ?thesis using None assms jo_members[OF assms]
    by (auto simp: jo_set_def object_set_def object_has_def jo_inv_def for_each_member_def Let_def)
next
  case (Some w)
  let ?o = "filter (\<lambda>k. k \<noteq> key) (m_order obj)"
  have k: "distinct (m_order obj)" "key \<in> set (m_order obj)" using assms Some by (auto simp: jo_inv_def)
  let ?obj = "\<lparr>m_order = ?o @ [key], m_members = (m_members obj)(key \<mapsto> v)\<rparr>"
  have "jo_set obj key v = Inr ?obj" using Some order_remove_spec[OF k] by (simp add: jo_set_def Let_def)
  moreover have "jo_inv ?obj" using assms by (auto simp: jo_inv_def)
  moreover have "for_each_member ?obj = object_set (for_each_member obj) key v"
    using Some jo_members[OF assms] by (simp add: object_set_def object_has_def jo_filter) (simp add: for_each_member_def)
  ultimately show ?thesis by blast
qed

lemma jo_remove_spec:
  assumes "jo_inv obj"
  shows "\<exists>b obj'. jo_remove obj key = Inr (b, obj') \<and> jo_inv obj' \<and> (b, for_each_member obj') = object_remove (for_each_member obj) key"
proof (cases "m_members obj key")
  case None
  then show ?thesis using assms jo_members[OF assms] by (auto simp: jo_remove_def object_remove_def object_has_def)
next
  case (Some w)
  let ?o = "filter (\<lambda>k. k \<noteq> key) (m_order obj)"
  have k: "distinct (m_order obj)" "key \<in> set (m_order obj)" using assms Some by (auto simp: jo_inv_def)
  let ?obj = "\<lparr>m_order = ?o, m_members = (m_members obj)(key := None)\<rparr>"
  have "jo_remove obj key = Inr (True, ?obj)" using Some order_remove_spec[OF k] by (simp add: jo_remove_def)
  moreover have "jo_inv ?obj" using assms by (auto simp: jo_inv_def)
  moreover have "(True, for_each_member ?obj) = object_remove (for_each_member obj) key"
    using Some jo_members[OF assms] by (simp add: object_remove_def object_has_def jo_filter) (simp add: for_each_member_def)
  ultimately show ?thesis by blast
qed

text \<open>
  C27: an object's vector of keys and its hash map of values stay in step under \<open>set\<close> and \<open>remove\<close>, neither of which
  can fail, and the members they enumerate are those of a single ordered list: a member that is set again moves to the
  end of it.
\<close>

theorem json_object_refines:
  assumes "jo_inv obj"
  shows "(\<exists>obj'. jo_set obj key v = Inr obj' \<and> jo_inv obj' \<and> for_each_member obj' = object_set (for_each_member obj) key v)
    \<and> (\<exists>b obj'. jo_remove obj key = Inr (b, obj') \<and> jo_inv obj' \<and> (b, for_each_member obj') = object_remove (for_each_member obj) key)
    \<and> jo_get obj key = object_get (for_each_member obj) key \<and> jo_has obj key = object_has (for_each_member obj) key"
  using jo_set_spec[OF assms] jo_remove_spec[OF assms] jo_members[OF assms]
  by (simp add: jo_get_def object_get_def jo_has_def object_has_def)

theorem json_object_refines_witness:
  "(\<exists>obj'. jo_set jo_empty ''a'' JNull = Inr obj' \<and> jo_inv obj' \<and> for_each_member obj' = object_set (for_each_member jo_empty) ''a'' JNull)
    \<and> (\<exists>b obj'. jo_remove jo_empty ''a'' = Inr (b, obj') \<and> jo_inv obj' \<and> (b, for_each_member obj') = object_remove (for_each_member jo_empty) ''a'')
    \<and> jo_get jo_empty ''a'' = object_get (for_each_member jo_empty) ''a'' \<and> jo_has jo_empty ''a'' = object_has (for_each_member jo_empty) ''a''"
  by (rule json_object_refines) (simp add: jo_inv_def jo_empty_def)

end
