(* ===== verification/AK_Time.thy ===== *)
theory AK_Time
  imports Prelude "HOL-Library.Signed_Division"
begin

text \<open>
  \<open>AK/Time.h\<close> and \<open>AK/Time.cpp\<close>: the calendar functions and the class \<open>Time\<close>, an amount of time in seconds and nanoseconds
  whose operations saturate. Seconds are integers that \<open>fits_i64\<close> bounds, \<open>Checked<i64>\<close> is an option; the arithmetic of
  the calendar functions is on \<open>int\<close>, and years are taken to be so small that it does not overflow. A time is read as its
  number \<open>ns\<close> of nanoseconds, and the operations are shown to be exact on it, or to saturate.
\<close>

subsection \<open>The calendar\<close>

definition is_leap_year :: "int \<Rightarrow> bool" where
  "is_leap_year year \<longleftrightarrow> year smod 4 = 0 \<and> (year smod 100 \<noteq> 0 \<or> year smod 400 = 0)"

definition days_in_year :: "int \<Rightarrow> int" where
  "days_in_year year = 365 + (if is_leap_year year then 1 else 0)"

definition day_of_year :: "int \<Rightarrow> nat \<Rightarrow> int \<Rightarrow> int result" where
  "day_of_year year month day =
     and_then (verify (1 \<le> month \<and> month \<le> 12)) (\<lambda>_.
       let day_of_year = [0, 31, 59, 90, 120, 151, 181, 212, 243, 273, 304, 334] ! (month - 1) + day - 1 in
       Inr (if is_leap_year year \<and> month \<ge> 3 then day_of_year + 1 else day_of_year))"

definition days_in_month :: "int \<Rightarrow> nat \<Rightarrow> int result" where
  "days_in_month year month =
     and_then (verify (1 \<le> month \<and> month \<le> 12)) (\<lambda>_.
       if month = 2 then Inr (if is_leap_year year then 29 else 28)
       else Inr (if month \<in> {1, 3, 5, 7, 8, 10, 12} then 31 else 30))"

text \<open>The result is \<open>unsigned\<close>.\<close>

definition day_of_week :: "int \<Rightarrow> nat \<Rightarrow> int \<Rightarrow> nat result" where
  "day_of_week year month day =
     and_then (verify (1 \<le> month \<and> month \<le> 12)) (\<lambda>_.
       let year = (if month < 3 then year - 1 else year) in
       Inr (nat (((year + year sdiv 4 - year sdiv 100 + year sdiv 400
         + [0, 3, 2, 5, 0, 3, 5, 1, 4, 6, 2, 4] ! (month - 1) + day) smod 7) mod 2 ^ 32)))"

function days_up :: "int \<Rightarrow> int \<Rightarrow> int \<Rightarrow> int" where
  "days_up current_year year days =
     (if current_year < year then days_up (current_year + 1) year (days + days_in_year current_year) else days)"
  by pat_completeness auto
termination by (relation "measure (\<lambda>(c, y, d). nat (y - c))") auto

function days_down :: "int \<Rightarrow> int \<Rightarrow> int" where
  "days_down current_year days =
     (if current_year < 1970 then days_down (current_year + 1) (days - days_in_year current_year) else days)"
  by pat_completeness auto
termination by (relation "measure (\<lambda>(c, d). nat (1970 - c))") auto

declare days_up.simps [simp del] days_down.simps [simp del]

definition years_to_days_since_epoch :: "int \<Rightarrow> int" where
  "years_to_days_since_epoch year = days_down year (days_up 1970 year 0)"

subsection \<open>Checked integers\<close>

text \<open>\<open>Checked<i64>\<close>: an overflow is remembered, and the value is not read after it.\<close>

definition fits_i64 :: "int \<Rightarrow> bool" where
  "fits_i64 v \<longleftrightarrow> - (2 ^ 63) \<le> v \<and> v < 2 ^ 63"

definition checked :: "int \<Rightarrow> int option" where
  "checked v = (if fits_i64 v then Some v else None)"

definition checked_add :: "int option \<Rightarrow> int \<Rightarrow> int option" where
  "checked_add c v = (case c of None \<Rightarrow> None | Some x \<Rightarrow> checked (x + v))"

definition checked_mul :: "int option \<Rightarrow> int \<Rightarrow> int option" where
  "checked_mul c v = (case c of None \<Rightarrow> None | Some x \<Rightarrow> checked (x * v))"

subsection \<open>Times\<close>

datatype time = Time (m_seconds: int) (m_nanoseconds: nat)

definition time_min :: time where "time_min = Time (- (2 ^ 63)) 0"

definition time_zero :: time where "time_zero = Time 0 0"

definition time_max :: time where "time_max = Time (2 ^ 63 - 1) 999999999"

definition is_zero :: "time \<Rightarrow> bool" where
  "is_zero t \<longleftrightarrow> m_seconds t = 0 \<and> m_nanoseconds t = 0"

text \<open>\<open>sane_mod\<close>: the remainder it leaves in its first argument, and the dividend it returns.\<close>

definition sane_mod :: "int \<Rightarrow> int \<Rightarrow> (int \<times> int) result" where
  "sane_mod numerator denominator =
     and_then (verify (2 \<le> denominator \<and> denominator \<le> 1000000000)) (\<lambda>_.
       let dividend = numerator sdiv denominator; numerator = numerator smod denominator in
       Inr (if numerator < 0 then (numerator + denominator, dividend - 1) else (numerator, dividend)))"

definition from_seconds :: "int \<Rightarrow> time" where
  "from_seconds seconds = Time seconds 0"

definition from_nanoseconds :: "int \<Rightarrow> time result" where
  "from_nanoseconds nanoseconds =
     and_then (sane_mod nanoseconds 1000000000) (\<lambda>(nanoseconds, seconds). Inr (Time seconds (nat nanoseconds)))"

definition from_microseconds :: "int \<Rightarrow> time result" where
  "from_microseconds microseconds =
     and_then (sane_mod microseconds 1000000) (\<lambda>(microseconds, seconds). Inr (Time seconds (nat (microseconds * 1000))))"

definition from_milliseconds :: "int \<Rightarrow> time result" where
  "from_milliseconds milliseconds =
     and_then (sane_mod milliseconds 1000) (\<lambda>(milliseconds, seconds). Inr (Time seconds (nat (milliseconds * 1000000))))"

definition from_half_sanitized :: "int \<Rightarrow> int \<Rightarrow> nat \<Rightarrow> time result" where
  "from_half_sanitized seconds extra_seconds nanoseconds =
     and_then (verify (nanoseconds < 1000000000)) (\<lambda>_.
       let (seconds, extra_seconds) =
             (if seconds \<le> 0 \<and> extra_seconds > 0 \<or> seconds \<ge> 0 \<and> extra_seconds < 0
              then (seconds + extra_seconds, 0) else (seconds, extra_seconds)) in
       if \<not> fits_i64 (seconds + extra_seconds) then Inr (if seconds < 0 then time_min else time_max)
       else Inr (Time (seconds + extra_seconds) nanoseconds))"

definition from_timespec :: "int \<Rightarrow> int \<Rightarrow> time result" where
  "from_timespec tv_sec tv_nsec =
     and_then (sane_mod tv_nsec 1000000000) (\<lambda>(nsecs, extra_secs). from_half_sanitized tv_sec extra_secs (nat nsecs))"

definition from_timeval :: "int \<Rightarrow> int \<Rightarrow> time result" where
  "from_timeval tv_sec tv_usec =
     and_then (sane_mod tv_usec 1000000) (\<lambda>(usecs, extra_secs).
     and_then (verify (0 \<le> usecs \<and> usecs < 1000000)) (\<lambda>_. from_half_sanitized tv_sec extra_secs (nat (usecs * 1000))))"

definition to_timespec :: "time \<Rightarrow> (int \<times> int) result" where
  "to_timespec t = and_then (verify (m_nanoseconds t < 1000000000)) (\<lambda>_. Inr (m_seconds t, int (m_nanoseconds t)))"

definition to_timeval :: "time \<Rightarrow> (int \<times> int) result" where
  "to_timeval t = and_then (verify (m_nanoseconds t < 1000000000)) (\<lambda>_. Inr (m_seconds t, int (m_nanoseconds t) sdiv 1000))"

definition to_truncated_seconds :: "time \<Rightarrow> int result" where
  "to_truncated_seconds t =
     and_then (verify (m_nanoseconds t < 1000000000)) (\<lambda>_.
       Inr (if m_seconds t < 0 \<and> m_nanoseconds t \<noteq> 0 then m_seconds t + 1 else m_seconds t))"

definition to_seconds :: "time \<Rightarrow> int result" where
  "to_seconds t =
     and_then (verify (m_nanoseconds t < 1000000000)) (\<lambda>_.
       if m_seconds t \<ge> 0 \<and> m_nanoseconds t \<noteq> 0 then
         Inr (case checked_add (Some (m_seconds t)) 1 of None \<Rightarrow> 2 ^ 63 - 1 | Some seconds \<Rightarrow> seconds)
       else Inr (m_seconds t))"

text \<open>
  The conversions to smaller units begin with the seconds, one more of them if they are negative, and put that second
  back in at the end; \<open>unit\<close> is the number of units in a second.
\<close>

definition unit_start :: "time \<Rightarrow> int \<Rightarrow> int option" where
  "unit_start t unit =
     checked_add (checked_mul (Some (if m_seconds t < 0 then m_seconds t + 1 else m_seconds t)) unit)
       (int (m_nanoseconds t) div (1000000000 div unit))"

definition unit_end :: "time \<Rightarrow> int option \<Rightarrow> int" where
  "unit_end t c = (case c of Some v \<Rightarrow> v | None \<Rightarrow> if m_seconds t < 0 then - (2 ^ 63) else 2 ^ 63 - 1)"

definition to_truncated_milliseconds :: "time \<Rightarrow> int result" where
  "to_truncated_milliseconds t =
     and_then (verify (m_nanoseconds t < 1000000000)) (\<lambda>_.
       let milliseconds = unit_start t 1000;
           milliseconds =
             (if m_seconds t < 0 then
                checked_add (if m_nanoseconds t mod 1000000 \<noteq> 0 then checked_add milliseconds 1 else milliseconds) (- 1000)
              else milliseconds) in
       Inr (unit_end t milliseconds))"

definition to_truncated_microseconds :: "time \<Rightarrow> int result" where
  "to_truncated_microseconds t =
     and_then (verify (m_nanoseconds t < 1000000000)) (\<lambda>_.
       let microseconds = unit_start t 1000000;
           microseconds =
             (if m_seconds t < 0 then
                checked_add (if m_nanoseconds t mod 1000 \<noteq> 0 then checked_add microseconds 1 else microseconds) (- 1000000)
              else microseconds) in
       Inr (unit_end t microseconds))"

definition to_milliseconds :: "time \<Rightarrow> int result" where
  "to_milliseconds t =
     and_then (verify (m_nanoseconds t < 1000000000)) (\<lambda>_.
       let milliseconds = unit_start t 1000;
           milliseconds = (if m_seconds t \<ge> 0 \<and> m_nanoseconds t mod 1000000 \<noteq> 0 then checked_add milliseconds 1 else milliseconds) in
       Inr (unit_end t (if m_seconds t < 0 then checked_add milliseconds (- 1000) else milliseconds)))"

definition to_microseconds :: "time \<Rightarrow> int result" where
  "to_microseconds t =
     and_then (verify (m_nanoseconds t < 1000000000)) (\<lambda>_.
       let microseconds = unit_start t 1000000;
           microseconds = (if m_seconds t \<ge> 0 \<and> m_nanoseconds t mod 1000 \<noteq> 0 then checked_add microseconds 1 else microseconds) in
       Inr (unit_end t (if m_seconds t < 0 then checked_add microseconds (- 1000000) else microseconds)))"

definition to_nanoseconds :: "time \<Rightarrow> int result" where
  "to_nanoseconds t =
     and_then (verify (m_nanoseconds t < 1000000000)) (\<lambda>_.
       let nanoseconds = unit_start t 1000000000 in
       Inr (unit_end t (if m_seconds t < 0 then checked_add nanoseconds (- 1000000000) else nanoseconds)))"

definition add_secs :: "int \<Rightarrow> int \<Rightarrow> nat \<Rightarrow> time" where
  "add_secs this_secs other_secs new_nsecs =
     (case checked_add (Some this_secs) other_secs of
        None \<Rightarrow> if other_secs > 0 then time_max else time_min
      | Some new_secs \<Rightarrow> Time new_secs new_nsecs)"

definition time_add :: "time \<Rightarrow> time \<Rightarrow> time result" where
  "time_add t other =
     and_then (verify (m_nanoseconds t < 1000000000)) (\<lambda>_.
     and_then (verify (m_nanoseconds other < 1000000000)) (\<lambda>_.
       let new_nsecs = usize (m_nanoseconds t + m_nanoseconds other);
           extra_secs = new_nsecs div 1000000000;
           new_nsecs = new_nsecs mod 1000000000 in
       if extra_secs \<noteq> 0 then
         and_then (verify (extra_secs = 1)) (\<lambda>_.
           if m_seconds t \<noteq> 2 ^ 63 - 1 then Inr (add_secs (m_seconds t + 1) (m_seconds other) new_nsecs)
           else if m_seconds other \<noteq> 2 ^ 63 - 1 then Inr (add_secs (m_seconds t) (m_seconds other + 1) new_nsecs)
           else Inr time_max)
       else Inr (add_secs (m_seconds t) (m_seconds other) new_nsecs)))"

text \<open>The complement of a two's complement number is one less than its negation.\<close>

definition time_sub :: "time \<Rightarrow> time \<Rightarrow> time result" where
  "time_sub t other =
     and_then (verify (m_nanoseconds t < 1000000000)) (\<lambda>_.
     and_then (verify (m_nanoseconds other < 1000000000)) (\<lambda>_.
       if m_nanoseconds other \<noteq> 0 then time_add t (Time (- m_seconds other - 1) (1000000000 - m_nanoseconds other))
       else if m_seconds other \<noteq> - (2 ^ 63) then time_add t (Time (- m_seconds other) 0)
       else if m_seconds t \<ge> 0 then Inr time_max
       else Inr (Time ((m_seconds t + 2 ^ 62) + 2 ^ 62) (m_nanoseconds t))))"

definition time_less :: "time \<Rightarrow> time \<Rightarrow> bool" where
  "time_less t other \<longleftrightarrow> m_seconds t < m_seconds other \<or> m_seconds t = m_seconds other \<and> m_nanoseconds t < m_nanoseconds other"

definition time_less_eq :: "time \<Rightarrow> time \<Rightarrow> bool" where
  "time_less_eq t other \<longleftrightarrow> m_seconds t < m_seconds other \<or> m_seconds t = m_seconds other \<and> m_nanoseconds t \<le> m_nanoseconds other"

instantiation time :: linorder
begin

definition less_eq_time_def: "(a :: time) \<le> b \<longleftrightarrow> time_less_eq a b"

definition less_time_def: "(a :: time) < b \<longleftrightarrow> time_less a b"

instance
  by standard (auto simp: less_eq_time_def less_time_def time_less_def time_less_eq_def intro: time.expand)

end

subsection \<open>Times as numbers of nanoseconds\<close>

definition time_ok :: "time \<Rightarrow> bool" where
  "time_ok t \<longleftrightarrow> fits_i64 (m_seconds t) \<and> m_nanoseconds t < 1000000000"

definition ns :: "time \<Rightarrow> int" where
  "ns t = m_seconds t * 1000000000 + int (m_nanoseconds t)"

definition saturate :: "int \<Rightarrow> int \<Rightarrow> int \<Rightarrow> int" where
  "saturate lo hi v = max lo (min hi v)"

lemma sane_mod_spec:
  assumes "2 \<le> d" "d \<le> 1000000000"
  shows "sane_mod n d = Inr (n mod d, n div d)"
proof (cases "0 \<le> n")
  case True
  then have "n sdiv d = n div d" "n smod d = n mod d" using assms by (simp_all add: signed_divide_int_def signed_modulo_int_def zsgn_def)
  then show ?thesis using assms by (simp add: sane_mod_def Let_def not_less)
next
  case False
  then have q: "n sdiv d = - ((- n) div d)" "n smod d = - ((- n) mod d)"
    using assms by (simp_all add: signed_divide_int_def signed_modulo_int_def zsgn_def)
  show ?thesis
  proof (cases "(- n) mod d = 0")
    case True
    then have "n mod d = 0" "n div d = - ((- n) div d)" using zmod_zminus1_eq_if[of "- n" d] zdiv_zminus1_eq_if[of d "- n"] assms(1) by simp_all
    then show ?thesis using True q assms by (simp add: sane_mod_def Let_def)
  next
    case r: False
    have "n mod d = d - (- n) mod d" "n div d = - ((- n) div d) - 1"
      using zmod_zminus1_eq_if[of "- n" d] zdiv_zminus1_eq_if[of d "- n"] r assms(1) by simp_all
    moreover have "0 < (- n) mod d" using r assms(1) by (simp add: order_less_le)
    ultimately show ?thesis using q assms by (simp add: sane_mod_def Let_def)
  qed
qed

lemma ns_parts:
  assumes "time_ok t"
  shows "m_seconds t = ns t div 1000000000" "int (m_nanoseconds t) = ns t mod 1000000000"
  using assms by (simp_all add: ns_def time_ok_def)

lemma ns_inj: "time_ok a \<Longrightarrow> time_ok b \<Longrightarrow> ns a = ns b \<Longrightarrow> a = b"
  using ns_parts[of a] ns_parts[of b] by (intro time.expand) auto

lemma ns_less: "time_ok a \<Longrightarrow> time_ok b \<Longrightarrow> a < b \<longleftrightarrow> ns a < ns b"
  by (auto simp: less_time_def time_less_def ns_def time_ok_def)

lemma time_bounds: "time_ok time_min" "time_ok time_max" "ns time_min = - (2 ^ 63) * 1000000000" "ns time_max = 2 ^ 63 * 1000000000 - 1"
  by (simp_all add: time_ok_def time_min_def time_max_def fits_i64_def ns_def)

text \<open>Adding the seconds, with a carry that is already in one of the summands.\<close>

lemma add_secs_spec:
  assumes "fits_i64 x" "fits_i64 y" "n < 1000000000"
  shows "time_ok (add_secs x y n)" "ns (add_secs x y n) = saturate (ns time_min) (ns time_max) ((x + y) * 1000000000 + int n)"
  using assms
  by (auto simp: add_secs_def checked_add_def checked_def saturate_def time_min_def time_max_def fits_i64_def time_ok_def ns_def)

lemma time_add_spec:
  assumes "time_ok a" "time_ok b"
  shows "\<exists>c. time_add a b = Inr c \<and> time_ok c \<and> ns c = saturate (ns time_min) (ns time_max) (ns a + ns b)"
proof -
  let ?n = "m_nanoseconds a + m_nanoseconds b"
  have n: "?n < 2000000000" "usize ?n = ?n" "m_nanoseconds a < 1000000000" "m_nanoseconds b < 1000000000"
    and s: "fits_i64 (m_seconds a)" "fits_i64 (m_seconds b)" using assms by (simp_all add: time_ok_def)
  show ?thesis
  proof (cases "?n < 1000000000")
    case True
    have "ns a + ns b = (m_seconds a + m_seconds b) * 1000000000 + int ?n" by (simp add: ns_def)
    then show ?thesis using add_secs_spec[OF s True] True n by (simp add: time_add_def Let_def)
  next
    case False
    then have d: "?n div 1000000000 = 1" "?n mod 1000000000 = ?n - 1000000000" using n(1) by (simp_all add: div_nat_eqI mod_if)
    let ?r = "?n - 1000000000"
    have r: "?r < 1000000000" using n(1) by simp
    have e: "ns a + ns b = (m_seconds a + m_seconds b + 1) * 1000000000 + int ?r" using False by (simp add: ns_def)
    consider "m_seconds a \<noteq> 2 ^ 63 - 1" | "m_seconds a = 2 ^ 63 - 1" "m_seconds b \<noteq> 2 ^ 63 - 1"
      | "m_seconds a = 2 ^ 63 - 1" "m_seconds b = 2 ^ 63 - 1" by blast
    then show ?thesis
    proof cases
      case 1
      then have "fits_i64 (m_seconds a + 1)" using s(1) by (simp add: fits_i64_def)
      from add_secs_spec[OF this s(2) r] show ?thesis using 1 n d e by (simp add: time_add_def Let_def algebra_simps)
    next
      case 2
      then have "fits_i64 (m_seconds b + 1)" using s(2) by (simp add: fits_i64_def)
      from add_secs_spec[OF s(1) this r] show ?thesis using 2 n d e by (simp add: time_add_def Let_def algebra_simps)
    next
      case 3
      then show ?thesis using n d e time_bounds by (simp add: time_add_def Let_def saturate_def)
    qed
  qed
qed

lemma time_sub_spec:
  assumes "time_ok a" "time_ok b"
  shows "\<exists>c. time_sub a b = Inr c \<and> time_ok c \<and> ns c = saturate (ns time_min) (ns time_max) (ns a - ns b)"
proof -
  consider "m_nanoseconds b \<noteq> 0" | "m_nanoseconds b = 0" "m_seconds b \<noteq> - (2 ^ 63)" | "m_nanoseconds b = 0" "m_seconds b = - (2 ^ 63)" by blast
  then show ?thesis
  proof cases
    case 1
    let ?b = "Time (- m_seconds b - 1) (1000000000 - m_nanoseconds b)"
    have "time_ok ?b" "ns ?b = - ns b" using assms(2) 1 by (auto simp: time_ok_def fits_i64_def ns_def)
    then show ?thesis using time_add_spec[OF assms(1), of ?b] assms 1 by (simp add: time_sub_def time_ok_def)
  next
    case 2
    let ?b = "Time (- m_seconds b) 0"
    have "time_ok ?b" "ns ?b = - ns b" using assms(2) 2 by (auto simp: time_ok_def fits_i64_def ns_def)
    then show ?thesis using time_add_spec[OF assms(1), of ?b] assms 2 by (simp add: time_sub_def time_ok_def)
  next
    case 3
    then show ?thesis using assms
      by (auto simp: time_sub_def time_min_def time_max_def time_ok_def fits_i64_def saturate_def ns_def)
  qed
qed

subsection \<open>Conversions\<close>

lemma from_units:
  "from_nanoseconds v = Inr (Time (v div 1000000000) (nat (v mod 1000000000)))"
  "from_microseconds v = Inr (Time (v div 1000000) (nat (v mod 1000000 * 1000)))"
  "from_milliseconds v = Inr (Time (v div 1000) (nat (v mod 1000 * 1000000)))"
  by (simp_all add: from_nanoseconds_def from_microseconds_def from_milliseconds_def sane_mod_spec)

lemma unit_factor:
  fixes u k :: int
  assumes "0 < u" "u * k = 1000000000"
  shows "1000000000 div u = k" "0 < k" "u \<le> 1000000000"
proof -
  show "0 < k" using assms zero_less_mult_pos[of u k] by simp
  then show "u \<le> 1000000000" using mult_left_mono[of 1 k u] assms by simp
  show "1000000000 div u = k" unfolding assms(2)[symmetric] using assms(1) by simp
qed

lemma unit_time:
  assumes "fits_i64 v" "0 < u" "u * k = 1000000000"
  shows "time_ok (Time (v div u) (nat (v mod u * k)))" "ns (Time (v div u) (nat (v mod u * k))) = v * k"
proof -
  have k: "0 < k" using assms(2,3) zero_less_mult_pos[of u k] by simp
  have "v mod u * k < u * k" using assms(2) k by (intro mult_strict_right_mono) simp_all
  moreover have m: "0 \<le> v mod u * k" using assms(2) k by simp
  moreover have "fits_i64 (v div u)"
  proof (cases "0 \<le> v")
    case True
    have "v div u \<le> v" using zdiv_mono2[of v 1 u] True assms(2) by simp
    moreover have "0 \<le> v div u" using True assms(2) by (simp add: pos_imp_zdiv_nonneg_iff)
    ultimately show ?thesis using assms(1) by (simp add: fits_i64_def)
  next
    case False
    then have "v \<le> v div u" using zdiv_mono2_neg[of v 1 u] assms(2) by simp
    moreover have "v div u < 0" using False assms(2) by (simp add: div_neg_pos_less0)
    ultimately show ?thesis using assms(1) by (simp add: fits_i64_def)
  qed
  ultimately show "time_ok (Time (v div u) (nat (v mod u * k)))" using assms(3) by (simp add: time_ok_def)
  have "v div u * (u * k) + v mod u * k = v * k"
    by (metis div_mult_mod_eq distrib_right mult.assoc)
  then show "ns (Time (v div u) (nat (v mod u * k))) = v * k" using m assms(3) by (simp add: ns_def)
qed

lemma half_sanitized_spec:
  assumes "fits_i64 s" "- (2 ^ 31) \<le> e" "e < 2 ^ 31" "n < 1000000000"
  shows "\<exists>t. from_half_sanitized s e n = Inr t \<and> time_ok t
    \<and> ns t = saturate (ns time_min) (ns time_max) ((s + e) * 1000000000 + int n)"
  using assms
  by (auto simp: from_half_sanitized_def Let_def time_ok_def fits_i64_def saturate_def time_min_def time_max_def ns_def)

lemma from_timespec_spec:
  assumes "fits_i64 s" "- (2 ^ 31) \<le> n" "n < 2 ^ 31"
  shows "\<exists>t. from_timespec s n = Inr t \<and> time_ok t
    \<and> ns t = saturate (ns time_min) (ns time_max) (s * 1000000000 + n)"
proof -
  have "- (2 ^ 31) \<le> n div 1000000000" "n div 1000000000 < 2 ^ 31" "nat (n mod 1000000000) < 1000000000" using assms(2,3) by (simp_all; linarith)+
  from half_sanitized_spec[OF assms(1) this]
  show ?thesis by (simp add: from_timespec_def sane_mod_spec algebra_simps)
qed

lemma from_timeval_spec:
  assumes "fits_i64 s" "- (2 ^ 31) \<le> u" "u < 2 ^ 31"
  shows "\<exists>t. from_timeval s u = Inr t \<and> time_ok t
    \<and> ns t = saturate (ns time_min) (ns time_max) (s * 1000000000 + u * 1000)"
proof -
  have b: "- (2 ^ 31) \<le> u div 1000000" "u div 1000000 < 2 ^ 31" using assms(2,3) by linarith+
  have "nat (u mod 1000000 * 1000) < 1000000000" by (simp add: nat_less_iff; linarith)
  from half_sanitized_spec[OF assms(1) b this]
  have "\<exists>t. from_timeval s u = Inr t \<and> time_ok t
    \<and> ns t = saturate (ns time_min) (ns time_max) ((s + u div 1000000) * 1000000000 + u mod 1000000 * 1000)"
    by (simp add: from_timeval_def sane_mod_spec)
  moreover have "(s + u div 1000000) * 1000000000 + u mod 1000000 * 1000 = s * 1000000000 + u * 1000"
    by presburger
  ultimately show ?thesis by (simp only:)
qed

text \<open>Rounding towards zero is the division of C++; rounding away from zero is the other one.\<close>

definition div_away :: "int \<Rightarrow> int \<Rightarrow> int" where
  "div_away v d = (if 0 \<le> v then - ((- v) div d) else v div d)"

definition sat64 :: "int \<Rightarrow> int" where
  "sat64 = saturate (- (2 ^ 63)) (2 ^ 63 - 1)"

lemma unit_end_nonneg:
  assumes "0 \<le> m_seconds t" "0 < u" "u * k = 1000000000" "0 \<le> e"
  shows "unit_end t (checked_add (unit_start t u) e) = sat64 (ns t div k + e)" "unit_end t (unit_start t u) = sat64 (ns t div k)"
proof -
  have k: "1000000000 div u = k" "0 < k" by (fact unit_factor[OF assms(2,3)])+
  have "ns t = m_seconds t * u * k + int (m_nanoseconds t)" using assms(3) by (simp add: ns_def mult.assoc)
  then have d: "ns t div k = m_seconds t * u + int (m_nanoseconds t) div k" using k(2) by simp
  have p: "0 \<le> m_seconds t * u" "0 \<le> int (m_nanoseconds t) div k" using assms(1,2) k(2) by (simp_all add: pos_imp_zdiv_nonneg_iff)
  show "unit_end t (checked_add (unit_start t u) e) = sat64 (ns t div k + e)" "unit_end t (unit_start t u) = sat64 (ns t div k)"
    unfolding d unit_start_def k using assms(1,4) p
    by (auto simp: unit_end_def checked_add_def checked_mul_def checked_def fits_i64_def sat64_def saturate_def)
qed

lemma unit_end_neg:
  assumes "m_seconds t < 0" "m_nanoseconds t < 1000000000" "0 < u" "u * k = 1000000000"
  shows "unit_end t (checked_add (checked_add (unit_start t u) 1) (- u)) = sat64 (ns t div k + 1)" "unit_end t (checked_add (unit_start t u) (- u)) = sat64 (ns t div k)"
proof -
  have k: "1000000000 div u = k" "0 < k" by (fact unit_factor[OF assms(3,4)])+
  have "ns t = m_seconds t * u * k + int (m_nanoseconds t)" using assms(4) by (simp add: ns_def mult.assoc)
  then have d: "ns t div k = m_seconds t * u + int (m_nanoseconds t) div k" using k(2) by simp
  have "\<not> u * k \<le> int (m_nanoseconds t) div k * k" using div_mult_mod_eq[of "int (m_nanoseconds t)" k] pos_mod_sign[OF k(2), of "int (m_nanoseconds t)"] assms(2,4) by linarith
  then have "int (m_nanoseconds t) div k < u" using mult_right_mono[of u "int (m_nanoseconds t) div k" k] k(2) by linarith
  moreover have "0 \<le> int (m_nanoseconds t) div k" "(m_seconds t + 1) * u \<le> 0" using assms(1,3) k(2)
    by (simp_all add: pos_imp_zdiv_nonneg_iff mult_nonpos_nonneg)
  moreover have "m_seconds t * u = (m_seconds t + 1) * u - u" "u \<le> 1000000000" using unit_factor(3)[OF assms(3,4)] by (simp_all add: distrib_right)
  ultimately show "unit_end t (checked_add (checked_add (unit_start t u) 1) (- u)) = sat64 (ns t div k + 1)" "unit_end t (checked_add (unit_start t u) (- u)) = sat64 (ns t div k)"
    unfolding d unit_start_def k using assms(1)
    by (auto simp: unit_end_def checked_add_def checked_mul_def checked_def fits_i64_def sat64_def saturate_def)
qed

lemma div_away_pos: "0 \<le> v \<Longrightarrow> 0 < d \<Longrightarrow> div_away v d = v div d + (if v mod d = 0 then 0 else 1)"
  using zdiv_zminus1_eq_if[of d v] by (simp add: div_away_def)

lemma sdiv_neg: "v < 0 \<Longrightarrow> 0 < d \<Longrightarrow> v sdiv d = v div d + (if v mod d = 0 then 0 else 1)" for v d :: int
  using zdiv_zminus1_eq_if[of d v] by (simp add: signed_divide_int_def)

lemma sdiv_nonneg: "0 \<le> v \<Longrightarrow> 0 < d \<Longrightarrow> v sdiv d = v div d" for v d :: int
  by (cases "v = 0") (simp_all add: signed_divide_int_def)

lemma ns_sign: "m_nanoseconds t < 1000000000 \<Longrightarrow> 0 \<le> ns t \<longleftrightarrow> 0 \<le> m_seconds t"
  by (auto simp: ns_def)

lemma ns_mod:
  assumes "u * k = 1000000000"
  shows "ns t mod k = int (m_nanoseconds t) mod k"
proof -
  have "ns t = m_seconds t * u * k + int (m_nanoseconds t)" using assms by (simp add: ns_def mult.assoc)
  then show ?thesis by simp
qed

lemma ns_mod_nat: "ns t mod 1000000 = 0 \<longleftrightarrow> m_nanoseconds t mod 1000000 = 0" "ns t mod 1000 = 0 \<longleftrightarrow> m_nanoseconds t mod 1000 = 0"
  using ns_mod[of 1000 1000000 t] ns_mod[of 1000000 1000 t] by (simp_all; presburger)+

lemmas unit_ends =
  unit_end_nonneg[where u = 1000 and k = 1000000] unit_end_nonneg[where u = 1000000 and k = 1000] unit_end_nonneg[where u = 1000000000 and k = 1]
  unit_end_neg[where u = 1000 and k = 1000000] unit_end_neg[where u = 1000000 and k = 1000] unit_end_neg[where u = 1000000000 and k = 1]

lemma to_units_spec:
  assumes "time_ok t"
  shows "to_nanoseconds t = Inr (sat64 (ns t))"
    and "to_milliseconds t = Inr (sat64 (div_away (ns t) 1000000))"
    and "to_microseconds t = Inr (sat64 (div_away (ns t) 1000))"
    and "to_truncated_milliseconds t = Inr (sat64 (ns t sdiv 1000000))"
    and "to_truncated_microseconds t = Inr (sat64 (ns t sdiv 1000))"
proof -
  have n: "m_nanoseconds t < 1000000000" using assms by (simp add: time_ok_def)
  note d = to_nanoseconds_def to_milliseconds_def to_microseconds_def to_truncated_milliseconds_def to_truncated_microseconds_def
  have "to_nanoseconds t = Inr (sat64 (ns t)) \<and> to_milliseconds t = Inr (sat64 (div_away (ns t) 1000000))
    \<and> to_microseconds t = Inr (sat64 (div_away (ns t) 1000))
    \<and> to_truncated_milliseconds t = Inr (sat64 (ns t sdiv 1000000)) \<and> to_truncated_microseconds t = Inr (sat64 (ns t sdiv 1000))"
  proof (cases "0 \<le> m_seconds t")
    case True
    then show ?thesis using n by (simp add: d Let_def unit_ends div_away_pos sdiv_nonneg ns_sign ns_mod_nat)
  next
    case False
    then have "\<not> 0 \<le> ns t" using ns_sign[OF n] by simp
    then show ?thesis using False n by (simp add: d Let_def unit_ends div_away_def sdiv_neg ns_mod_nat not_le)
  qed
  then show "to_nanoseconds t = Inr (sat64 (ns t))"
    and "to_milliseconds t = Inr (sat64 (div_away (ns t) 1000000))"
    and "to_microseconds t = Inr (sat64 (div_away (ns t) 1000))"
    and "to_truncated_milliseconds t = Inr (sat64 (ns t sdiv 1000000))"
    and "to_truncated_microseconds t = Inr (sat64 (ns t sdiv 1000))" by blast+
qed

lemma to_seconds_spec:
  assumes "time_ok t"
  shows "to_seconds t = Inr (sat64 (div_away (ns t) 1000000000))" "to_truncated_seconds t = Inr (ns t sdiv 1000000000)"
proof -
  have n: "m_nanoseconds t < 1000000000" and f: "fits_i64 (m_seconds t)" using assms by (simp_all add: time_ok_def)
  have m: "ns t mod 1000000000 = int (m_nanoseconds t)" "ns t div 1000000000 = m_seconds t" using ns_parts[OF assms] by simp_all
  show "to_seconds t = Inr (sat64 (div_away (ns t) 1000000000))"
  proof (cases "0 \<le> m_seconds t")
    case True
    then have "div_away (ns t) 1000000000 = m_seconds t + (if m_nanoseconds t = 0 then 0 else 1)" using ns_sign[OF n] m by (simp add: div_away_pos)
    then show ?thesis using True n f
      by (auto simp: to_seconds_def checked_add_def checked_def fits_i64_def sat64_def saturate_def)
  next
    case False
    then show ?thesis using n f ns_sign[OF n] m by (simp add: to_seconds_def div_away_def sat64_def saturate_def fits_i64_def)
  qed
  show "to_truncated_seconds t = Inr (ns t sdiv 1000000000)"
    using n m ns_sign[OF n] by (cases "0 \<le> m_seconds t") (auto simp: to_truncated_seconds_def sdiv_nonneg sdiv_neg)
qed

subsection \<open>Days\<close>

definition leaps :: "int \<Rightarrow> int" where
  "leaps y = y div 4 - y div 100 + y div 400"

lemma smod_0: "(v smod d = 0) = (v mod d = 0)" if "0 < d" for v d :: int
proof -
  have "v smod d = 0 \<longleftrightarrow> v = 0 \<or> \<bar>v\<bar> mod d = 0" using that by (simp add: signed_modulo_int_def sgn_eq_0_iff)
  then show ?thesis by (cases "v = 0") (simp_all flip: dvd_eq_mod_eq_0)
qed

lemma div_next:
  fixes y d :: int
  assumes "0 < d"
  shows "(y + 1) div d = y div d + (if (y + 1) mod d = 0 then 1 else 0)"
proof (cases "y mod d + 1 = d")
  case True
  then have "y + 1 = d * (y div d + 1)" using mult_div_mod_eq[of d y] unfolding distrib_left by linarith
  then show ?thesis using assms by simp
next
  case False
  then have "0 \<le> y mod d + 1" "y mod d + 1 < d" using pos_mod_bound[OF assms, of y] pos_mod_sign[OF assms, of y] by linarith+
  moreover have "y + 1 = d * (y div d) + (y mod d + 1)" by simp
  ultimately have "(y + 1) div d = y div d" "(y + 1) mod d = y mod d + 1" by (metis int_div_pos_eq, metis int_mod_pos_eq)
  then show ?thesis using pos_mod_sign[OF assms, of y] by simp
qed

lemma leaps_step: "leaps (y + 1) = leaps y + (if is_leap_year (y + 1) then 1 else 0)"
proof -
  define p where "p d \<longleftrightarrow> (y + 1) mod d = 0" for d
  define q where "q d = y div d" for d
  have "(y + 1) div d = q d + (if p d then 1 else 0)" if "0 < d" for d unfolding p_def q_def by (rule div_next[OF that])
  then have "leaps (y + 1) = (q 4 + (if p 4 then 1 else 0)) - (q 100 + (if p 100 then 1 else 0)) + (q 400 + (if p 400 then 1 else 0))"
    unfolding leaps_def by (simp only: zero_less_numeral)
  moreover have "leaps y = q 4 - q 100 + q 400" unfolding leaps_def q_def ..
  moreover have d: "p b" if "p a" "b dvd a" for a b using that unfolding p_def by (metis dvd_eq_mod_eq_0 dvd_trans)
  have "p 400 \<longrightarrow> p 100" "p 100 \<longrightarrow> p 4" using d[of 400 100] d[of 100 4] by simp_all
  moreover have "is_leap_year (y + 1) \<longleftrightarrow> p 4 \<and> (\<not> p 100 \<or> p 400)" unfolding is_leap_year_def p_def by (simp only: smod_0 zero_less_numeral)
  ultimately show ?thesis by (cases "p 4"; cases "p 100"; cases "p 400"; simp)
qed

lemma days_up_spec: "c \<le> y \<Longrightarrow> days_up c y d = d + 365 * (y - c) + leaps (y - 1) - leaps (c - 1)"
proof (induction c y d rule: days_up.induct)
  case (1 c y d)
  show ?case
  proof (cases "c < y")
    case True
    then show ?thesis using 1 leaps_step[of "c - 1"] by (subst days_up.simps) (simp add: days_in_year_def)
  next
    case False
    then show ?thesis using 1 by (subst days_up.simps) simp
  qed
qed

lemma days_down_spec: "c \<le> 1970 \<Longrightarrow> days_down c d = d - 365 * (1970 - c) + leaps (c - 1) - leaps 1969"
proof (induction c d rule: days_down.induct)
  case (1 c d)
  show ?case
  proof (cases "c < 1970")
    case True
    then show ?thesis using 1 leaps_step[of "c - 1"] by (subst days_down.simps) (simp add: days_in_year_def)
  next
    case False
    then show ?thesis using 1 by (subst days_down.simps) simp
  qed
qed

lemma years_to_days_spec: "years_to_days_since_epoch y = 365 * (y - 1970) + leaps (y - 1) - leaps 1969"
proof (cases "y \<le> 1970")
  case True
  have "days_up 1970 y 0 = 0" using True by (subst days_up.simps) simp
  then show ?thesis using True by (simp add: years_to_days_since_epoch_def days_down_spec)
next
  case False
  then have "days_down y d = d" for d by (subst days_down.simps) simp
  then show ?thesis using False by (simp add: years_to_days_since_epoch_def days_up_spec)
qed

lemma months: "1 \<le> (m :: nat) \<Longrightarrow> m \<le> 12 \<Longrightarrow> m \<in> {1, 2, 3, 4, 5, 6, 7, 8, 9, 10, 11, 12}"
  by simp presburger

lemma leaps_nonneg: "0 \<le> y \<Longrightarrow> 0 \<le> leaps y"
  unfolding leaps_def using zdiv_mono2[of y 4 100] pos_imp_zdiv_nonneg_iff[of 400 y] by simp

lemma week_sum:
  assumes "0 \<le> y" "0 \<le> t" "0 \<le> y + d"
  shows "nat (((y + y sdiv 4 - y sdiv 100 + y sdiv 400 + t + d) smod 7) mod 2 ^ 32) = nat ((y + leaps y + t + d) mod 7)"
proof -
  have "y + y sdiv 4 - y sdiv 100 + y sdiv 400 = y + leaps y" using assms(1) by (simp add: leaps_def sdiv_nonneg)
  moreover define s where "s = y + leaps y + t + d"
  then have "0 \<le> s" using leaps_nonneg[OF assms(1)] assms by simp
  then have "s smod 7 = s mod 7" by (cases "s = 0") (simp_all add: signed_modulo_int_def)
  moreover have "s mod 7 mod 2 ^ 32 = s mod 7" by (rule mod_pos_pos_trivial) (simp, rule less_trans[OF pos_mod_bound], simp_all)
  ultimately show ?thesis unfolding s_def by (simp only:)
qed

lemma seek_tables:
  assumes "1 \<le> m" "m \<le> 12"
  shows "0 \<le> [0, 3, 2, 5, 0, 3, 5, 1, 4, 6, 2, 4 :: int] ! (m - 1)"
    "\<exists>k. [0, 31, 59, 90, 120, 151, 181, 212, 243, 273, 304, 334] ! (m - 1)
      = [0, 3, 2, 5, 0, 3, 5, 1, 4, 6, 2, 4 :: int] ! (m - 1) + (if m < 3 then 0 else 1) + 7 * k"
  using months[OF assms] by (auto; presburger)+

lemma day_of_week_spec:
  assumes "1 \<le> y" "1 \<le> m" "m \<le> 12" "1 - y \<le> d"
  shows "\<exists>k. day_of_year y m d = Inr k \<and> day_of_week y m d = Inr (nat ((4 + years_to_days_since_epoch y + k) mod 7))"
proof -
  let ?y = "if m < 3 then y - 1 else y" and ?t = "[0, 3, 2, 5, 0, 3, 5, 1, 4, 6, 2, 4 :: int] ! (m - 1)"
  let ?k = "[0, 31, 59, 90, 120, 151, 181, 212, 243, 273, 304, 334] ! (m - 1) + d - 1 + (if is_leap_year y \<and> m \<ge> 3 then 1 else 0)"
  have "0 \<le> ?y" "0 \<le> ?y + d" using assms by auto
  note w = week_sum[OF this(1) seek_tables(1)[OF assms(2,3)] this(2)]
  have "day_of_week y m d = Inr (nat ((?y + leaps ?y + ?t + d) mod 7))" unfolding day_of_week_def Let_def w using assms by simp
  moreover have "day_of_year y m d = Inr ?k" using assms by (simp add: day_of_year_def Let_def)
  moreover obtain j where j: "4 + years_to_days_since_epoch y + ?k = ?y + leaps ?y + ?t + d + 7 * j"
  proof -
    obtain k where k: "[0, 31, 59, 90, 120, 151, 181, 212, 243, 273, 304, 334] ! (m - 1) = ?t + (if m < 3 then 0 else 1) + 7 * k"
      using seek_tables(2)[OF assms(2,3)] by blast
    have l: "leaps 1969 = 477" "leaps y = leaps (y - 1) + (if is_leap_year y then 1 else 0)" using leaps_step[of "y - 1"] by (simp_all add: leaps_def[of 1969])
    have "4 + years_to_days_since_epoch y + ?k = ?y + leaps ?y + ?t + d + 7 * (52 * y - 102789 + k)"
      unfolding k years_to_days_spec l by (cases "m < 3"; cases "is_leap_year y"; simp add: l)
    then show ?thesis by (rule that)
  qed
  have "(4 + years_to_days_since_epoch y + ?k) mod 7 = (?y + leaps ?y + ?t + d) mod 7" unfolding j by (rule mod_mult_self2)
  ultimately show ?thesis by metis
qed

lemma year_days: "years_to_days_since_epoch (y + 1) = years_to_days_since_epoch y + days_in_year y"
  using leaps_step[of "y - 1"] by (simp add: years_to_days_spec days_in_year_def)

lemma month_days:
  assumes "1 \<le> m" "m < 12" "day_of_year y m d = Inr k" "days_in_month y m = Inr l"
  shows "day_of_year y (m + 1) d = Inr (k + l)"
  using assms months[of m] by (auto simp: day_of_year_def days_in_month_def Let_def)

subsection \<open>There and back\<close>

definition gives_time :: "time result \<Rightarrow> bool" where
  "gives_time r \<longleftrightarrow> (case r of Inl _ \<Rightarrow> False | Inr t \<Rightarrow> time_ok t)"

lemma gives_time_iff: "gives_time r \<longleftrightarrow> (\<exists>t. r = Inr t \<and> time_ok t)"
  by (auto simp: gives_time_def split: sum.splits)

lemma unit_time_result:
  assumes "fits_i64 v" "0 < u" "u * k = 1000000000" "r = Inr (Time (v div u) (nat (v mod u * k)))"
  shows "\<exists>t. r = Inr t \<and> time_ok t \<and> ns t = v * k"
  using unit_time[OF assms(1-3)] assms(4) by blast

lemma from_units_ok:
  assumes "fits_i64 v"
  shows "\<exists>t. from_nanoseconds v = Inr t \<and> time_ok t \<and> ns t = v * 1" "\<exists>t. from_microseconds v = Inr t \<and> time_ok t \<and> ns t = v * 1000"
    "\<exists>t. from_milliseconds v = Inr t \<and> time_ok t \<and> ns t = v * 1000000"
  by (rule unit_time_result[OF assms, of 1000000000]; simp add: from_units)
    (rule unit_time_result[OF assms, of 1000000] unit_time_result[OF assms, of 1000]; simp add: from_units)+

lemma sat64_fits: "fits_i64 v \<Longrightarrow> sat64 v = v"
  by (simp add: sat64_def saturate_def fits_i64_def)

lemma div_away_mult: "0 < d \<Longrightarrow> div_away (v * d) d = v"
  by (simp add: div_away_def flip: mult_minus_left)

lemma timespec_round_trip:
  assumes "time_ok t"
  shows "and_then (to_timespec t) (\<lambda>(tv_sec, tv_nsec). from_timespec tv_sec tv_nsec) = Inr t"
proof -
  have n: "fits_i64 (m_seconds t)" "m_nanoseconds t < 1000000000" using assms by (simp_all add: time_ok_def)
  then obtain u where "from_timespec (m_seconds t) (int (m_nanoseconds t)) = Inr u" "time_ok u" "ns u = saturate (ns time_min) (ns time_max) (ns t)"
    using from_timespec_spec[of "m_seconds t" "int (m_nanoseconds t)"] by (auto simp: ns_def)
  moreover have "saturate (ns time_min) (ns time_max) (ns t) = ns t" unfolding time_bounds using n by (simp add: saturate_def fits_i64_def ns_def)
  ultimately show ?thesis using ns_inj[OF _ assms, of u] n by (simp add: to_timespec_def)
qed

lemma months_join:
  assumes "1 \<le> m" "m \<le> 12" "day_of_year y m d = Inr k"
  shows "\<exists>l. days_in_month y m = Inr l \<and> (if m < 12 then day_of_year y (m + 1) d = Inr (k + l)
       else years_to_days_since_epoch (y + 1) + d - 1 = years_to_days_since_epoch y + k + l)"
  using assms months[OF assms(1,2)] by (auto simp: day_of_year_def days_in_month_def Let_def year_days days_in_year_def)

section \<open>What is shown\<close>

text \<open>
  C28: Every operation that makes a time returns one in normal form, whose seconds fit 64 bits and whose nanoseconds are less
  than a second, and none of them fails one of its assertions. The arguments are any numbers of the widths the code takes.
\<close>

theorem time_normal_form:
  assumes "time_ok a" "time_ok b" "fits_i64 v" "- (2 ^ 31) \<le> n" "n < 2 ^ 31"
  shows "time_ok (from_seconds v) \<and> gives_time (from_nanoseconds v) \<and> gives_time (from_microseconds v)
    \<and> gives_time (from_milliseconds v) \<and> gives_time (from_timespec v n) \<and> gives_time (from_timeval v n)
    \<and> gives_time (time_add a b) \<and> gives_time (time_sub a b)"
  using from_units_ok[OF assms(3)] from_timespec_spec[OF assms(3-5)] from_timeval_spec[OF assms(3-5)]
    time_add_spec[OF assms(1,2)] time_sub_spec[OF assms(1,2)] assms(3)
  by (auto simp: gives_time_iff from_seconds_def time_ok_def)

theorem time_normal_form_witness:
  "gives_time (from_timespec 1 (- 2012345678)) \<and> gives_time (time_sub time_min time_max)"
  using time_normal_form[of time_min time_max 1 "- 2012345678"] by (simp add: time_bounds fits_i64_def)

text \<open>
  C29: Addition and subtraction give the exact sum and difference in nanoseconds, or the nearest of the two ends of the
  range if there is no such time, also where the carry out of the nanoseconds would overflow one summand only; the
  comparison operators compare the numbers of nanoseconds.
\<close>

theorem time_arithmetic:
  assumes "time_ok a" "time_ok b"
  shows "\<exists>c d. time_add a b = Inr c \<and> time_sub a b = Inr d
    \<and> ns c = saturate (ns time_min) (ns time_max) (ns a + ns b) \<and> ns d = saturate (ns time_min) (ns time_max) (ns a - ns b)
    \<and> (time_less a b \<longleftrightarrow> ns a < ns b) \<and> (time_less_eq a b \<longleftrightarrow> ns a \<le> ns b)"
  using time_add_spec[OF assms] time_sub_spec[OF assms] ns_less[OF assms] ns_less[OF assms(2,1)]
  unfolding less_time_def less_eq_time_def[symmetric] not_less[symmetric] by metis

theorem time_arithmetic_witness:
  "\<exists>c d. time_add (Time (- (2 ^ 63)) 999999999) (Time (- 1) 1) = Inr c \<and> time_sub (Time (- (2 ^ 63)) 999999999) (Time (- 1) 1) = Inr d
    \<and> ns c = ns time_min \<and> ns d = (1 - 2 ^ 63) * 1000000000 + 999999998"
  using time_arithmetic[of "Time (- (2 ^ 63)) 999999999" "Time (- 1) 1"] unfolding time_bounds
  by (auto simp: time_ok_def fits_i64_def ns_def saturate_def)

text \<open>
  C30: The conversions to a unit give the number of nanoseconds divided by it, rounded towards zero by the truncating ones and
  away from zero by the others, and the nearest number of 64 bits if that does not fit.
\<close>

theorem time_conversions:
  assumes "time_ok t"
  shows "to_nanoseconds t = Inr (sat64 (ns t))
    \<and> to_microseconds t = Inr (sat64 (div_away (ns t) 1000)) \<and> to_truncated_microseconds t = Inr (sat64 (ns t sdiv 1000))
    \<and> to_milliseconds t = Inr (sat64 (div_away (ns t) 1000000)) \<and> to_truncated_milliseconds t = Inr (sat64 (ns t sdiv 1000000))
    \<and> to_seconds t = Inr (sat64 (div_away (ns t) 1000000000)) \<and> to_truncated_seconds t = Inr (ns t sdiv 1000000000)"
  using to_units_spec[OF assms] to_seconds_spec[OF assms] by blast

theorem time_conversions_witness:
  "to_seconds (Time (- 3) 200000000) = Inr (- 3) \<and> to_truncated_milliseconds (Time (- 3) 200000001) = Inr (- 2799)
    \<and> to_nanoseconds (Time (- (2 ^ 63)) 0) = Inr (- (2 ^ 63))"
  using time_conversions[of "Time (- 3) 200000000"] time_conversions[of "Time (- 3) 200000001"] time_conversions[of "Time (- (2 ^ 63)) 0"]
  by (simp add: time_bounds time_ok_def fits_i64_def ns_def sat64_def saturate_def div_away_def signed_divide_int_def)

text \<open>
  A time survives the way through a \<open>timespec\<close>, and a number of nano-, micro- or milliseconds the way through a time.
\<close>

theorem time_round_trips:
  assumes "time_ok t" "fits_i64 v"
  shows "and_then (to_timespec t) (\<lambda>(tv_sec, tv_nsec). from_timespec tv_sec tv_nsec) = Inr t
    \<and> and_then (from_nanoseconds v) to_nanoseconds = Inr v \<and> and_then (from_microseconds v) to_microseconds = Inr v
    \<and> and_then (from_milliseconds v) to_milliseconds = Inr v"
  using timespec_round_trip[OF assms(1)] from_units_ok[OF assms(2)] sat64_fits[OF assms(2)]
  by (auto simp: to_units_spec div_away_mult)

theorem time_round_trips_witness:
  "and_then (to_timespec (Time (- 5) 7)) (\<lambda>(tv_sec, tv_nsec). from_timespec tv_sec tv_nsec) = Inr (Time (- 5) 7)
    \<and> and_then (from_microseconds (- 1)) to_microseconds = Inr (- 1)"
  using time_round_trips[of "Time (- 5) 7" "- 1"] by (simp add: time_ok_def fits_i64_def)



text \<open>Further back than that the remainder is negative, and the day of the week is not one.\<close>

theorem day_of_week_negative: "day_of_week 1 1 (- 1) = Inr 4294967295"
  by (simp add: day_of_week_def Let_def signed_divide_int_def signed_modulo_int_def)

end
