(* ===== verification/AK_Trie.thy ===== *)
theory AK_Trie
  imports Prelude "HOL-Library.AList" "HOL-Library.Sublist"
begin

text \<open>
  \<open>AK/Trie.h\<close>: a tree whose nodes are reached by a sequence of values and carry metadata. A reference to a node is the
  path to it. \<open>last_metadata\<close> is what the tree says about a path, the metadata of the last node on it; the lemmas give it
  after an insertion and after a change of a node.
\<close>

subsection \<open>The tree\<close>

datatype ('v, 'm) trie = Trie (m_value: 'v) (m_metadata: "'m option") (m_children: "('v \<times> ('v, 'm) trie) list")

text \<open>
  \<open>traverse_until_last_accessible_node\<close>: the iterator as it is left, which is the list of values not used, and the node.
  The node stands at the end of the values used, and that is how the operations below refer to it.
\<close>

fun traverse_until_last_accessible_node :: "('v, 'm) trie \<Rightarrow> 'v list \<Rightarrow> 'v list \<times> ('v, 'm) trie" where
  "traverse_until_last_accessible_node node [] = ([], node)"
| "traverse_until_last_accessible_node node (it # its) =
     (case map_of (m_children node) it of
        None \<Rightarrow> (it # its, node)
      | Some next_node \<Rightarrow> traverse_until_last_accessible_node next_node its)"

definition metadata_value :: "('v, 'm) trie \<Rightarrow> 'm result" where
  "metadata_value node = (case m_metadata node of None \<Rightarrow> Inl VerifyFailed | Some metadata \<Rightarrow> Inr metadata)"

definition set_metadata :: "('v, 'm) trie \<Rightarrow> 'm \<Rightarrow> ('v, 'm) trie" where
  "set_metadata node metadata = Trie (m_value node) (Some metadata) (m_children node)"

definition set_child :: "('v, 'm) trie \<Rightarrow> 'v \<Rightarrow> ('v, 'm) trie \<Rightarrow> ('v, 'm) trie" where
  "set_child node it child = Trie (m_value node) (m_metadata node) (AList.update it child (m_children node))"

text \<open>\<open>ensure_child\<close>: the child there is afterwards; its metadata are replaced if there are some.\<close>

definition ensure_child :: "('v, 'm) trie \<Rightarrow> 'v \<Rightarrow> 'm option \<Rightarrow> ('v, 'm) trie" where
  "ensure_child node it metadata =
     (case map_of (m_children node) it of
        None \<Rightarrow> Trie it metadata []
      | Some child \<Rightarrow> (case metadata of None \<Rightarrow> child | Some m \<Rightarrow> set_metadata child m))"

text \<open>A change of the node at the end of a path through the tree.\<close>

fun change_at :: "'v list \<Rightarrow> (('v, 'm) trie \<Rightarrow> ('v, 'm) trie) \<Rightarrow> ('v, 'm) trie \<Rightarrow> ('v, 'm) trie" where
  "change_at [] f node = f node"
| "change_at (it # its) f node =
     (case map_of (m_children node) it of
        None \<Rightarrow> node
      | Some child \<Rightarrow> set_child node it (change_at its f child))"

text \<open>The loop of \<open>insert\<close>, from the last node there is.\<close>

fun insert_loop :: "'v list \<Rightarrow> 'm \<Rightarrow> (('v, 'm) trie \<Rightarrow> 'v \<Rightarrow> 'm option) \<Rightarrow> ('v, 'm) trie \<Rightarrow> ('v, 'm) trie" where
  "insert_loop [] metadata provide_missing_metadata node = set_metadata node metadata"
| "insert_loop (it # its) metadata provide_missing_metadata node =
     set_child node it (insert_loop its metadata provide_missing_metadata
       (ensure_child node it (provide_missing_metadata node it)))"

definition trie_insert :: "'v list \<Rightarrow> 'm \<Rightarrow> (('v, 'm) trie \<Rightarrow> 'v \<Rightarrow> 'm option) \<Rightarrow> ('v, 'm) trie \<Rightarrow> ('v, 'm) trie" where
  "trie_insert its metadata provide_missing_metadata node =
     (let (rest, _) = traverse_until_last_accessible_node node its in
      change_at (take (length its - length rest) its) (insert_loop rest metadata provide_missing_metadata) node)"

definition trie_is_empty :: "('v, 'm) trie \<Rightarrow> bool" where
  "trie_is_empty node \<longleftrightarrow> m_children node = []"

definition trie_clear :: "('v, 'm) trie \<Rightarrow> ('v, 'm) trie" where
  "trie_clear node = Trie (m_value node) (m_metadata node) []"

fun deep_copy :: "('v, 'm) trie \<Rightarrow> ('v, 'm) trie" where
  "deep_copy (Trie v m children) = Trie v m (fold (\<lambda>(key, child) copy. AList.update key child copy) (map (\<lambda>(key, child). (key, deep_copy child)) children) [])"

subsection \<open>Well-formed trees\<close>

text \<open>The children of a node are a hash map: no key occurs twice.\<close>

fun trie_ok :: "('v, 'm) trie \<Rightarrow> bool" where
  "trie_ok (Trie v m children) \<longleftrightarrow> distinct (map fst children) \<and> (\<forall>(key, child) \<in> set children. trie_ok child)"

lemma trie_sel_set [simp]:
  "m_value (set_metadata n m) = m_value n" "m_metadata (set_metadata n m) = Some m" "m_children (set_metadata n m) = m_children n"
  "m_value (set_child n it c) = m_value n" "m_metadata (set_child n it c) = m_metadata n"
  "map_of (m_children (set_child n it c)) x = (if x = it then Some c else map_of (m_children n) x)"
  by (simp_all add: set_metadata_def set_child_def update_conv')

lemma trie_ok_iff: "trie_ok t \<longleftrightarrow> distinct (map fst (m_children t)) \<and> (\<forall>c \<in> snd ` set (m_children t). trie_ok c)"
  by (cases t) auto

lemma trie_ok_leaf [simp]: "trie_ok (Trie v m [])"
  by simp

lemma trie_ok_child: "trie_ok t \<Longrightarrow> map_of (m_children t) it = Some c \<Longrightarrow> trie_ok c"
  unfolding trie_ok_iff[of t] by (force dest: map_of_SomeD)

lemma trie_ok_set_metadata [simp]: "trie_ok (set_metadata t m) = trie_ok t"
  unfolding trie_ok_iff[of t] trie_ok_iff[of "set_metadata t m"] by simp

lemma trie_ok_set_child:
  assumes "trie_ok t" "trie_ok c"
  shows "trie_ok (set_child t it c)"
proof -
  have "snd ` set (AList.update it c xs) \<subseteq> insert c (snd ` set xs)" for xs by (induction xs) auto
  moreover have t: "distinct (map fst (m_children t))" "\<forall>c \<in> snd ` set (m_children t). trie_ok c" using assms(1) trie_ok_iff by blast+
  ultimately have "\<forall>x \<in> snd ` set (AList.update it c (m_children t)). trie_ok x" using assms(2) by blast
  then show ?thesis using distinct_update[OF t(1)] unfolding set_child_def trie_ok_iff[of "Trie _ _ _"] by simp
qed

lemma trie_ok_change_at: "trie_ok t \<Longrightarrow> (\<And>n. trie_ok n \<Longrightarrow> trie_ok (f n)) \<Longrightarrow> trie_ok (change_at its f t)"
  by (induction its f t rule: change_at.induct) (auto split: option.splits intro: trie_ok_set_child dest: trie_ok_child)

lemma trie_ok_ensure_child: "trie_ok t \<Longrightarrow> trie_ok (ensure_child t it m)"
  by (auto simp: ensure_child_def split: option.splits dest: trie_ok_child)

lemma trie_ok_insert_loop: "trie_ok t \<Longrightarrow> trie_ok (insert_loop its m provide t)"
  by (induction its m provide t rule: insert_loop.induct) (auto intro: trie_ok_set_child trie_ok_ensure_child)

lemma trie_ok_insert: "trie_ok t \<Longrightarrow> trie_ok (trie_insert its m provide t)"
  by (auto simp: trie_insert_def Let_def split: prod.splits intro: trie_ok_change_at trie_ok_insert_loop)

lemma trie_ok_clear [simp]: "trie_ok (trie_clear t)"
  by (simp add: trie_clear_def)

lemma fold_update_distinct:
  "distinct (map fst (acc @ xs)) \<Longrightarrow> fold (\<lambda>(key, child) copy. AList.update key child copy) xs acc = acc @ xs"
proof (induction xs arbitrary: acc)
  case (Cons x xs)
  obtain k v where x: "x = (k, v)" by (cases x)
  have "k \<notin> fst ` set acc" using Cons.prems x by auto
  then have "AList.update k v acc = acc @ [(k, v)]" by (induction acc) auto
  then show ?case using Cons x by simp
qed simp

text \<open>\<open>deep_copy\<close> makes an equal tree.\<close>

lemma deep_copy_eq: "trie_ok t \<Longrightarrow> deep_copy t = t"
proof (induction t rule: deep_copy.induct)
  case (1 v m children)
  have "map (\<lambda>(key, child). (key, deep_copy child)) children = children"
    by (rule map_idI) (use 1 in \<open>auto simp: case_prod_beta\<close>)
  then show ?case using 1(2) fold_update_distinct[of "[]" children] by simp
qed

subsection \<open>What the tree says about a path\<close>

text \<open>The metadata of the last node on a path, which are those that hold for the path.\<close>

definition last_metadata :: "('v, 'm) trie \<Rightarrow> 'v list \<Rightarrow> 'm option" where
  "last_metadata t its = m_metadata (snd (traverse_until_last_accessible_node t its))"

definition has_node :: "('v, 'm) trie \<Rightarrow> 'v list \<Rightarrow> bool" where
  "has_node t its \<longleftrightarrow> fst (traverse_until_last_accessible_node t its) = []"

lemma last_metadata_simps [simp]:
  "last_metadata t [] = m_metadata t"
  "last_metadata t (it # its) = (case map_of (m_children t) it of None \<Rightarrow> m_metadata t | Some c \<Rightarrow> last_metadata c its)"
  by (simp_all add: last_metadata_def split: option.splits)

lemma has_node_simps [simp]:
  "has_node t []"
  "has_node t (it # its) = (case map_of (m_children t) it of None \<Rightarrow> False | Some c \<Rightarrow> has_node c its)"
  by (simp_all add: has_node_def split: option.splits)

lemma traverse_parts:
  "traverse_until_last_accessible_node t its = (rest, node) \<Longrightarrow>
    \<exists>used. its = used @ rest \<and> has_node t used \<and> traverse_until_last_accessible_node t used = ([], node)
      \<and> (rest = [] \<or> map_of (m_children node) (hd rest) = None)"
proof (induction t its rule: traverse_until_last_accessible_node.induct)
  case (2 t it its)
  show ?case
  proof (cases "map_of (m_children t) it")
    case None
    then show ?thesis using 2(2) by auto
  next
    case (Some child)
    then obtain used where "its = used @ rest" "has_node child used" "traverse_until_last_accessible_node child used = ([], node)"
      "rest = [] \<or> map_of (m_children node) (hd rest) = None"
      using 2 by auto
    then show ?thesis using Some by (intro exI[of _ "it # used"]) simp
  qed
qed simp

lemma change_at_last:
  assumes "traverse_until_last_accessible_node t used = ([], n)"
  shows "last_metadata (change_at used f t) q = (if prefix used q then last_metadata (f n) (drop (length used) q) else last_metadata t q)"
  using assms
proof (induction used f t arbitrary: q rule: change_at.induct)
  case (2 it used f t)
  then show ?case by (cases q) (auto split: option.splits)
qed simp

text \<open>
  Inserting a path below a node that does not have its first value: the nodes between get metadata that agree, by the
  function \<open>g\<close>, with those of the node above.
\<close>

definition inherits :: "('m \<Rightarrow> 'p) \<Rightarrow> (('v, 'm) trie \<Rightarrow> 'v \<Rightarrow> 'm option) \<Rightarrow> bool" where
  "inherits g provide \<longleftrightarrow> (\<forall>node it m. m_metadata node = Some m \<longrightarrow> map_option g (provide node it) = Some (g m))"

lemma insert_loop_last:
  assumes "inherits g provide"
    and "m_metadata n = Some m" "rest = [] \<or> map_of (m_children n) (hd rest) = None"
  shows "map_option g (last_metadata (insert_loop rest new provide n) q) =
    (if prefix rest q \<and> rest \<noteq> [] \<or> rest = [] \<and> last_metadata n q = m_metadata n \<and> (q = [] \<or> map_of (m_children n) (hd q) = None) then Some (g new) else map_option g (last_metadata n q))"
  using assms(2,3)
proof (induction rest arbitrary: n m q)
  case Nil
  then show ?case by (cases q) (auto split: option.splits)
next
  case (Cons it its)
  then have none: "map_of (m_children n) it = None" by simp
  then have c: "ensure_child n it (provide n it) = Trie it (provide n it) []" by (simp add: ensure_child_def)
  obtain m' where m': "provide n it = Some m'" "g m' = g m" using assms(1) Cons.prems(1) unfolding inherits_def by blast
  let ?n = "Trie it (provide n it) []"
  have IH: "map_option g (last_metadata (insert_loop its new provide ?n) r) = (if prefix its r then Some (g new) else Some (g m))" for r
    using Cons.IH[of ?n m' r] m' by (cases r) auto
  show ?case
  proof (cases q)
    case Nil
    then show ?thesis by simp
  next
    case (Cons x xs)
    then show ?thesis using none c IH[of xs] \<open>m_metadata n = Some m\<close> by (cases "x = it") (simp_all split: option.splits)
  qed
qed

lemma trie_insert_last:
  assumes "inherits g provide"
    and "traverse_until_last_accessible_node t its = (rest, n)" "m_metadata n = Some m" "rest \<noteq> []"
  shows "map_option g (last_metadata (trie_insert its new provide t) q) = (if prefix its q then Some (g new) else map_option g (last_metadata t q))"
proof -
  obtain used where u: "its = used @ rest" "traverse_until_last_accessible_node t used = ([], n)" "map_of (m_children n) (hd rest) = None"
    using traverse_parts[OF assms(2)] assms(4) by blast
  have i: "trie_insert its new provide t = change_at used (insert_loop rest new provide) t"
    using assms(2) u(1) by (simp add: trie_insert_def)
  show ?thesis
  proof (cases "prefix used q")
    case True
    then obtain r where r: "q = used @ r" by (auto elim: prefixE)
    have "last_metadata t (used @ r) = last_metadata n r" using u(2)
      by (induction t used rule: traverse_until_last_accessible_node.induct) (auto split: option.splits)
    then show ?thesis using insert_loop_last[OF assms(1,3), of rest new r] u(3) assms(4) r
      unfolding i change_at_last[OF u(2)] by (simp add: u(1))
  next
    case False
    then have "\<not> prefix its q" using u(1) by (metis append_prefixD)
    then show ?thesis using False unfolding i change_at_last[OF u(2)] by simp
  qed
qed

end
