(* ===== verification/Kernel_Process.thy ===== *)
theory Kernel_Process
  imports AK_Trie AK_StringUtils
begin

text \<open>
  The part of \<open>Kernel/Process.h\<close> that decides what a process may do: its user and group ids, its promises, its veil and its
  directories, with the system calls that change the ids, the groups, the mask and the promises (\<open>Kernel/Syscalls\<close>), and
  what \<open>fork\<close> and \<open>execve\<close> do to them. \<open>process_steps\<close> are sequences of these; ids and promises are shown to be confined
  along them.
\<close>

unbundle bit_operations_syntax

subsection \<open>Results of system calls\<close>

datatype errno = EPERM | ENOENT | EIO | E2BIG | EBADF | ENOMEM | EACCES | EFAULT | EBUSY | EEXIST | EXDEV | ENODEV | ENOTDIR | EISDIR
  | EINVAL | EROFS | ENAMETOOLONG | ELOOP | ENOTEMPTY | ENOTSUP | ENOTIMPL | EDIRINTOSELF | ENXIO | ESRCH | EMFILE | ESPIPE | EOVERFLOW | EINTR | EAGAIN | ENOTBLK

text \<open>
  A call returns a value (\<open>KResultOr\<close>), returns an error, ends its process because a promise is missing, or fails an
  assertion of the kernel.
\<close>

datatype 'a outcome = Returns 'a | Fails errno | Killed | Panics fault

text \<open>To go on with a returned value, and else to return what came out.\<close>

fun proceed :: "'a outcome \<times> 's \<Rightarrow> ('a \<Rightarrow> 's \<Rightarrow> 'b outcome \<times> 's) \<Rightarrow> 'b outcome \<times> 's" where
  "proceed (Returns x, s) rest = rest x s"
| "proceed (Fails e, s) rest = (Fails e, s)"
| "proceed (Killed, s) rest = (Killed, s)"
| "proceed (Panics f, s) rest = (Panics f, s)"

subsection \<open>Processes\<close>

type_synonym uid = "32 word"
type_synonym gid = "32 word"
type_synonym mode = "16 word"
type_synonym inode_id = "nat \<times> nat"

datatype pledge = P_stdio | P_rpath | P_wpath | P_cpath | P_dpath | P_inet | P_id | P_proc | P_ptrace | P_exec | P_unix | P_recvfd
  | P_sendfd | P_fattr | P_tty | P_chown | P_chroot | P_thread | P_video | P_accept | P_settime | P_sigaction | P_setkeymap
  | P_prot_exec | P_map_fixed | P_getkeymap

definition pledges :: "(string \<times> pledge) list" where
  "pledges = [(''stdio'', P_stdio), (''rpath'', P_rpath), (''wpath'', P_wpath), (''cpath'', P_cpath), (''dpath'', P_dpath),
    (''inet'', P_inet), (''id'', P_id), (''proc'', P_proc), (''ptrace'', P_ptrace), (''exec'', P_exec), (''unix'', P_unix),
    (''recvfd'', P_recvfd), (''sendfd'', P_sendfd), (''fattr'', P_fattr), (''tty'', P_tty), (''chown'', P_chown),
    (''chroot'', P_chroot), (''thread'', P_thread), (''video'', P_video), (''accept'', P_accept), (''settime'', P_settime),
    (''sigaction'', P_sigaction), (''setkeymap'', P_setkeymap), (''prot_exec'', P_prot_exec), (''map_fixed'', P_map_fixed),
    (''getkeymap'', P_getkeymap)]"

definition pledge_bit :: "pledge \<Rightarrow> 32 word" where
  "pledge_bit x = push_bit (length (takeWhile (\<lambda>entry. snd entry \<noteq> x) pledges)) 1"

datatype veil_state = VeilNone | VeilDropped | VeilLocked

record unveil_metadata =
  full_path :: string
  permissions :: "32 word"
  explicitly_unveiled :: bool
  unveil_inherited_from_root :: bool

type_synonym unveil_node = "(string, unveil_metadata) trie"

datatype custody = Custody (custody_parent: "custody option") (custody_name: string) (custody_inode: inode_id) (custody_mount_flags: "32 word")

record process =
  m_uid :: uid
  m_euid :: uid
  m_suid :: uid
  m_gid :: gid
  m_egid :: gid
  m_sgid :: gid
  m_extra_gids :: "gid list"
  m_dumpable :: bool
  m_has_promises :: bool
  m_promises :: "32 word"
  m_has_execpromises :: bool
  m_execpromises :: "32 word"
  m_umask :: mode
  m_veil_state :: veil_state
  m_unveiled_paths :: unveil_node
  m_cwd :: "custody option"
  m_root_directory :: "custody option"

text \<open>\<open>Process::Process\<close> and the initial values of the members.\<close>

definition new_process :: "uid \<Rightarrow> gid \<Rightarrow> custody option \<Rightarrow> process" where
  "new_process uid gid cwd =
     \<lparr>m_uid = uid, m_euid = uid, m_suid = uid, m_gid = gid, m_egid = gid, m_sgid = gid, m_extra_gids = [], m_dumpable = False,
      m_has_promises = False, m_promises = 0, m_has_execpromises = False, m_execpromises = 0, m_umask = 0x12,
      m_veil_state = VeilNone,
      m_unveiled_paths = Trie ''/'' (Some \<lparr>full_path = ''/'', permissions = 0, explicitly_unveiled = False, unveil_inherited_from_root = True\<rparr>) [],
      m_cwd = cwd, m_root_directory = None\<rparr>"

definition is_superuser :: "process \<Rightarrow> bool" where
  "is_superuser p \<longleftrightarrow> m_euid p = 0"

definition in_group :: "process \<Rightarrow> gid \<Rightarrow> bool" where
  "in_group p gid \<longleftrightarrow> m_gid p = gid \<or> gid \<in> set (m_extra_gids p)"

definition has_promised :: "process \<Rightarrow> pledge \<Rightarrow> bool" where
  "has_promised p x \<longleftrightarrow> m_promises p AND pledge_bit x \<noteq> 0"

definition set_dumpable :: "bool \<Rightarrow> process \<Rightarrow> process" where
  "set_dumpable dumpable p = (if dumpable = m_dumpable p then p else p\<lparr>m_dumpable := dumpable\<rparr>)"

text \<open>\<open>REQUIRE_PROMISE\<close> in front of the rest of a call.\<close>

definition require_promise :: "pledge \<Rightarrow> (process \<Rightarrow> 'a outcome \<times> process) \<Rightarrow> process \<Rightarrow> 'a outcome \<times> process" where
  "require_promise x rest p = (if m_has_promises p \<and> \<not> has_promised p x then (Killed, p) else rest p)"

subsection \<open>User and group ids\<close>

definition sys_seteuid :: "uid \<Rightarrow> process \<Rightarrow> int outcome \<times> process" where
  "sys_seteuid new_euid = require_promise P_id (\<lambda>p.
     if new_euid \<noteq> m_uid p \<and> new_euid \<noteq> m_suid p \<and> \<not> is_superuser p then (Fails EPERM, p)
     else
       let p = (if m_euid p \<noteq> new_euid then set_dumpable False p else p) in
       (Returns 0, p\<lparr>m_euid := new_euid\<rparr>))"

definition sys_setegid :: "gid \<Rightarrow> process \<Rightarrow> int outcome \<times> process" where
  "sys_setegid new_egid = require_promise P_id (\<lambda>p.
     if new_egid \<noteq> m_gid p \<and> new_egid \<noteq> m_sgid p \<and> \<not> is_superuser p then (Fails EPERM, p)
     else
       let p = (if m_egid p \<noteq> new_egid then set_dumpable False p else p) in
       (Returns 0, p\<lparr>m_egid := new_egid\<rparr>))"

definition sys_setuid :: "uid \<Rightarrow> process \<Rightarrow> int outcome \<times> process" where
  "sys_setuid new_uid = require_promise P_id (\<lambda>p.
     if new_uid \<noteq> m_uid p \<and> new_uid \<noteq> m_euid p \<and> \<not> is_superuser p then (Fails EPERM, p)
     else
       let p = (if m_euid p \<noteq> new_uid then set_dumpable False p else p) in
       (Returns 0, p\<lparr>m_uid := new_uid, m_euid := new_uid, m_suid := new_uid\<rparr>))"

definition sys_setgid :: "gid \<Rightarrow> process \<Rightarrow> int outcome \<times> process" where
  "sys_setgid new_gid = require_promise P_id (\<lambda>p.
     if new_gid \<noteq> m_gid p \<and> new_gid \<noteq> m_egid p \<and> \<not> is_superuser p then (Fails EPERM, p)
     else
       let p = (if m_egid p \<noteq> new_gid then set_dumpable False p else p) in
       (Returns 0, p\<lparr>m_gid := new_gid, m_egid := new_gid, m_sgid := new_gid\<rparr>))"

definition sys_setreuid :: "uid \<Rightarrow> uid \<Rightarrow> process \<Rightarrow> int outcome \<times> process" where
  "sys_setreuid new_ruid new_euid = require_promise P_id (\<lambda>p.
     let new_ruid = (if new_ruid = - 1 then m_uid p else new_ruid);
         new_euid = (if new_euid = - 1 then m_euid p else new_euid);
         ok = (\<lambda>id. id = m_uid p \<or> id = m_euid p \<or> id = m_suid p) in
     if \<not> ok new_ruid \<or> \<not> ok new_euid then (Fails EPERM, p)
     else if new_ruid < - 1 \<or> new_euid < - 1 then (Fails EINVAL, p)
     else
       let p = (if m_euid p \<noteq> new_euid then set_dumpable False p else p) in
       (Returns 0, p\<lparr>m_uid := new_ruid, m_euid := new_euid\<rparr>))"

definition sys_setresuid :: "uid \<Rightarrow> uid \<Rightarrow> uid \<Rightarrow> process \<Rightarrow> int outcome \<times> process" where
  "sys_setresuid new_ruid new_euid new_suid = require_promise P_id (\<lambda>p.
     let new_ruid = (if new_ruid = - 1 then m_uid p else new_ruid);
         new_euid = (if new_euid = - 1 then m_euid p else new_euid);
         new_suid = (if new_suid = - 1 then m_suid p else new_suid);
         ok = (\<lambda>id. id = m_uid p \<or> id = m_euid p \<or> id = m_suid p) in
     if (\<not> ok new_ruid \<or> \<not> ok new_euid \<or> \<not> ok new_suid) \<and> \<not> is_superuser p then (Fails EPERM, p)
     else
       let p = (if m_euid p \<noteq> new_euid then set_dumpable False p else p) in
       (Returns 0, p\<lparr>m_uid := new_ruid, m_euid := new_euid, m_suid := new_suid\<rparr>))"

definition sys_setresgid :: "gid \<Rightarrow> gid \<Rightarrow> gid \<Rightarrow> process \<Rightarrow> int outcome \<times> process" where
  "sys_setresgid new_rgid new_egid new_sgid = require_promise P_id (\<lambda>p.
     let new_rgid = (if new_rgid = - 1 then m_gid p else new_rgid);
         new_egid = (if new_egid = - 1 then m_egid p else new_egid);
         new_sgid = (if new_sgid = - 1 then m_sgid p else new_sgid);
         ok = (\<lambda>id. id = m_gid p \<or> id = m_egid p \<or> id = m_sgid p) in
     if (\<not> ok new_rgid \<or> \<not> ok new_egid \<or> \<not> ok new_sgid) \<and> \<not> is_superuser p then (Fails EPERM, p)
     else
       let p = (if m_egid p \<noteq> new_egid then set_dumpable False p else p) in
       (Returns 0, p\<lparr>m_gid := new_rgid, m_egid := new_egid, m_sgid := new_sgid\<rparr>))"

text \<open>
  \<open>user_gids\<close> is what the copy from the user's memory gives. The two vectors may fail to grow, and the unique ids come in
  the order of a hash table, which is an argument.
\<close>

definition sys_setgroups :: "bool \<Rightarrow> bool \<Rightarrow> (gid list \<Rightarrow> gid list) \<Rightarrow> int \<Rightarrow> gid list option \<Rightarrow> process \<Rightarrow> int outcome \<times> process" where
  "sys_setgroups new_fits extra_fits table_order count user_gids = require_promise P_id (\<lambda>p.
     if count < 0 then (Fails EINVAL, p)
     else if \<not> is_superuser p then (Fails EPERM, p)
     else if count = 0 then (Returns 0, p\<lparr>m_extra_gids := []\<rparr>)
     else if \<not> new_fits then (Fails ENOMEM, p)
     else case user_gids of
         None \<Rightarrow> (Fails EFAULT, p)
       | Some new_extra_gids \<Rightarrow>
           let unique_extra_gids = table_order (filter (\<lambda>extra_gid. extra_gid \<noteq> m_gid p) new_extra_gids) in
           if \<not> extra_fits then (Fails ENOMEM, p)
           else (Returns 0, p\<lparr>m_extra_gids := filter (\<lambda>extra_gid. extra_gid \<noteq> m_gid p) unique_extra_gids\<rparr>))"

definition sys_umask :: "mode \<Rightarrow> process \<Rightarrow> mode outcome \<times> process" where
  "sys_umask new_mask = require_promise P_stdio (\<lambda>p. (Returns (m_umask p), p\<lparr>m_umask := new_mask AND 0x1ff\<rparr>))"

subsection \<open>Promises\<close>

text \<open>A string argument: no pointer, or a length and what the copy from the user's memory gives.\<close>

datatype string_argument = NullString nat | UserString nat "string option"

fun argument_length :: "string_argument \<Rightarrow> nat" where
  "argument_length (NullString n) = n"
| "argument_length (UserString n _) = n"

fun parse_pledge_parts :: "string list \<Rightarrow> 32 word \<Rightarrow> 32 word option" where
  "parse_pledge_parts [] promises = Some promises"
| "parse_pledge_parts (part # parts) promises =
     (case map_of pledges part of
        None \<Rightarrow> None
      | Some x \<Rightarrow> parse_pledge_parts parts (promises OR pledge_bit x))"

definition parse_pledge :: "string \<Rightarrow> 32 word option result" where
  "parse_pledge pledge_spec = and_then (split_view pledge_spec (CHR '' '') False) (\<lambda>parts. Inr (parse_pledge_parts parts 0))"

text \<open>The string an argument stands for: null if there is no pointer.\<close>

fun copied_argument :: "string_argument \<Rightarrow> string option outcome" where
  "copied_argument (NullString _) = Returns None"
| "copied_argument (UserString _ None) = Fails EFAULT"
| "copied_argument (UserString _ (Some s)) = Returns (Some s)"

definition pledge_promises :: "string option \<Rightarrow> process \<Rightarrow> unit outcome \<times> process" where
  "pledge_promises promises p =
     (case promises of
        None \<Rightarrow> (Returns (), p)
      | Some spec \<Rightarrow>
          (case parse_pledge spec of
             Inl fault \<Rightarrow> (Panics fault, p)
           | Inr None \<Rightarrow> (Fails EINVAL, p)
           | Inr (Some new_promises) \<Rightarrow>
               if m_promises p \<noteq> 0 \<and> (new_promises = 0 \<or> new_promises AND NOT (m_promises p) \<noteq> 0) then (Fails EPERM, p)
               else (Returns (), p\<lparr>m_has_promises := True, m_promises := new_promises\<rparr>)))"

definition pledge_execpromises :: "string option \<Rightarrow> process \<Rightarrow> unit outcome \<times> process" where
  "pledge_execpromises execpromises p =
     (case execpromises of
        None \<Rightarrow> (Returns (), p)
      | Some spec \<Rightarrow>
          (case parse_pledge spec of
             Inl fault \<Rightarrow> (Panics fault, p)
           | Inr None \<Rightarrow> (Fails EINVAL, p)
           | Inr (Some new_execpromises) \<Rightarrow>
               if m_execpromises p \<noteq> 0 \<and> (new_execpromises = 0 \<or> new_execpromises AND NOT (m_execpromises p) \<noteq> 0) then (Fails EPERM, p)
               else (Returns (), p\<lparr>m_has_execpromises := True, m_execpromises := new_execpromises\<rparr>)))"

definition sys_pledge :: "(string_argument \<times> string_argument) option \<Rightarrow> process \<Rightarrow> int outcome \<times> process" where
  "sys_pledge params p =
     (case params of
        None \<Rightarrow> (Fails EFAULT, p)
      | Some (promises, execpromises) \<Rightarrow>
          if argument_length promises > 1024 \<or> argument_length execpromises > 1024 then (Fails E2BIG, p)
          else
            proceed (copied_argument promises, p) (\<lambda>promises p.
            proceed (copied_argument execpromises, p) (\<lambda>execpromises p.
            proceed (pledge_promises promises p) (\<lambda>_ p.
            proceed (pledge_execpromises execpromises p) (\<lambda>_ p. (Returns 0, p))))))"

subsection \<open>New processes and new programs\<close>

text \<open>The child of \<open>sys$fork\<close>, if its first thread could be made.\<close>

definition sys_fork :: "bool \<Rightarrow> process \<Rightarrow> process outcome \<times> process" where
  "sys_fork child_first_thread = require_promise P_proc (\<lambda>p.
     if \<not> child_first_thread then (Fails ENOMEM, p)
     else
       let child = new_process (m_uid p) (m_gid p) (m_cwd p);
           child = child\<lparr>m_root_directory := m_root_directory p, m_veil_state := m_veil_state p,
             m_unveiled_paths := deep_copy (m_unveiled_paths p)\<rparr>;
           child = child\<lparr>m_promises := m_promises p, m_execpromises := m_execpromises p, m_has_promises := m_has_promises p,
             m_has_execpromises := m_has_execpromises p, m_extra_gids := m_extra_gids p, m_umask := m_umask p, m_dumpable := m_dumpable p\<rparr> in
       (Returns child, p))"

text \<open>
  What \<open>do_exec\<close> does to this state once it commits to the new program: its owner, group and set-id bits, and whether its
  mount ignores these bits.
\<close>

definition do_exec :: "bool \<Rightarrow> bool \<Rightarrow> bool \<Rightarrow> uid \<Rightarrow> gid \<Rightarrow> process \<Rightarrow> process" where
  "do_exec nosuid is_setuid is_setgid uid gid p =
     (let p1 = (if \<not> nosuid \<and> is_setuid then p\<lparr>m_euid := uid, m_suid := uid\<rparr> else p);
          p2 = (if \<not> nosuid \<and> is_setgid then p1\<lparr>m_egid := gid, m_sgid := gid\<rparr> else p1);
          executable_is_setid = (\<not> nosuid \<and> (is_setuid \<or> is_setgid));
          p3 = set_dumpable (\<not> executable_is_setid) p2;
          p4 = p3\<lparr>m_veil_state := VeilNone, m_unveiled_paths := trie_clear (m_unveiled_paths p3)\<rparr>;
          p5 = p4\<lparr>m_promises := m_execpromises p4, m_has_promises := m_has_execpromises p4\<rparr> in
      p5\<lparr>m_execpromises := 0, m_has_execpromises := False\<rparr>)"

subsection \<open>Sequences of calls\<close>

text \<open>
  One step of a process or from a process to its child: a call that changes ids, groups, promises or the mask; a fork,
  whose child goes on; and, if \<open>execs\<close> says so, a new program that has no set-id bits or is mounted without them.
\<close>

inductive process_step :: "bool \<Rightarrow> process \<Rightarrow> process \<Rightarrow> bool" where
  Seteuid: "sys_seteuid u p = (r, q) \<Longrightarrow> process_step execs p q"
| Setegid: "sys_setegid g p = (r, q) \<Longrightarrow> process_step execs p q"
| Setuid: "sys_setuid u p = (r, q) \<Longrightarrow> process_step execs p q"
| Setgid: "sys_setgid g p = (r, q) \<Longrightarrow> process_step execs p q"
| Setreuid: "sys_setreuid u v p = (r, q) \<Longrightarrow> process_step execs p q"
| Setresuid: "sys_setresuid u v w p = (r, q) \<Longrightarrow> process_step execs p q"
| Setresgid: "sys_setresgid g h k p = (r, q) \<Longrightarrow> process_step execs p q"
| Setgroups: "sys_setgroups a b order count gids p = (r, q) \<Longrightarrow> process_step execs p q"
| Umask: "sys_umask m p = (r', q) \<Longrightarrow> process_step execs p q"
| Pledge: "sys_pledge params p = (r, q) \<Longrightarrow> process_step execs p q"
| Fork: "sys_fork t p = (Returns q, p') \<Longrightarrow> process_step execs p q"
| Exec: "execs \<Longrightarrow> nosuid \<or> \<not> is_setuid \<and> \<not> is_setgid \<Longrightarrow> do_exec nosuid is_setuid is_setgid u g p = q \<Longrightarrow> process_step execs p q"

inductive process_steps :: "bool \<Rightarrow> process \<Rightarrow> process \<Rightarrow> bool" where
  Stay: "process_steps execs p p"
| Step: "process_steps execs p q \<Longrightarrow> process_step execs q r \<Longrightarrow> process_steps execs p r"

definition uids :: "process \<Rightarrow> uid set" where
  "uids p = {m_uid p, m_euid p, m_suid p}"

definition gids :: "process \<Rightarrow> gid set" where
  "gids p = {m_gid p, m_egid p, m_sgid p} \<union> set (m_extra_gids p)"

named_theorems process_calls

declare sys_seteuid_def [process_calls] sys_setegid_def [process_calls] sys_setuid_def [process_calls] sys_setgid_def [process_calls]
  sys_setreuid_def [process_calls] sys_setresuid_def [process_calls] sys_setresgid_def [process_calls]
  sys_umask_def [process_calls] require_promise_def [process_calls] set_dumpable_def [process_calls] Let_def [process_calls]

lemma set_dumpable_sel [simp]:
  "m_uid (set_dumpable d p) = m_uid p" "m_euid (set_dumpable d p) = m_euid p" "m_suid (set_dumpable d p) = m_suid p"
  "m_gid (set_dumpable d p) = m_gid p" "m_egid (set_dumpable d p) = m_egid p" "m_sgid (set_dumpable d p) = m_sgid p"
  "m_extra_gids (set_dumpable d p) = m_extra_gids p" "m_promises (set_dumpable d p) = m_promises p"
  "m_has_promises (set_dumpable d p) = m_has_promises p" "m_execpromises (set_dumpable d p) = m_execpromises p"
  "m_has_execpromises (set_dumpable d p) = m_has_execpromises p" "m_veil_state (set_dumpable d p) = m_veil_state p"
  "m_unveiled_paths (set_dumpable d p) = m_unveiled_paths p"
  by (simp_all add: set_dumpable_def)

lemma parse_pledge_total: "\<exists>x. parse_pledge spec = Inr x"
  by (simp add: parse_pledge_def split_view_spec)

lemma pledge_promises_effect:
  assumes "pledge_promises promises p = (r, q)"
  shows "q = p \<or> (\<exists>new. q = p\<lparr>m_has_promises := True, m_promises := new\<rparr> \<and> (m_promises p = 0 \<or> new \<noteq> 0 \<and> new AND NOT (m_promises p) = 0))"
  using assms by (auto simp: pledge_promises_def split: option.splits if_splits sum.splits)

lemma pledge_execpromises_effect:
  assumes "pledge_execpromises promises p = (r, q)"
  shows "q = p \<or> (\<exists>new. q = p\<lparr>m_has_execpromises := True, m_execpromises := new\<rparr> \<and> (m_execpromises p = 0 \<or> new \<noteq> 0 \<and> new AND NOT (m_execpromises p) = 0))"
  using assms by (auto simp: pledge_execpromises_def split: option.splits if_splits sum.splits)

text \<open>What a pledge does: nothing, or the first of its two parts, or both.\<close>

lemma pledge_effect:
  assumes "sys_pledge params p = (r, q)"
  shows "\<exists>a b. (q = p \<or> (\<exists>r'. pledge_promises a p = (r', q)) \<or> (\<exists>r' p' r''. pledge_promises a p = (r', p') \<and> pledge_execpromises b p' = (r'', q)))"
proof (cases params)
  case None
  then show ?thesis using assms by (simp add: sys_pledge_def)
next
  case (Some args)
  obtain x y where xy: "args = (x, y)" by (cases args)
  show ?thesis
  proof (cases "argument_length x > 1024 \<or> argument_length y > 1024")
    case True
    then show ?thesis using assms Some xy by (simp add: sys_pledge_def)
  next
    case False
    obtain a where a: "copied_argument x = Fails EFAULT \<or> copied_argument x = Returns a" by (cases x rule: copied_argument.cases) auto
    obtain b where b: "copied_argument y = Fails EFAULT \<or> copied_argument y = Returns b" by (cases y rule: copied_argument.cases) auto
    obtain r1 p1 where p1: "pledge_promises a p = (r1, p1)" by (cases "pledge_promises a p")
    obtain r2 p2 where p2: "pledge_execpromises b p1 = (r2, p2)" by (cases "pledge_execpromises b p1")
    have "q = p \<or> q = p1 \<or> q = p2" using assms Some xy False a b p1 p2 by (cases r1; cases r2) (auto simp: sys_pledge_def)
    then show ?thesis using p1 p2 by blast
  qed
qed

lemma pledge_ids:
  assumes "sys_pledge params p = (r, q)"
  shows "uids q = uids p \<and> gids q = gids p"
proof -
  have 1: "uids p2 = uids p1 \<and> gids p2 = gids p1" if "pledge_promises a p1 = (r', p2)" for a r' p1 p2
    using pledge_promises_effect[OF that] by (auto simp: uids_def gids_def)
  have 2: "uids p2 = uids p1 \<and> gids p2 = gids p1" if "pledge_execpromises a p1 = (r', p2)" for a r' p1 p2
    using pledge_execpromises_effect[OF that] by (auto simp: uids_def gids_def)
  from pledge_effect[OF assms] show ?thesis using 1 2 by metis
qed

lemma step_confined:
  assumes "process_step execs p q" "\<not> is_superuser p"
  shows "uids q \<subseteq> uids p \<and> gids q \<subseteq> gids p"
  using assms
proof (induction rule: process_step.induct)
  case (Pledge params p r q)
  then show ?case using pledge_ids by blast
next
  case (Setgroups a b order count gids p r q)
  then show ?case by (auto simp: sys_setgroups_def require_promise_def split: if_splits)
next
  case (Fork t p q p')
  then show ?case by (auto simp: sys_fork_def require_promise_def Let_def new_process_def uids_def gids_def split: if_splits)
next
  case (Exec nosuid is_setuid is_setgid u g p q)
  then show ?case by (auto simp: do_exec_def Let_def uids_def gids_def)
qed (auto simp: process_calls uids_def gids_def is_superuser_def split: if_splits)

lemma steps_confined:
  assumes "process_steps execs p q" "0 \<notin> uids p"
  shows "uids q \<subseteq> uids p \<and> gids q \<subseteq> gids p"
  using assms
proof (induction rule: process_steps.induct)
  case (Step execs p q r)
  then have "\<not> is_superuser q" by (auto simp: is_superuser_def uids_def)
  then show ?case using step_confined[OF Step(2)] Step by blast
qed simp

subsection \<open>Promises only shrink\<close>

definition within :: "32 word \<Rightarrow> 32 word \<Rightarrow> bool" where
  "within new old \<longleftrightarrow> new AND NOT old = 0"

lemma within_iff: "within new old \<longleftrightarrow> (\<forall>n < 32. bit new n \<longrightarrow> bit old n)"
  by (auto simp: within_def bit_eq_iff bit_simps)

lemma within_refl [simp]: "within w w"
  by (simp add: within_iff)

lemma within_trans: "within a b \<Longrightarrow> within b c \<Longrightarrow> within a c"
  by (auto simp: within_iff)

lemma within_AND: "within a b \<Longrightarrow> a AND w \<noteq> 0 \<Longrightarrow> b AND w \<noteq> 0"
  unfolding within_iff by (auto simp: bit_eq_iff bit_simps)

definition bound_by :: "process \<Rightarrow> process \<Rightarrow> bool" where
  "bound_by p q \<longleftrightarrow> m_has_promises q \<and> m_promises q \<noteq> 0 \<and> within (m_promises q) (m_promises p)"

lemma pledge_bound:
  assumes "sys_pledge params p = (r, q)" "m_has_promises p" "m_promises p \<noteq> 0"
  shows "bound_by p q"
proof -
  have 1: "bound_by p p2" if "pledge_promises a p1 = (r', p2)" "bound_by p p1" for a r' p1 p2
    using pledge_promises_effect[OF that(1)] that(2) unfolding within_def[symmetric] by (auto simp: bound_by_def intro: within_trans)
  have 2: "bound_by p p2" if "pledge_execpromises a p1 = (r', p2)" "bound_by p p1" for a r' p1 p2
    using pledge_execpromises_effect[OF that(1)] that(2) by (auto simp: bound_by_def)
  have "bound_by p p" using assms by (simp add: bound_by_def)
  then show ?thesis using pledge_effect[OF assms(1)] 1 2 by metis
qed

lemma step_bound:
  assumes "process_step False p q" "m_has_promises p" "m_promises p \<noteq> 0"
  shows "bound_by p q"
  using assms
proof (induction False p q rule: process_step.induct)
  case (Pledge params p r q)
  then show ?case using pledge_bound by blast
next
  case (Setgroups a b order count gids p r q)
  then show ?case by (auto simp: sys_setgroups_def require_promise_def Let_def bound_by_def split: if_splits option.splits)
next
  case (Fork t p q p')
  then show ?case by (auto simp: sys_fork_def require_promise_def Let_def new_process_def bound_by_def split: if_splits)
qed (auto simp: process_calls bound_by_def split: if_splits)

lemma steps_bound:
  assumes "process_steps False p q" "m_has_promises p" "m_promises p \<noteq> 0"
  shows "bound_by p q"
  using assms
proof (induction False p q rule: process_steps.induct)
  case (Step p q r)
  then have "bound_by p q" by simp
  moreover from this have "bound_by q r" using step_bound[OF Step(3)] by (auto simp: bound_by_def)
  ultimately show ?case by (auto simp: bound_by_def intro: within_trans)
qed (simp add: bound_by_def)

section \<open>What is shown\<close>

text \<open>
  C8: A process none of whose three user ids is the superuser's never becomes the superuser: whatever it, its children and
  the programs without set-id bits that they run call, their user ids are among the three it had, and their
  groups among those it had.
\<close>

theorem privileges_confined:
  assumes "process_steps execs p q" "0 \<notin> uids p"
  shows "uids q \<subseteq> uids p \<and> gids q \<subseteq> gids p \<and> \<not> is_superuser q"
  using steps_confined[OF assms] assms(2) by (auto simp: is_superuser_def uids_def)

definition daemon :: process where
  "daemon = (new_process 33 44 None)\<lparr>m_suid := 55, m_extra_gids := [66]\<rparr>"

theorem privileges_confined_witness:
  "uids (snd (sys_seteuid 55 daemon)) \<subseteq> uids daemon \<and> gids (snd (sys_seteuid 55 daemon)) \<subseteq> gids daemon
    \<and> \<not> is_superuser (snd (sys_seteuid 55 daemon))"
proof (rule privileges_confined[of True])
  show "process_steps True daemon (snd (sys_seteuid 55 daemon))"
    by (rule Step[OF Stay Seteuid[of 55 _ "fst (sys_seteuid 55 daemon)"]]) simp
  show "0 \<notin> uids daemon" by (simp add: uids_def daemon_def new_process_def)
qed

text \<open>
  C9: A process that has made a promise keeps it: as long as it does not run another program, it and its children stay
  bound by promises, and can promise only what it had promised.
\<close>

theorem pledge_confined:
  assumes "process_steps False p q" "m_has_promises p" "m_promises p \<noteq> 0" "has_promised q x"
  shows "m_has_promises q \<and> has_promised p x"
  using steps_bound[OF assms(1-3)] assms(4) within_AND by (auto simp: bound_by_def has_promised_def)

definition pledge_stdio :: "(string_argument \<times> string_argument) option" where
  "pledge_stdio = Some (UserString 5 (Some ''stdio''), NullString 0)"

definition bound_daemon :: process where
  "bound_daemon = daemon\<lparr>m_has_promises := True, m_promises := 3\<rparr>"

lemma stdio_parse: "parse_pledge ''stdio'' = Inr (Some 1)"
  by (simp add: parse_pledge_def split_view_spec kept_def pledges_def pledge_bit_def)

theorem pledge_confined_witness:
  "m_has_promises (snd (sys_pledge pledge_stdio bound_daemon)) \<and> has_promised bound_daemon P_stdio"
proof (rule pledge_confined)
  show "process_steps False bound_daemon (snd (sys_pledge pledge_stdio bound_daemon))"
    by (rule Step[OF Stay Pledge[of pledge_stdio _ "fst (sys_pledge pledge_stdio bound_daemon)"]]) simp
  show "m_has_promises bound_daemon" "m_promises bound_daemon \<noteq> 0" by (simp_all add: bound_daemon_def)
  show "has_promised (snd (sys_pledge pledge_stdio bound_daemon)) P_stdio"
    by (simp add: sys_pledge_def pledge_stdio_def pledge_promises_def pledge_execpromises_def stdio_parse bound_daemon_def has_promised_def pledge_bit_def pledges_def)
qed

text \<open>
  The promise to do nothing is no promise: the empty mask is taken for a process that has not pledged yet, and the
  next call may promise everything again.
\<close>

theorem pledge_nothing_undone:
  assumes "m_promises p = 0" "parse_pledge spec = Inr (Some new)" "length spec \<le> 1024"
  shows "sys_pledge (Some (UserString 0 (Some []), NullString 0)) p = (Returns 0, p\<lparr>m_has_promises := True, m_promises := 0\<rparr>)
    \<and> sys_pledge (Some (UserString (length spec) (Some spec), NullString 0)) (p\<lparr>m_has_promises := True, m_promises := 0\<rparr>)
      = (Returns 0, p\<lparr>m_has_promises := True, m_promises := new\<rparr>)"
proof -
  have "parse_pledge [] = Inr (Some 0)" by (simp add: parse_pledge_def split_view_spec)
  then show ?thesis using assms by (simp add: sys_pledge_def pledge_promises_def pledge_execpromises_def)
qed

theorem pledge_nothing_undone_witness:
  "sys_pledge (Some (UserString 0 (Some []), NullString 0)) daemon = (Returns 0, daemon\<lparr>m_has_promises := True, m_promises := 0\<rparr>)
    \<and> sys_pledge (Some (UserString 5 (Some ''stdio''), NullString 0)) (daemon\<lparr>m_has_promises := True, m_promises := 0\<rparr>)
      = (Returns 0, daemon\<lparr>m_has_promises := True, m_promises := 1\<rparr>)"
proof -
  have l: "length ''stdio'' = 5" "length ''stdio'' \<le> 1024" "m_promises daemon = 0" by (simp_all add: daemon_def new_process_def)
  from pledge_nothing_undone[OF l(3) stdio_parse l(2)] show ?thesis unfolding l(1) .
qed

text \<open>
  \<open>setreuid\<close> changes nothing: the test for an invalid id is the wrong way round, so that every valid id is refused.
\<close>

theorem setreuid_refused:
  assumes "- 1 \<notin> uids p"
  shows "snd (sys_setreuid new_ruid new_euid p) = p \<and> fst (sys_setreuid new_ruid new_euid p) \<noteq> Returns 0"
proof -
  have "id < - 1" if "id \<noteq> - 1" for id :: uid using that by (simp add: order_less_le word_order.extremum)
  moreover have "m_uid p \<noteq> - 1" using assms by (auto simp: uids_def)
  ultimately show ?thesis by (auto simp: sys_setreuid_def require_promise_def Let_def)
qed

theorem setreuid_refused_witness: "snd (sys_setreuid 33 55 daemon) = daemon \<and> fst (sys_setreuid 33 55 daemon) \<noteq> Returns 0"
  by (rule setreuid_refused) (simp add: uids_def daemon_def new_process_def)

text \<open>
  A child gets the real ids of its parent as its effective and saved ones: a superuser that has given up its effective
  id has children that are superusers.
\<close>

theorem fork_takes_real_ids:
  assumes "sys_fork t p = (Returns child, p')"
  shows "m_euid child = m_uid p \<and> m_suid child = m_uid p \<and> m_egid child = m_gid p \<and> m_sgid child = m_gid p"
  using assms by (auto simp: sys_fork_def require_promise_def Let_def new_process_def split: if_splits)

theorem fork_takes_real_ids_witness:
  "\<exists>child. sys_fork True ((new_process 0 0 None)\<lparr>m_euid := 33\<rparr>) = (Returns child, (new_process 0 0 None)\<lparr>m_euid := 33\<rparr>) \<and> m_euid child = 0"
proof -
  obtain child where c: "sys_fork True ((new_process 0 0 None)\<lparr>m_euid := 33\<rparr>) = (Returns child, (new_process 0 0 None)\<lparr>m_euid := 33\<rparr>)"
    by (simp add: sys_fork_def require_promise_def Let_def new_process_def)
  from fork_takes_real_ids[OF c] c show ?thesis by (simp add: new_process_def)
qed

end
