(* ===== verification/Kernel_TmpFS.thy ===== *)
theory Kernel_TmpFS
  imports Kernel_Process
begin

text \<open>
  Inodes: their metadata and the permission checks (\<open>Kernel/FileSystem/InodeMetadata.h\<close>), the virtual functions of
  \<open>Inode\<close> and \<open>FS\<close> as a record of operations, and the in-memory file system \<open>Kernel/FileSystem/TmpFS.cpp\<close> that
  implements them. An inode is its identifier; destroying inodes that nothing refers to is not modelled.
\<close>

subsection \<open>Inode metadata\<close>

record inode_metadata =
  md_size :: nat
  md_mode :: mode
  md_uid :: uid
  md_gid :: gid
  md_atime :: int
  md_ctime :: int
  md_mtime :: int
  md_major :: nat
  md_minor :: nat

abbreviation S_IFMT :: mode where "S_IFMT \<equiv> 0xF000"
abbreviation S_IFDIR :: mode where "S_IFDIR \<equiv> 0x4000"
abbreviation S_IFCHR :: mode where "S_IFCHR \<equiv> 0x2000"
abbreviation S_IFBLK :: mode where "S_IFBLK \<equiv> 0x6000"
abbreviation S_IFREG :: mode where "S_IFREG \<equiv> 0x8000"
abbreviation S_IFIFO :: mode where "S_IFIFO \<equiv> 0x1000"
abbreviation S_IFLNK :: mode where "S_IFLNK \<equiv> 0xA000"
abbreviation S_IFSOCK :: mode where "S_IFSOCK \<equiv> 0xC000"
abbreviation S_ISUID :: mode where "S_ISUID \<equiv> 0x800"
abbreviation S_ISGID :: mode where "S_ISGID \<equiv> 0x400"
abbreviation S_ISVTX :: mode where "S_ISVTX \<equiv> 0x200"

definition is_directory :: "mode \<Rightarrow> bool" where "is_directory mode \<longleftrightarrow> mode AND S_IFMT = S_IFDIR"
definition is_character_device :: "mode \<Rightarrow> bool" where "is_character_device mode \<longleftrightarrow> mode AND S_IFMT = S_IFCHR"
definition is_block_device :: "mode \<Rightarrow> bool" where "is_block_device mode \<longleftrightarrow> mode AND S_IFMT = S_IFBLK"
definition is_regular_file :: "mode \<Rightarrow> bool" where "is_regular_file mode \<longleftrightarrow> mode AND S_IFMT = S_IFREG"
definition is_fifo :: "mode \<Rightarrow> bool" where "is_fifo mode \<longleftrightarrow> mode AND S_IFMT = S_IFIFO"
definition is_symlink :: "mode \<Rightarrow> bool" where "is_symlink mode \<longleftrightarrow> mode AND S_IFMT = S_IFLNK"
definition is_socket :: "mode \<Rightarrow> bool" where "is_socket mode \<longleftrightarrow> mode AND S_IFMT = S_IFSOCK"
definition is_sticky :: "mode \<Rightarrow> bool" where "is_sticky mode \<longleftrightarrow> mode AND S_ISVTX \<noteq> 0"
definition is_setuid :: "mode \<Rightarrow> bool" where "is_setuid mode \<longleftrightarrow> mode AND S_ISUID \<noteq> 0"
definition is_setgid :: "mode \<Rightarrow> bool" where "is_setgid mode \<longleftrightarrow> mode AND S_ISGID \<noteq> 0"

text \<open>The bits of owner, group and others: \<open>S_IRUSR\<close>, \<open>S_IRGRP\<close> and \<open>S_IROTH\<close>, and so on.\<close>

definition may_read_ids :: "uid \<Rightarrow> gid \<Rightarrow> gid list \<Rightarrow> inode_metadata \<Rightarrow> bool" where
  "may_read_ids u g eg md =
     (if u = 0 then True
      else if md_uid md = u then md_mode md AND 0x100 \<noteq> 0
      else if md_gid md = g \<or> md_gid md \<in> set eg then md_mode md AND 0x20 \<noteq> 0
      else md_mode md AND 4 \<noteq> 0)"

definition may_write_ids :: "uid \<Rightarrow> gid \<Rightarrow> gid list \<Rightarrow> inode_metadata \<Rightarrow> bool" where
  "may_write_ids u g eg md =
     (if u = 0 then True
      else if md_uid md = u then md_mode md AND 0x80 \<noteq> 0
      else if md_gid md = g \<or> md_gid md \<in> set eg then md_mode md AND 0x10 \<noteq> 0
      else md_mode md AND 2 \<noteq> 0)"

definition may_execute_ids :: "uid \<Rightarrow> gid \<Rightarrow> gid list \<Rightarrow> inode_metadata \<Rightarrow> bool" where
  "may_execute_ids u g eg md =
     (if u = 0 then True
      else if md_uid md = u then md_mode md AND 0x40 \<noteq> 0
      else if md_gid md = g \<or> md_gid md \<in> set eg then md_mode md AND 8 \<noteq> 0
      else md_mode md AND 1 \<noteq> 0)"

definition may_read :: "process \<Rightarrow> inode_metadata \<Rightarrow> bool" where
  "may_read p md = may_read_ids (m_euid p) (m_egid p) (m_extra_gids p) md"

definition may_write :: "process \<Rightarrow> inode_metadata \<Rightarrow> bool" where
  "may_write p md = may_write_ids (m_euid p) (m_egid p) (m_extra_gids p) md"

definition may_execute :: "process \<Rightarrow> inode_metadata \<Rightarrow> bool" where
  "may_execute p md = may_execute_ids (m_euid p) (m_egid p) (m_extra_gids p) md"

subsection \<open>The operations of an inode\<close>

text \<open>
  The virtual functions of \<open>Inode\<close> and \<open>FS\<close> that the virtual file system calls, over a state \<open>'s\<close> of all file systems. The
  lists \<open>op_traverse_as_directory\<close> gives are what the callback sees.
\<close>

record 's inode_ops =
  op_metadata :: "inode_id \<Rightarrow> 's \<Rightarrow> inode_metadata"
  op_lookup :: "inode_id \<Rightarrow> string \<Rightarrow> 's \<Rightarrow> inode_id option result"
  op_traverse_as_directory :: "inode_id \<Rightarrow> 's \<Rightarrow> (string \<times> inode_id) list outcome"
  op_directory_entry_count :: "inode_id \<Rightarrow> 's \<Rightarrow> nat outcome"
  op_read_bytes :: "inode_id \<Rightarrow> nat \<Rightarrow> nat \<Rightarrow> 's \<Rightarrow> string outcome"
  op_write_bytes :: "inode_id \<Rightarrow> nat \<Rightarrow> string \<Rightarrow> 's \<Rightarrow> nat outcome \<times> 's"
  op_create_child :: "inode_id \<Rightarrow> string \<Rightarrow> mode \<Rightarrow> nat \<Rightarrow> uid \<Rightarrow> gid \<Rightarrow> 's \<Rightarrow> inode_id outcome \<times> 's"
  op_add_child :: "inode_id \<Rightarrow> inode_id \<Rightarrow> string \<Rightarrow> mode \<Rightarrow> 's \<Rightarrow> unit outcome \<times> 's"
  op_remove_child :: "inode_id \<Rightarrow> string \<Rightarrow> 's \<Rightarrow> unit outcome \<times> 's"
  op_chmod :: "inode_id \<Rightarrow> mode \<Rightarrow> 's \<Rightarrow> unit outcome \<times> 's"
  op_chown :: "inode_id \<Rightarrow> uid \<Rightarrow> gid \<Rightarrow> 's \<Rightarrow> unit outcome \<times> 's"
  op_truncate :: "inode_id \<Rightarrow> nat \<Rightarrow> 's \<Rightarrow> unit outcome \<times> 's"
  op_set_atime :: "inode_id \<Rightarrow> int \<Rightarrow> 's \<Rightarrow> unit outcome \<times> 's"
  op_set_mtime :: "inode_id \<Rightarrow> int \<Rightarrow> 's \<Rightarrow> unit outcome \<times> 's"
  op_is_readonly :: "nat \<Rightarrow> 's \<Rightarrow> bool"
  op_root_inode :: "nat \<Rightarrow> 's \<Rightarrow> inode_id result"
  op_prepare_to_unmount :: "nat \<Rightarrow> 's \<Rightarrow> unit outcome"

subsection \<open>TmpFS\<close>

text \<open>A kernel buffer: the bytes of its region, and how many are in use.\<close>

record kbuffer =
  kb_bytes :: string
  kb_size :: nat

definition page_round_up :: "nat \<Rightarrow> nat" where
  "page_round_up x = (x + 4095) div 4096 * 4096"

definition kb_capacity :: "kbuffer \<Rightarrow> nat" where
  "kb_capacity b = length (kb_bytes b)"

definition kb_set_size :: "kbuffer \<Rightarrow> nat \<Rightarrow> kbuffer result" where
  "kb_set_size b n = and_then (verify (n \<le> kb_capacity b)) (\<lambda>_. Inr (b\<lparr>kb_size := n\<rparr>))"

text \<open>
  The pages come from the memory manager: \<open>region\<close> gives the bytes of a new region of a number of bytes, or none if
  there is no memory.
\<close>

definition kb_try_create :: "(nat \<Rightarrow> string option) \<Rightarrow> nat \<Rightarrow> kbuffer option" where
  "kb_try_create region n = map_option (\<lambda>buffer. \<lparr>kb_bytes = buffer, kb_size = n\<rparr>) (region (page_round_up n))"

text \<open>\<open>memcpy\<close> into the bytes of a buffer.\<close>

definition copy_into :: "string \<Rightarrow> nat \<Rightarrow> string \<Rightarrow> string result" where
  "copy_into buffer offset data =
     (if offset + length data \<le> length buffer then Inr (take offset buffer @ data @ drop (offset + length data) buffer) else Inl OutOfBounds)"

record tmpfs_inode =
  ti_metadata :: inode_metadata
  ti_parent :: inode_id
  ti_content :: "kbuffer option"
  ti_children :: "(string \<times> inode_id) list"

text \<open>
  All file systems of this class at once: their inodes by file system and index, and the next index of each. What a
  region of memory for a content holds and the length a name may have are fixed by the memory manager and the C
  library.
\<close>

record tmpfs =
  m_inodes :: "inode_id \<Rightarrow> tmpfs_inode option"
  m_next_inode_index :: "nat \<Rightarrow> nat"
  m_readonly :: "nat \<Rightarrow> bool"
  kbuffer_region :: "nat \<Rightarrow> string option"
  name_max :: nat
  kgettimeofday :: int

text \<open>An inode that is not there is a use of freed memory; here it reads as one without any mode.\<close>

definition no_metadata :: inode_metadata where
  "no_metadata = \<lparr>md_size = 0, md_mode = 0, md_uid = 0, md_gid = 0, md_atime = 0, md_ctime = 0, md_mtime = 0, md_major = 0, md_minor = 0\<rparr>"

definition tmpfs_metadata :: "inode_id \<Rightarrow> tmpfs \<Rightarrow> inode_metadata" where
  "tmpfs_metadata i fs = (case m_inodes fs i of None \<Rightarrow> no_metadata | Some inode \<Rightarrow> ti_metadata inode)"

definition with_inode :: "inode_id \<Rightarrow> tmpfs \<Rightarrow> (tmpfs_inode \<Rightarrow> 'a outcome \<times> tmpfs) \<Rightarrow> 'a outcome \<times> tmpfs" where
  "with_inode i fs rest = (case m_inodes fs i of None \<Rightarrow> (Panics Undefined, fs) | Some inode \<Rightarrow> rest inode)"

definition put_inode :: "inode_id \<Rightarrow> tmpfs_inode \<Rightarrow> tmpfs \<Rightarrow> tmpfs" where
  "put_inode i inode fs = fs\<lparr>m_inodes := (m_inodes fs)(i \<mapsto> inode)\<rparr>"

text \<open>A change of the metadata tells the watchers of the inode, which the file system must not be read-only for.\<close>

definition put_and_notify :: "inode_id \<Rightarrow> tmpfs_inode \<Rightarrow> tmpfs \<Rightarrow> unit outcome \<times> tmpfs" where
  "put_and_notify i inode fs = (if m_readonly fs (fst i) then (Panics VerifyFailed, fs) else (Returns (), put_inode i inode fs))"

definition next_inode_index :: "nat \<Rightarrow> tmpfs \<Rightarrow> nat \<times> tmpfs" where
  "next_inode_index fsid fs =
     (m_next_inode_index fs fsid, fs\<lparr>m_next_inode_index := (m_next_inode_index fs)(fsid := usize (m_next_inode_index fs fsid + 1))\<rparr>)"

text \<open>\<open>TmpFSInode::create\<close>: the constructor and \<open>register_inode\<close>.\<close>

definition tmpfs_create :: "nat \<Rightarrow> inode_metadata \<Rightarrow> inode_id \<Rightarrow> tmpfs \<Rightarrow> inode_id \<times> tmpfs" where
  "tmpfs_create fsid metadata parent fs =
     (let (index, fs) = next_inode_index fsid fs;
          inode = \<lparr>ti_metadata = metadata, ti_parent = parent, ti_content = None, ti_children = []\<rparr> in
      ((fsid, index), put_inode (fsid, index) inode fs))"

definition tmpfs_create_root :: "nat \<Rightarrow> tmpfs \<Rightarrow> inode_id \<times> tmpfs" where
  "tmpfs_create_root fsid fs =
     (let now = kgettimeofday fs in
      tmpfs_create fsid (no_metadata\<lparr>md_atime := now, md_ctime := now, md_mtime := now, md_mode := S_IFDIR OR S_ISVTX OR 0x1ff\<rparr>) (fsid, 1) fs)"

definition tmpfs_root_inode :: "nat \<Rightarrow> tmpfs \<Rightarrow> inode_id result" where
  "tmpfs_root_inode fsid fs = and_then (verify (m_inodes fs (fsid, 1) \<noteq> None)) (\<lambda>_. Inr (fsid, 1))"

definition tmpfs_is_directory :: "tmpfs_inode \<Rightarrow> bool" where
  "tmpfs_is_directory inode \<longleftrightarrow> is_directory (md_mode (ti_metadata inode))"

definition get_inode :: "inode_id \<Rightarrow> tmpfs \<Rightarrow> inode_id option" where
  "get_inode i fs = (if m_inodes fs i = None then None else Some i)"

definition tmpfs_traverse_as_directory :: "inode_id \<Rightarrow> tmpfs \<Rightarrow> (string \<times> inode_id) list outcome" where
  "tmpfs_traverse_as_directory i fs = fst (with_inode i fs (\<lambda>inode.
     if \<not> tmpfs_is_directory inode then (Fails ENOTDIR, fs)
     else (Returns ((''.'', i) # (''..'', ti_parent inode) # ti_children inode), fs)))"

definition tmpfs_read_bytes :: "inode_id \<Rightarrow> nat \<Rightarrow> nat \<Rightarrow> tmpfs \<Rightarrow> string outcome" where
  "tmpfs_read_bytes i offset n fs = fst (with_inode i fs (\<lambda>inode.
     if tmpfs_is_directory inode then (Panics VerifyFailed, fs)
     else case ti_content inode of
         None \<Rightarrow> (Returns [], fs)
       | Some content \<Rightarrow>
           if offset \<ge> md_size (ti_metadata inode) then (Returns [], fs)
           else
             let n = (if n > md_size (ti_metadata inode) - offset then md_size (ti_metadata inode) - offset else n) in
             if offset + n \<le> kb_capacity content then (Returns (take n (drop offset (kb_bytes content))), fs)
             else (Panics OutOfBounds, fs)))"

definition tmpfs_chmod :: "inode_id \<Rightarrow> mode \<Rightarrow> tmpfs \<Rightarrow> unit outcome \<times> tmpfs" where
  "tmpfs_chmod i mode fs = with_inode i fs (\<lambda>inode.
     put_and_notify i (inode\<lparr>ti_metadata := (ti_metadata inode)\<lparr>md_mode := mode\<rparr>\<rparr>) fs)"

text \<open>\<open>Inode::prepare_to_write_data\<close>.\<close>

definition prepare_to_write_data :: "inode_id \<Rightarrow> tmpfs \<Rightarrow> unit outcome \<times> tmpfs" where
  "prepare_to_write_data i fs =
     (let mode = md_mode (tmpfs_metadata i fs) in
      if m_readonly fs (fst i) then (Fails EROFS, fs)
      else if is_setuid mode \<or> is_setgid mode then tmpfs_chmod i (mode AND NOT (S_ISUID OR S_ISGID)) fs
      else (Returns (), fs))"

text \<open>The buffer \<open>write_bytes\<close> writes to, when the file grows.\<close>

definition grown_content :: "kbuffer option \<Rightarrow> nat \<Rightarrow> nat \<Rightarrow> tmpfs \<Rightarrow> kbuffer outcome \<times> tmpfs" where
  "grown_content content old_size new_size fs =
     (case content of
        Some b \<Rightarrow>
          if kb_capacity b \<ge> new_size then (case kb_set_size b new_size of Inl f \<Rightarrow> (Panics f, fs) | Inr b \<Rightarrow> (Returns b, fs))
          else
            (case kb_try_create (kbuffer_region fs) (usize (new_size * 2)) of
               None \<Rightarrow> (Fails ENOMEM, fs)
             | Some tmp \<Rightarrow>
                 (case kb_set_size tmp new_size of
                    Inl f \<Rightarrow> (Panics f, fs)
                  | Inr tmp \<Rightarrow>
                      (case copy_into (kb_bytes tmp) 0 (take old_size (kb_bytes b)) of
                         Inl f \<Rightarrow> (Panics f, fs)
                       | Inr buffer \<Rightarrow> (Returns (tmp\<lparr>kb_bytes := buffer\<rparr>), fs))))
      | None \<Rightarrow>
          (case kb_try_create (kbuffer_region fs) (usize (new_size * 2)) of
             None \<Rightarrow> (Fails ENOMEM, fs)
           | Some tmp \<Rightarrow> (case kb_set_size tmp new_size of Inl f \<Rightarrow> (Panics f, fs) | Inr tmp \<Rightarrow> (Returns tmp, fs))))"

definition grow_for_write :: "inode_id \<Rightarrow> nat \<Rightarrow> tmpfs_inode \<Rightarrow> tmpfs \<Rightarrow> tmpfs_inode outcome \<times> tmpfs" where
  "grow_for_write i end_offset inode fs =
     (let old_size = md_size (ti_metadata inode);
          new_size = (if end_offset > old_size then end_offset else old_size) in
      if new_size > old_size then
        proceed (grown_content (ti_content inode) old_size new_size fs) (\<lambda>content fs.
          let inode = inode\<lparr>ti_content := Some content, ti_metadata := (ti_metadata inode)\<lparr>md_size := new_size\<rparr>\<rparr> in
          proceed (put_and_notify i inode fs) (\<lambda>_ fs. (Returns inode, fs)))
      else (Returns inode, fs))"

definition write_content :: "inode_id \<Rightarrow> nat \<Rightarrow> string \<Rightarrow> tmpfs_inode \<Rightarrow> tmpfs \<Rightarrow> nat outcome \<times> tmpfs" where
  "write_content i offset data inode fs =
     (case ti_content inode of
        None \<Rightarrow> (Panics VerifyFailed, fs)
      | Some content \<Rightarrow>
          (case copy_into (kb_bytes content) offset data of
             Inl f \<Rightarrow> (Panics f, fs)
           | Inr buffer \<Rightarrow> (Returns (length data), put_inode i (inode\<lparr>ti_content := Some (content\<lparr>kb_bytes := buffer\<rparr>)\<rparr>) fs)))"

definition tmpfs_write_bytes :: "inode_id \<Rightarrow> nat \<Rightarrow> string \<Rightarrow> tmpfs \<Rightarrow> nat outcome \<times> tmpfs" where
  "tmpfs_write_bytes i offset data fs = with_inode i fs (\<lambda>inode.
     if tmpfs_is_directory inode then (Panics VerifyFailed, fs)
     else proceed (prepare_to_write_data i fs) (\<lambda>_ fs. with_inode i fs (\<lambda>inode.
       proceed (grow_for_write i (offset + length data) inode fs) (write_content i offset data))))"

definition tmpfs_lookup :: "inode_id \<Rightarrow> string \<Rightarrow> tmpfs \<Rightarrow> inode_id option result" where
  "tmpfs_lookup i name fs =
     (case m_inodes fs i of
        None \<Rightarrow> Inl Undefined
      | Some inode \<Rightarrow>
          and_then (verify (tmpfs_is_directory inode)) (\<lambda>_.
            if name = ''.'' then Inr (Some i)
            else if name = ''..'' then Inr (get_inode (ti_parent inode) fs)
            else case map_of (ti_children inode) name of
                None \<Rightarrow> Inr None
              | Some child \<Rightarrow> Inr (get_inode child fs)))"

definition tmpfs_directory_entry_count :: "inode_id \<Rightarrow> tmpfs \<Rightarrow> nat outcome" where
  "tmpfs_directory_entry_count i fs = fst (with_inode i fs (\<lambda>inode.
     if \<not> tmpfs_is_directory inode then (Panics VerifyFailed, fs) else (Returns (2 + length (ti_children inode)), fs)))"

definition tmpfs_chown :: "inode_id \<Rightarrow> uid \<Rightarrow> gid \<Rightarrow> tmpfs \<Rightarrow> unit outcome \<times> tmpfs" where
  "tmpfs_chown i uid gid fs = with_inode i fs (\<lambda>inode.
     put_and_notify i (inode\<lparr>ti_metadata := (ti_metadata inode)\<lparr>md_uid := uid, md_gid := gid\<rparr>\<rparr>) fs)"

definition tmpfs_add_child :: "inode_id \<Rightarrow> inode_id \<Rightarrow> string \<Rightarrow> mode \<Rightarrow> tmpfs \<Rightarrow> unit outcome \<times> tmpfs" where
  "tmpfs_add_child i child name mode fs = with_inode i fs (\<lambda>inode.
     if \<not> tmpfs_is_directory inode \<or> fst child \<noteq> fst i then (Panics VerifyFailed, fs)
     else if length name > name_max fs then (Fails ENAMETOOLONG, fs)
     else (Returns (), put_inode i (inode\<lparr>ti_children := AList.update name child (ti_children inode)\<rparr>) fs))"

definition tmpfs_create_child :: "inode_id \<Rightarrow> string \<Rightarrow> mode \<Rightarrow> nat \<Rightarrow> uid \<Rightarrow> gid \<Rightarrow> tmpfs \<Rightarrow> inode_id outcome \<times> tmpfs" where
  "tmpfs_create_child i name mode dev uid gid fs =
     (if dev \<noteq> 0 then (Fails ENOTSUP, fs)
      else
        let now = kgettimeofday fs;
            metadata = no_metadata\<lparr>md_mode := mode, md_uid := uid, md_gid := gid, md_atime := now, md_ctime := now, md_mtime := now\<rparr>;
            (child, fs) = tmpfs_create (fst i) metadata i fs in
        proceed (tmpfs_add_child i child name mode fs) (\<lambda>_ fs. (Returns child, fs)))"

definition tmpfs_remove_child :: "inode_id \<Rightarrow> string \<Rightarrow> tmpfs \<Rightarrow> unit outcome \<times> tmpfs" where
  "tmpfs_remove_child i name fs = with_inode i fs (\<lambda>inode.
     if \<not> tmpfs_is_directory inode then (Panics VerifyFailed, fs)
     else if name = ''.'' \<or> name = ''..'' then (Returns (), fs)
     else case map_of (ti_children inode) name of
         None \<Rightarrow> (Fails ENOENT, fs)
       | Some _ \<Rightarrow> (Returns (), put_inode i (inode\<lparr>ti_children := AList.delete name (ti_children inode)\<rparr>) fs))"

text \<open>The content after \<open>truncate\<close>.\<close>

definition truncated_content :: "kbuffer option \<Rightarrow> nat \<Rightarrow> nat \<Rightarrow> tmpfs \<Rightarrow> kbuffer option outcome \<times> tmpfs" where
  "truncated_content content prev_size n fs =
     (if n = 0 then (Returns None, fs)
      else case content of
          None \<Rightarrow> (case kb_try_create (kbuffer_region fs) n of None \<Rightarrow> (Fails ENOMEM, fs) | Some b \<Rightarrow> (Returns (Some b), fs))
        | Some b \<Rightarrow>
            if n < kb_capacity b then
              (case kb_set_size b n of
                 Inl f \<Rightarrow> (Panics f, fs)
               | Inr b \<Rightarrow>
                   if prev_size < n then
                     (case copy_into (kb_bytes b) prev_size (replicate (n - prev_size) (CHR 0x00)) of
                        Inl f \<Rightarrow> (Panics f, fs)
                      | Inr buffer \<Rightarrow> (Returns (Some (b\<lparr>kb_bytes := buffer\<rparr>)), fs))
                   else (Returns (Some b), fs))
            else
              (case kb_try_create (kbuffer_region fs) n of
                 None \<Rightarrow> (Fails ENOMEM, fs)
               | Some tmp \<Rightarrow>
                   (case copy_into (kb_bytes tmp) 0 (take prev_size (kb_bytes b)) of
                      Inl f \<Rightarrow> (Panics f, fs)
                    | Inr buffer \<Rightarrow> (Returns (Some (tmp\<lparr>kb_bytes := buffer\<rparr>)), fs))))"

definition tmpfs_truncate :: "inode_id \<Rightarrow> nat \<Rightarrow> tmpfs \<Rightarrow> unit outcome \<times> tmpfs" where
  "tmpfs_truncate i n fs = with_inode i fs (\<lambda>inode.
     if tmpfs_is_directory inode then (Panics VerifyFailed, fs)
     else proceed (truncated_content (ti_content inode) (md_size (ti_metadata inode)) n fs) (\<lambda>content fs.
       put_and_notify i (inode\<lparr>ti_content := content, ti_metadata := (ti_metadata inode)\<lparr>md_size := n\<rparr>\<rparr>) fs))"

definition tmpfs_set_atime :: "inode_id \<Rightarrow> int \<Rightarrow> tmpfs \<Rightarrow> unit outcome \<times> tmpfs" where
  "tmpfs_set_atime i time fs = with_inode i fs (\<lambda>inode.
     put_and_notify i (inode\<lparr>ti_metadata := (ti_metadata inode)\<lparr>md_atime := time\<rparr>\<rparr>) fs)"

definition tmpfs_set_ctime :: "inode_id \<Rightarrow> int \<Rightarrow> tmpfs \<Rightarrow> unit outcome \<times> tmpfs" where
  "tmpfs_set_ctime i time fs = with_inode i fs (\<lambda>inode.
     put_and_notify i (inode\<lparr>ti_metadata := (ti_metadata inode)\<lparr>md_ctime := time\<rparr>\<rparr>) fs)"

definition tmpfs_set_mtime :: "inode_id \<Rightarrow> int \<Rightarrow> tmpfs \<Rightarrow> unit outcome \<times> tmpfs" where
  "tmpfs_set_mtime i time fs = with_inode i fs (\<lambda>inode.
     put_and_notify i (inode\<lparr>ti_metadata := (ti_metadata inode)\<lparr>md_mtime := time\<rparr>\<rparr>) fs)"

definition tmpfs_ops :: "tmpfs inode_ops" where
  "tmpfs_ops =
     \<lparr>op_metadata = tmpfs_metadata, op_lookup = tmpfs_lookup, op_traverse_as_directory = tmpfs_traverse_as_directory,
      op_directory_entry_count = tmpfs_directory_entry_count, op_read_bytes = tmpfs_read_bytes, op_write_bytes = tmpfs_write_bytes,
      op_create_child = tmpfs_create_child, op_add_child = tmpfs_add_child, op_remove_child = tmpfs_remove_child,
      op_chmod = tmpfs_chmod, op_chown = tmpfs_chown, op_truncate = tmpfs_truncate, op_set_atime = tmpfs_set_atime, op_set_mtime = tmpfs_set_mtime,
      op_is_readonly = (\<lambda>fsid fs. m_readonly fs fsid), op_root_inode = tmpfs_root_inode, op_prepare_to_unmount = (\<lambda>_ _. Returns ())\<rparr>"

subsection \<open>The contents of files\<close>

definition region_ok :: "tmpfs \<Rightarrow> bool" where
  "region_ok fs \<longleftrightarrow> (\<forall>n buffer. kbuffer_region fs n = Some buffer \<longrightarrow> length buffer = n)"

definition content_ok :: "tmpfs_inode \<Rightarrow> bool" where
  "content_ok inode \<longleftrightarrow>
     (case ti_content inode of None \<Rightarrow> md_size (ti_metadata inode) = 0 | Some b \<Rightarrow> md_size (ti_metadata inode) \<le> kb_capacity b)"

definition inode_contents :: "tmpfs_inode \<Rightarrow> string" where
  "inode_contents inode = (case ti_content inode of None \<Rightarrow> [] | Some b \<Rightarrow> take (md_size (ti_metadata inode)) (kb_bytes b))"

definition file_ok :: "inode_id \<Rightarrow> tmpfs \<Rightarrow> bool" where
  "file_ok i fs \<longleftrightarrow> region_ok fs \<and> (\<exists>inode. m_inodes fs i = Some inode \<and> content_ok inode \<and> \<not> tmpfs_is_directory inode)"

definition file_contents :: "inode_id \<Rightarrow> tmpfs \<Rightarrow> string" where
  "file_contents i fs = (case m_inodes fs i of None \<Rightarrow> [] | Some inode \<Rightarrow> inode_contents inode)"

lemma put_inode_sel [simp]:
  "m_inodes (put_inode i inode fs) = (m_inodes fs)(i \<mapsto> inode)" "m_next_inode_index (put_inode i inode fs) = m_next_inode_index fs"
  "m_readonly (put_inode i inode fs) = m_readonly fs" "kbuffer_region (put_inode i inode fs) = kbuffer_region fs"
  "name_max (put_inode i inode fs) = name_max fs" "kgettimeofday (put_inode i inode fs) = kgettimeofday fs"
  by (simp_all add: put_inode_def)

lemma region_ok_put [simp]: "region_ok (put_inode i inode fs) = region_ok fs"
  by (simp add: region_ok_def)

lemma length_contents: "content_ok inode \<Longrightarrow> length (inode_contents inode) = md_size (ti_metadata inode)"
  by (auto simp: content_ok_def inode_contents_def kb_capacity_def split: option.splits)

lemma content_mode [simp]:
  "content_ok (inode\<lparr>ti_metadata := (ti_metadata inode)\<lparr>md_mode := mode\<rparr>\<rparr>) = content_ok inode"
  "inode_contents (inode\<lparr>ti_metadata := (ti_metadata inode)\<lparr>md_mode := mode\<rparr>\<rparr>) = inode_contents inode"
  by (simp_all add: content_ok_def inode_contents_def split: option.splits)

text \<open>Reading gives the part of the contents that is there.\<close>

lemma read_bytes_spec:
  assumes "file_ok i fs"
  shows "tmpfs_read_bytes i offset n fs = Returns (take n (drop offset (file_contents i fs)))"
proof -
  obtain inode where i: "m_inodes fs i = Some inode" "content_ok inode" "\<not> tmpfs_is_directory inode" using assms by (auto simp: file_ok_def)
  show ?thesis
  proof (cases "ti_content inode")
    case None
    then show ?thesis using i by (simp add: tmpfs_read_bytes_def with_inode_def file_contents_def inode_contents_def)
  next
    case (Some b)
    then have "md_size (ti_metadata inode) \<le> length (kb_bytes b)" using i by (simp add: content_ok_def kb_capacity_def)
    then show ?thesis using i Some
      by (auto simp: tmpfs_read_bytes_def with_inode_def file_contents_def inode_contents_def kb_capacity_def Let_def drop_take min_def)
  qed
qed

lemma copy_into_Inr: "copy_into buffer offset data = Inr b \<Longrightarrow> offset + length data \<le> length buffer \<and> b = take offset buffer @ data @ drop (offset + length data) buffer"
  by (auto simp: copy_into_def split: if_splits)

text \<open>A buffer grows: it keeps the bytes in use.\<close>

lemma grown_content_spec:
  assumes "grown_content content old_size new_size fs = (Returns b, fs')"
    and "case content of None \<Rightarrow> old_size = 0 | Some c \<Rightarrow> old_size \<le> kb_capacity c" "region_ok fs" "old_size < new_size"
  shows "fs' = fs" "new_size \<le> kb_capacity b"
    and "take old_size (kb_bytes b) = (case content of None \<Rightarrow> [] | Some c \<Rightarrow> take old_size (kb_bytes c))"
    and "\<And>c. content = Some c \<Longrightarrow> new_size \<le> kb_capacity c \<Longrightarrow> kb_bytes b = kb_bytes c"
  using assms
  by (auto simp: grown_content_def kb_set_size_def kb_try_create_def kb_capacity_def verify_def and_then_Inr_iff
      split: option.splits if_splits sum.splits dest!: copy_into_Inr)

lemma is_directory_strip [simp]: "is_directory (mode AND NOT (S_ISUID OR S_ISGID)) = is_directory mode"
proof -
  have "NOT (S_ISUID OR S_ISGID) AND S_IFMT = S_IFMT" by simp
  then show ?thesis unfolding is_directory_def by (simp only: and.assoc)
qed

lemma prepare_spec:
  assumes "prepare_to_write_data i fs = (Returns u, fs')" "m_inodes fs i = Some inode"
  shows "\<exists>mode. fs' = put_inode i (inode\<lparr>ti_metadata := (ti_metadata inode)\<lparr>md_mode := mode\<rparr>\<rparr>) fs \<and> is_directory mode = is_directory (md_mode (ti_metadata inode))"
proof -
  have "put_inode i inode fs = fs" using assms(2) by (simp add: put_inode_def fun_upd_idem)
  then have "fs = put_inode i (inode\<lparr>ti_metadata := (ti_metadata inode)\<lparr>md_mode := md_mode (ti_metadata inode)\<rparr>\<rparr>) fs" by simp
  then have same: ?thesis if "fs' = fs" using that by metis
  let ?mode = "md_mode (ti_metadata inode)"
  show ?thesis
  proof (cases "is_setuid ?mode \<or> is_setgid ?mode")
    case True
    then have "tmpfs_chmod i (?mode AND NOT (S_ISUID OR S_ISGID)) fs = (Returns u, fs')"
      using assms unfolding prepare_to_write_data_def tmpfs_metadata_def by (simp add: Let_def split: if_splits)
    then have "fs' = put_inode i (inode\<lparr>ti_metadata := (ti_metadata inode)\<lparr>md_mode := ?mode AND NOT (S_ISUID OR S_ISGID)\<rparr>\<rparr>) fs"
      using assms(2) unfolding tmpfs_chmod_def with_inode_def put_and_notify_def by (simp split: if_splits)
    then show ?thesis using is_directory_strip by blast
  next
    case False
    then show ?thesis using assms same by (simp add: prepare_to_write_data_def tmpfs_metadata_def Let_def split: if_splits)
  qed
qed

text \<open>
  What a write that returns leaves: the file is as long as it was or as the write reaches, the bytes written are there,
  the other bytes that were there are as before, and no other inode changed.
\<close>

definition written :: "string \<Rightarrow> nat \<Rightarrow> string \<Rightarrow> string \<Rightarrow> bool" where
  "written c offset data c' \<longleftrightarrow> length c' = max (length c) (offset + length data) \<and> take (length data) (drop offset c') = data
     \<and> (\<forall>k < length c. k < offset \<or> offset + length data \<le> k \<longrightarrow> c' ! k = c ! k)"

lemma written_copy:
  assumes "copy_into buffer offset data = Inr buffer'" "n \<le> length buffer" "old \<le> n" "n = max old (offset + length data)" "take old buffer = c" "length c = old"
  shows "written c offset data (take n buffer')" "n \<le> length buffer'"
proof -
  note b = copy_into_Inr[OF assms(1)]
  have c: "c ! k = buffer ! k" if "k < old" for k using that assms(5) by (metis nth_take)
  show "written c offset data (take n buffer')"
    using b assms c by (auto simp: written_def nth_append min_def drop_take)
  show "n \<le> length buffer'" using b assms(2) by auto
qed

lemma proceed_Returns: "proceed m f = (Returns y, t) \<longleftrightarrow> (\<exists>x s. m = (Returns x, s) \<and> f x s = (Returns y, t))"
proof (cases m)
  case (Pair r s)
  then show ?thesis by (cases r) auto
qed

lemma grow_for_write_spec:
  assumes "grow_for_write i end_offset inode fs = (Returns inode', fs')" "content_ok inode" "region_ok fs" "m_inodes fs i = Some inode"
  shows "m_inodes fs' i = Some inode'" "\<forall>j. j \<noteq> i \<longrightarrow> m_inodes fs' j = m_inodes fs j" "region_ok fs'" "content_ok inode'"
    "md_size (ti_metadata inode') = max (md_size (ti_metadata inode)) end_offset"
    "take (md_size (ti_metadata inode)) (inode_contents inode') = inode_contents inode"
    "md_mode (ti_metadata inode') = md_mode (ti_metadata inode)"
proof -
  let ?old = "md_size (ti_metadata inode)"
  have *: "m_inodes fs' i = Some inode' \<and> (\<forall>j. j \<noteq> i \<longrightarrow> m_inodes fs' j = m_inodes fs j) \<and> region_ok fs' \<and> content_ok inode'
    \<and> md_size (ti_metadata inode') = max ?old end_offset \<and> take ?old (inode_contents inode') = inode_contents inode
    \<and> md_mode (ti_metadata inode') = md_mode (ti_metadata inode)"
  proof (cases "end_offset > ?old")
    case True
    then obtain b where b: "grown_content (ti_content inode) ?old end_offset fs = (Returns b, fs)"
      and e: "inode' = inode\<lparr>ti_content := Some b, ti_metadata := (ti_metadata inode)\<lparr>md_size := end_offset\<rparr>\<rparr>" "fs' = put_inode i inode' fs"
      using assms grown_content_spec(1)[OF _ _ assms(3) True]
      by (auto simp: grow_for_write_def Let_def proceed_Returns put_and_notify_def content_ok_def split: if_splits)
    have "case ti_content inode of None \<Rightarrow> ?old = 0 | Some c \<Rightarrow> ?old \<le> kb_capacity c" using assms(2) by (simp add: content_ok_def)
    note g = grown_content_spec[OF b this assms(3) True]
    have "inode_contents inode = (case ti_content inode of None \<Rightarrow> [] | Some c \<Rightarrow> take ?old (kb_bytes c))" by (simp add: inode_contents_def)
    then show ?thesis using g True e assms by (auto simp: content_ok_def inode_contents_def min_def)
  next
    case False
    then show ?thesis using assms length_contents[OF assms(2)] by (auto simp: grow_for_write_def Let_def)
  qed
  then show "m_inodes fs' i = Some inode'" "\<forall>j. j \<noteq> i \<longrightarrow> m_inodes fs' j = m_inodes fs j" "region_ok fs'" "content_ok inode'"
    "md_size (ti_metadata inode') = max ?old end_offset"
    "take ?old (inode_contents inode') = inode_contents inode"
    "md_mode (ti_metadata inode') = md_mode (ti_metadata inode)" by simp_all
qed

lemma write_content_spec:
  assumes "write_content i offset data inode fs = (Returns n, fs')" "content_ok inode" "region_ok fs"
    and "md_size (ti_metadata inode) = max (length c) (offset + length data)" "take (length c) (inode_contents inode) = c" "\<not> tmpfs_is_directory inode"
  shows "n = length data \<and> file_ok i fs' \<and> written c offset data (file_contents i fs') \<and> (\<forall>j. j \<noteq> i \<longrightarrow> m_inodes fs' j = m_inodes fs j)"
proof -
  obtain b buffer where b: "ti_content inode = Some b" "copy_into (kb_bytes b) offset data = Inr buffer" "n = length data"
    "fs' = put_inode i (inode\<lparr>ti_content := Some (b\<lparr>kb_bytes := buffer\<rparr>)\<rparr>) fs"
    using assms(1) by (auto simp: write_content_def split: option.splits sum.splits)
  let ?n = "md_size (ti_metadata inode)"
  have "?n \<le> length (kb_bytes b)" "take (length c) (kb_bytes b) = c" using assms(2,4,5) b(1)
    by (simp_all add: content_ok_def inode_contents_def kb_capacity_def min_def split: if_splits)
  from written_copy[OF b(2) this(1) _ assms(4) this(2)] show ?thesis using b assms
    by (auto simp: file_ok_def file_contents_def inode_contents_def content_ok_def kb_capacity_def tmpfs_is_directory_def)
qed

lemma write_bytes_spec:
  assumes "file_ok i fs" "tmpfs_write_bytes i offset data fs = (Returns n, fs')"
  shows "n = length data \<and> file_ok i fs' \<and> written (file_contents i fs) offset data (file_contents i fs') \<and> (\<forall>j. j \<noteq> i \<longrightarrow> m_inodes fs' j = m_inodes fs j)"
proof -
  obtain inode where i: "m_inodes fs i = Some inode" "content_ok inode" "\<not> tmpfs_is_directory inode" and r: "region_ok fs"
    using assms by (auto simp: file_ok_def)
  obtain u fs1 inode1 inode2 fs2 where p: "prepare_to_write_data i fs = (Returns u, fs1)" and i1: "m_inodes fs1 i = Some inode1"
    and g: "grow_for_write i (offset + length data) inode1 fs1 = (Returns inode2, fs2)" and w: "write_content i offset data inode2 fs2 = (Returns n, fs')"
    using assms(2) i by (auto simp: tmpfs_write_bytes_def with_inode_def proceed_Returns split: option.splits)
  obtain mode where m: "fs1 = put_inode i (inode\<lparr>ti_metadata := (ti_metadata inode)\<lparr>md_mode := mode\<rparr>\<rparr>) fs"
    "is_directory mode = is_directory (md_mode (ti_metadata inode))"
    using prepare_spec[OF p i(1)] by blast
  have e1: "inode1 = inode\<lparr>ti_metadata := (ti_metadata inode)\<lparr>md_mode := mode\<rparr>\<rparr>" using m(1) i1 by simp
  have c1: "content_ok inode1" "inode_contents inode1 = inode_contents inode" "\<not> tmpfs_is_directory inode1" "region_ok fs1"
    "md_size (ti_metadata inode1) = length (inode_contents inode)" "\<forall>j. j \<noteq> i \<longrightarrow> m_inodes fs1 j = m_inodes fs j"
    using i m r length_contents[OF i(2)] by (simp_all add: e1 tmpfs_is_directory_def)
  note g = grow_for_write_spec[OF g c1(1,4) i1]
  have "\<not> tmpfs_is_directory inode2" using g(7) c1(3) by (simp add: tmpfs_is_directory_def)
  moreover have "md_size (ti_metadata inode2) = max (length (inode_contents inode)) (offset + length data)" using g(5) c1(5) by simp
  moreover have "take (length (inode_contents inode)) (inode_contents inode2) = inode_contents inode" using g(6) c1(2,5) by simp
  ultimately have "n = length data \<and> file_ok i fs' \<and> written (inode_contents inode) offset data (file_contents i fs') \<and> (\<forall>j. j \<noteq> i \<longrightarrow> m_inodes fs' j = m_inodes fs2 j)"
    by (intro write_content_spec[OF w g(4,3)])
  then show ?thesis using g(2) c1(6) i(1) by (simp add: file_contents_def)
qed

text \<open>A file system with one file, that holds six bytes.\<close>

definition secret_file :: tmpfs_inode where
  "secret_file = \<lparr>ti_metadata = no_metadata\<lparr>md_mode := 0x8180, md_size := 6\<rparr>, ti_parent = (1, 1),
     ti_content = Some \<lparr>kb_bytes = ''secret??'', kb_size = 6\<rparr>, ti_children = []\<rparr>"

definition secret_files :: tmpfs where
  "secret_files = \<lparr>m_inodes = [(1, 2) \<mapsto> secret_file], m_next_inode_index = (\<lambda>_. 3), m_readonly = (\<lambda>_. False),
     kbuffer_region = (\<lambda>n. Some (replicate n (CHR 0x00))), name_max = 255, kgettimeofday = 0\<rparr>"

text \<open>Truncating a file to fewer bytes leaves the bytes of the buffer as they are.\<close>

lemma truncate_shrink:
  assumes "m_inodes fs i = Some inode" "ti_content inode = Some b" "content_ok inode" "\<not> tmpfs_is_directory inode"
    "0 < n" "n < md_size (ti_metadata inode)" "\<not> m_readonly fs (fst i)"
  shows "tmpfs_truncate i n fs = (Returns (), put_inode i (inode\<lparr>ti_content := Some (b\<lparr>kb_size := n\<rparr>), ti_metadata := (ti_metadata inode)\<lparr>md_size := n\<rparr>\<rparr>) fs)"
  using assms
  by (simp add: tmpfs_truncate_def with_inode_def truncated_content_def kb_set_size_def content_ok_def kb_capacity_def put_and_notify_def)

text \<open>
  C40: C: a truncated file that is written to again behind its new end shows what it held there: with contents \<open>c\<close>, truncated to
  \<open>n\<close> bytes and written at \<open>offset\<close>, the bytes between are those of \<open>c\<close> and not zero.
\<close>

theorem stale_bytes:
  assumes "m_inodes fs i = Some inode" "ti_content inode = Some b" "content_ok inode" "\<not> tmpfs_is_directory inode"
    "\<not> m_readonly fs (fst i)" "\<not> is_setuid (md_mode (ti_metadata inode))" "\<not> is_setgid (md_mode (ti_metadata inode))"
    "0 < n" "n < md_size (ti_metadata inode)" "n \<le> offset" "offset + length data \<le> md_size (ti_metadata inode)" "data \<noteq> []"
  shows "\<exists>fs1 fs2. tmpfs_truncate i n fs = (Returns (), fs1) \<and> tmpfs_write_bytes i offset data fs1 = (Returns (length data), fs2)
    \<and> file_contents i fs2 = take offset (file_contents i fs) @ data"
proof -
  let ?inode = "inode\<lparr>ti_content := Some (b\<lparr>kb_size := n\<rparr>), ti_metadata := (ti_metadata inode)\<lparr>md_size := n\<rparr>\<rparr>"
  let ?fs = "put_inode i ?inode fs"
  have t: "tmpfs_truncate i n fs = (Returns (), ?fs)" using truncate_shrink assms by blast
  have c: "md_size (ti_metadata inode) \<le> length (kb_bytes b)" using assms by (simp add: content_ok_def kb_capacity_def)
  have l: "n < offset + length data" using assms by (cases data) auto
  have "\<exists>fs2. tmpfs_write_bytes i offset data ?fs = (Returns (length data), fs2) \<and> file_contents i fs2 = take offset (kb_bytes b) @ data"
    using assms c l
    by (simp add: tmpfs_write_bytes_def with_inode_def prepare_to_write_data_def tmpfs_metadata_def tmpfs_is_directory_def grow_for_write_def
        grown_content_def kb_capacity_def kb_set_size_def Let_def put_and_notify_def write_content_def copy_into_def file_contents_def inode_contents_def)
  moreover have "take offset (file_contents i fs) = take offset (kb_bytes b)" using assms by (simp add: file_contents_def inode_contents_def min_def)
  ultimately show ?thesis using t by auto
qed

theorem stale_bytes_witness:
  "\<exists>fs1 fs2. tmpfs_truncate (1, 2) 1 secret_files = (Returns (), fs1) \<and> tmpfs_write_bytes (1, 2) 5 ''!'' fs1 = (Returns (length ''!''), fs2)
    \<and> file_contents (1, 2) fs2 = take 5 (file_contents (1, 2) secret_files) @ ''!''"
  by (rule stale_bytes[of _ _ secret_file "\<lparr>kb_bytes = ''secret??'', kb_size = 6\<rparr>"])
    (simp_all add: secret_files_def secret_file_def content_ok_def kb_capacity_def tmpfs_is_directory_def is_directory_def is_setuid_def is_setgid_def no_metadata_def)



end
