(* ===== verification/Kernel_VFS.thy ===== *)
theory Kernel_VFS
  imports Kernel_TmpFS AK_LexicalPath
begin

text \<open>
  The virtual file system, \<open>Kernel/FileSystem/VirtualFileSystem.cpp\<close>: mounts, the resolution of paths with links and
  mounts, the veil, and the calls that create, remove and change files. The operations of the inodes are an argument;
  what is shown for every such argument does not depend on the kind of file system.
\<close>

subsection \<open>Custodies, mounts and descriptions\<close>

abbreviation O_RDONLY :: "32 word" where "O_RDONLY \<equiv> 0x1"
abbreviation O_WRONLY :: "32 word" where "O_WRONLY \<equiv> 0x2"
abbreviation O_EXEC :: "32 word" where "O_EXEC \<equiv> 0x4"
abbreviation O_CREAT :: "32 word" where "O_CREAT \<equiv> 0x8"
abbreviation O_EXCL :: "32 word" where "O_EXCL \<equiv> 0x10"
abbreviation O_TRUNC :: "32 word" where "O_TRUNC \<equiv> 0x40"
abbreviation O_DIRECTORY :: "32 word" where "O_DIRECTORY \<equiv> 0x200"
abbreviation O_NOFOLLOW :: "32 word" where "O_NOFOLLOW \<equiv> 0x400"
abbreviation O_NOFOLLOW_NOERROR :: "32 word" where "O_NOFOLLOW_NOERROR \<equiv> 0x20000000"
abbreviation O_UNLINK_INTERNAL :: "32 word" where "O_UNLINK_INTERNAL \<equiv> 0x40000000"
abbreviation MS_NODEV :: "32 word" where "MS_NODEV \<equiv> 0x1"
abbreviation MS_NOEXEC :: "32 word" where "MS_NOEXEC \<equiv> 0x2"
abbreviation MS_NOSUID :: "32 word" where "MS_NOSUID \<equiv> 0x4"
abbreviation MS_RDONLY :: "32 word" where "MS_RDONLY \<equiv> 0x10"

definition flag :: "32 word \<Rightarrow> 32 word \<Rightarrow> bool" where
  "flag options option_bit \<longleftrightarrow> options AND option_bit \<noteq> 0"

definition symlink_recursion_limit :: nat where "symlink_recursion_limit = 5"

definition root_mount_flags :: "32 word" where "root_mount_flags = MS_NODEV OR MS_NOSUID OR MS_RDONLY"

text \<open>The custodies from the parent up to the root.\<close>

fun ancestors :: "custody \<Rightarrow> custody list" where
  "ancestors (Custody None name inode flags) = []"
| "ancestors (Custody (Some parent) name inode flags) = parent # ancestors parent"

text \<open>The chain without its last element, which is the root, from the root down.\<close>

definition absolute_path :: "custody \<Rightarrow> string" where
  "absolute_path c =
     (if custody_parent c = None then ''/''
      else concat (map (\<lambda>custody. CHR ''/'' # custody_name custody) (rev (butlast (c # ancestors c)))))"

record mount =
  mnt_guest :: inode_id
  mnt_guest_fs :: nat
  mnt_host_custody :: "custody option"
  mnt_flags :: "32 word"

record 's vfs =
  v_files :: 's
  v_root_inode :: "inode_id option"
  v_mounts :: "mount list"

definition mount_host :: "mount \<Rightarrow> inode_id option" where
  "mount_host m = map_option custody_inode (mnt_host_custody m)"

definition find_mount_for_host :: "inode_id \<Rightarrow> 's vfs \<Rightarrow> mount option" where
  "find_mount_for_host inode v = find (\<lambda>m. mount_host m = Some inode) (v_mounts v)"

definition find_mount_for_guest :: "inode_id \<Rightarrow> 's vfs \<Rightarrow> mount option" where
  "find_mount_for_guest inode v = find (\<lambda>m. mnt_guest m = inode) (v_mounts v)"

definition root_custody :: "'s vfs \<Rightarrow> custody result" where
  "root_custody v = (case v_root_inode v of None \<Rightarrow> Inl VerifyFailed | Some inode \<Rightarrow> Inr (Custody None [] inode root_mount_flags))"

definition root_directory :: "process \<Rightarrow> 's vfs \<Rightarrow> custody result" where
  "root_directory p v = (case m_root_directory p of None \<Rightarrow> root_custody v | Some c \<Rightarrow> Inr c)"

definition custody_metadata :: "'s inode_ops \<Rightarrow> 's vfs \<Rightarrow> custody \<Rightarrow> inode_metadata" where
  "custody_metadata ops v c = op_metadata ops (custody_inode c) (v_files v)"

definition custody_is_readonly :: "'s inode_ops \<Rightarrow> 's vfs \<Rightarrow> custody \<Rightarrow> bool" where
  "custody_is_readonly ops v c \<longleftrightarrow> flag (custody_mount_flags c) MS_RDONLY \<or> op_is_readonly ops (fst (custody_inode c)) (v_files v)"

text \<open>A change of the files inside the virtual file system.\<close>

definition on_files :: "('s \<Rightarrow> 'a outcome \<times> 's) \<Rightarrow> 's vfs \<Rightarrow> 'a outcome \<times> 's vfs" where
  "on_files f v = (case f (v_files v) of (r, s) \<Rightarrow> (r, v\<lparr>v_files := s\<rparr>))"

subsection \<open>Mounts\<close>

definition vfs_mount :: "'s inode_ops \<Rightarrow> nat \<Rightarrow> custody \<Rightarrow> 32 word \<Rightarrow> 's vfs \<Rightarrow> unit outcome \<times> 's vfs" where
  "vfs_mount ops fsid mount_point flags v =
     (case op_root_inode ops fsid (v_files v) of
        Inl f \<Rightarrow> (Panics f, v)
      | Inr root \<Rightarrow> (Returns (), v\<lparr>v_mounts := v_mounts v @ [\<lparr>mnt_guest = root, mnt_guest_fs = fsid, mnt_host_custody = Some mount_point, mnt_flags = flags\<rparr>]\<rparr>))"

definition vfs_bind_mount :: "custody \<Rightarrow> custody \<Rightarrow> 32 word \<Rightarrow> 's vfs \<Rightarrow> unit outcome \<times> 's vfs" where
  "vfs_bind_mount source mount_point flags v =
     (Returns (), v\<lparr>v_mounts := v_mounts v @ [\<lparr>mnt_guest = custody_inode source, mnt_guest_fs = fst (custody_inode source), mnt_host_custody = Some mount_point, mnt_flags = flags\<rparr>]\<rparr>)"

fun set_first_flags :: "inode_id \<Rightarrow> 32 word \<Rightarrow> mount list \<Rightarrow> mount list" where
  "set_first_flags inode new_flags [] = []"
| "set_first_flags inode new_flags (m # ms) =
     (if mnt_guest m = inode then m\<lparr>mnt_flags := new_flags\<rparr> # ms else m # set_first_flags inode new_flags ms)"

definition vfs_remount :: "custody \<Rightarrow> 32 word \<Rightarrow> 's vfs \<Rightarrow> unit outcome \<times> 's vfs" where
  "vfs_remount mount_point new_flags v =
     (case find_mount_for_guest (custody_inode mount_point) v of
        None \<Rightarrow> (Fails ENODEV, v)
      | Some _ \<Rightarrow> (Returns (), v\<lparr>v_mounts := set_first_flags (custody_inode mount_point) new_flags (v_mounts v)\<rparr>))"

text \<open>\<open>Vector::unstable_take\<close>: the last element moves into the place of the one taken.\<close>

definition unstable_take :: "'a list \<Rightarrow> nat \<Rightarrow> 'a list" where
  "unstable_take xs i = butlast (xs[i := last xs, length xs - 1 := xs ! i])"

function unmount_loop :: "'s inode_ops \<Rightarrow> inode_id \<Rightarrow> nat \<Rightarrow> 's vfs \<Rightarrow> unit outcome \<times> 's vfs" where
  "unmount_loop ops guest_inode i v =
     (if i < length (v_mounts v) then
        if mnt_guest (v_mounts v ! i) = guest_inode then
          (case op_prepare_to_unmount ops (mnt_guest_fs (v_mounts v ! i)) (v_files v) of
             Returns _ \<Rightarrow> (Returns (), v\<lparr>v_mounts := unstable_take (v_mounts v) i\<rparr>)
           | Fails e \<Rightarrow> (Fails e, v) | Killed \<Rightarrow> (Killed, v) | Panics f \<Rightarrow> (Panics f, v))
        else unmount_loop ops guest_inode (i + 1) v
      else (Fails ENODEV, v))"
  by pat_completeness auto
termination by (relation "measure (\<lambda>(ops, g, i, v). length (v_mounts v) - i)") auto

declare unmount_loop.simps [simp del]

definition vfs_unmount :: "'s inode_ops \<Rightarrow> inode_id \<Rightarrow> 's vfs \<Rightarrow> unit outcome \<times> 's vfs" where
  "vfs_unmount ops guest_inode v = unmount_loop ops guest_inode 0 v"

definition vfs_mount_root :: "'s inode_ops \<Rightarrow> nat \<Rightarrow> 's vfs \<Rightarrow> bool outcome \<times> 's vfs" where
  "vfs_mount_root ops fsid v =
     (if v_root_inode v \<noteq> None then (Returns False, v)
      else case op_root_inode ops fsid (v_files v) of
          Inl f \<Rightarrow> (Panics f, v)
        | Inr root \<Rightarrow>
            if \<not> is_directory (md_mode (op_metadata ops root (v_files v))) then (Returns False, v)
            else (Returns True, v\<lparr>v_root_inode := Some root,
              v_mounts := v_mounts v @ [\<lparr>mnt_guest = root, mnt_guest_fs = fsid, mnt_host_custody = None, mnt_flags = root_mount_flags\<rparr>]\<rparr>))"

text \<open>The entries the callback of \<open>traverse_directory_inode\<close> sees.\<close>

definition resolved_entry :: "'s inode_ops \<Rightarrow> inode_id \<Rightarrow> 's vfs \<Rightarrow> string \<times> inode_id \<Rightarrow> (string \<times> inode_id) result" where
  "resolved_entry ops dir_inode v entry =
     (let resolved_inode = (case find_mount_for_host (snd entry) v of Some m \<Rightarrow> mnt_guest m | None \<Rightarrow> snd entry) in
      and_then (op_root_inode ops (fst dir_inode) (v_files v)) (\<lambda>fs_root.
      and_then (case v_root_inode v of None \<Rightarrow> Inl VerifyFailed | Some vfs_root \<Rightarrow> Inr vfs_root) (\<lambda>vfs_root.
        if dir_inode = fs_root \<and> dir_inode \<noteq> vfs_root \<and> fst entry = ''..'' then
          (case find_mount_for_guest dir_inode v of
             None \<Rightarrow> Inl VerifyFailed
           | Some m \<Rightarrow> (case mount_host m of None \<Rightarrow> Inl VerifyFailed | Some host \<Rightarrow> Inr (fst entry, host)))
        else Inr (fst entry, resolved_inode))))"

fun resolved_entries :: "'s inode_ops \<Rightarrow> inode_id \<Rightarrow> 's vfs \<Rightarrow> (string \<times> inode_id) list \<Rightarrow> (string \<times> inode_id) list result" where
  "resolved_entries ops dir_inode v [] = Inr []"
| "resolved_entries ops dir_inode v (entry # entries) =
     and_then (resolved_entry ops dir_inode v entry) (\<lambda>e. and_then (resolved_entries ops dir_inode v entries) (\<lambda>es. Inr (e # es)))"

definition vfs_traverse_directory_inode :: "'s inode_ops \<Rightarrow> inode_id \<Rightarrow> 's vfs \<Rightarrow> (string \<times> inode_id) list outcome" where
  "vfs_traverse_directory_inode ops dir_inode v =
     (case op_traverse_as_directory ops dir_inode (v_files v) of
        Returns entries \<Rightarrow> (case resolved_entries ops dir_inode v entries of Inl f \<Rightarrow> Panics f | Inr es \<Rightarrow> Returns es)
      | Fails e \<Rightarrow> Fails e | Killed \<Rightarrow> Killed | Panics f \<Rightarrow> Panics f)"

subsection \<open>The veil\<close>

definition find_matching_unveiled_path :: "process \<Rightarrow> string \<Rightarrow> unveil_node option result" where
  "find_matching_unveiled_path p path =
     (if trie_is_empty (m_unveiled_paths p) then Inr None
      else and_then (make_lexical_path path) (\<lambda>lexical_path.
        Inr (Some (snd (traverse_until_last_accessible_node (m_unveiled_paths p) (m_parts lexical_path))))))"

abbreviation Unveil_Read :: "32 word" where "Unveil_Read \<equiv> 0x1"
abbreviation Unveil_Write :: "32 word" where "Unveil_Write \<equiv> 0x2"
abbreviation Unveil_Execute :: "32 word" where "Unveil_Execute \<equiv> 0x4"
abbreviation Unveil_CreateOrRemove :: "32 word" where "Unveil_CreateOrRemove \<equiv> 0x8"
abbreviation Unveil_Browse :: "32 word" where "Unveil_Browse \<equiv> 0x10"

text \<open>Whether permissions suffice for the options of a call.\<close>

definition permissions_suffice :: "32 word \<Rightarrow> 32 word \<Rightarrow> bool" where
  "permissions_suffice perms options \<longleftrightarrow>
     \<not> (flag options O_CREAT \<and> perms AND Unveil_CreateOrRemove = 0)
     \<and> (if flag options O_UNLINK_INTERNAL then perms AND Unveil_CreateOrRemove \<noteq> 0
        else
          (if flag options O_RDONLY then
             if flag options O_DIRECTORY then perms AND (Unveil_Read OR Unveil_Browse) \<noteq> 0 else perms AND Unveil_Read \<noteq> 0
           else True)
          \<and> \<not> (flag options O_WRONLY \<and> perms AND Unveil_Write = 0)
          \<and> \<not> (flag options O_EXEC \<and> perms AND Unveil_Execute = 0))"

definition validate_path_against_process_veil :: "process \<Rightarrow> string \<Rightarrow> 32 word \<Rightarrow> unit outcome" where
  "validate_path_against_process_veil p path options =
     (if m_veil_state p = VeilNone then Returns ()
      else if path = ''/usr/lib/Loader.so'' then Returns ()
      else case contains (Some path) (Some ''/..'') CaseSensitive of
          Inl f \<Rightarrow> Panics f
        | Inr True \<Rightarrow> Fails EINVAL
        | Inr False \<Rightarrow>
            (case find_matching_unveiled_path p path of
               Inl f \<Rightarrow> Panics f
             | Inr None \<Rightarrow> Fails ENOENT
             | Inr (Some node) \<Rightarrow>
                 (case metadata_value node of
                    Inl f \<Rightarrow> Panics f
                  | Inr m \<Rightarrow> if permissions_suffice (permissions m) options then Returns () else Fails EACCES)))"

subsection \<open>Resolving paths\<close>

text \<open>\<open>Inode::read_entire\<close>: \<open>nread\<close> bytes at a time, into a buffer of 4096.\<close>

partial_function (option) read_entire_loop :: "'s inode_ops \<Rightarrow> inode_id \<Rightarrow> 's \<Rightarrow> nat \<Rightarrow> string \<Rightarrow> string outcome option" where
  "read_entire_loop ops i s offset builder =
     (case op_read_bytes ops i offset 4096 s of
        Returns chunk \<Rightarrow>
          if length chunk > 4096 then Some (Panics VerifyFailed)
          else if chunk = [] then Some (Returns builder)
          else if length chunk < 4096 then Some (Returns (builder @ chunk))
          else read_entire_loop ops i s (offset + length chunk) (builder @ chunk)
      | Fails e \<Rightarrow> Some (Fails e) | Killed \<Rightarrow> Some Killed | Panics f \<Rightarrow> Some (Panics f))"

declare read_entire_loop.simps [code]

definition read_entire :: "'s inode_ops \<Rightarrow> inode_id \<Rightarrow> 's \<Rightarrow> string outcome" where
  "read_entire ops i s = (case read_entire_loop ops i s 0 [] of None \<Rightarrow> Panics Diverges | Some r \<Rightarrow> r)"

text \<open>
  The result of a resolution: the custody or an error, and what \<open>out_parent\<close> points to afterwards. A caller that passes
  no \<open>out_parent\<close> ignores it.
\<close>

type_synonym resolution = "custody outcome \<times> custody option"

text \<open>\<open>VFS::resolve_path\<close> after \<open>resolve_path_without_veil\<close>.\<close>

definition check_veil :: "process \<Rightarrow> 32 word \<Rightarrow> resolution \<Rightarrow> resolution" where
  "check_veil p options resolution = proceed resolution (\<lambda>custody out_parent.
     proceed (validate_path_against_process_veil p (absolute_path custody) options, out_parent) (\<lambda>_ out_parent. (Returns custody, out_parent)))"

text \<open>\<open>Inode::resolve_as_link\<close>; \<open>again\<close> is \<open>resolve_path_without_veil\<close> on the next level.\<close>

definition resolve_as_link :: "'s inode_ops \<Rightarrow> 's vfs \<Rightarrow> process \<Rightarrow> 32 word \<Rightarrow> (string \<Rightarrow> custody \<Rightarrow> custody option \<Rightarrow> resolution)
    \<Rightarrow> inode_id \<Rightarrow> custody \<Rightarrow> custody option \<Rightarrow> resolution" where
  "resolve_as_link ops v p options again inode base out_parent =
     proceed (read_entire ops inode (v_files v), out_parent) (\<lambda>path out_parent. check_veil p options (again path base out_parent))"

definition safe_to_follow_symlink :: "process \<Rightarrow> inode_metadata \<Rightarrow> inode_metadata \<Rightarrow> bool" where
  "safe_to_follow_symlink p metadata parent_metadata \<longleftrightarrow>
     m_euid p = md_uid metadata \<or> \<not> (is_sticky (md_mode parent_metadata) \<and> md_mode parent_metadata AND 2 \<noteq> 0)
     \<or> md_uid metadata = md_uid parent_metadata"

text \<open>
  A link that is a part of a path, with its custody and its parent: \<open>remaining_path\<close> is the text of the path behind it, if there
  are more parts.
\<close>

definition follow_link :: "'s inode_ops \<Rightarrow> 's vfs \<Rightarrow> process \<Rightarrow> 32 word \<Rightarrow> (string \<Rightarrow> custody \<Rightarrow> custody option \<Rightarrow> resolution)
    \<Rightarrow> bool \<Rightarrow> string \<Rightarrow> custody \<Rightarrow> custody \<Rightarrow> custody option \<Rightarrow> resolution" where
  "follow_link ops v p options again have_more_parts remaining_path parent custody out_parent =
     (if \<not> have_more_parts \<and> flag options O_NOFOLLOW then (Fails ELOOP, out_parent)
      else if \<not> have_more_parts \<and> flag options O_NOFOLLOW_NOERROR then (Returns custody, custody_parent custody)
      else if \<not> safe_to_follow_symlink p (custody_metadata ops v custody) (custody_metadata ops v parent) then (Fails EACCES, out_parent)
      else
        proceed (validate_path_against_process_veil p (absolute_path custody) options, out_parent) (\<lambda>_ out_parent.
        proceed (resolve_as_link ops v p options again (custody_inode custody) parent out_parent) (\<lambda>symlink_target out_parent.
          if \<not> have_more_parts then (Returns symlink_target, out_parent)
          else again (CHR ''.'' # remaining_path) symlink_target out_parent)))"

text \<open>The custody of a part: what is mounted on its inode, or the inode.\<close>

definition child_custody :: "'s vfs \<Rightarrow> custody \<Rightarrow> string \<Rightarrow> inode_id \<Rightarrow> custody" where
  "child_custody v parent part child_inode =
     (case find_mount_for_host child_inode v of
        None \<Rightarrow> Custody (Some parent) part child_inode (custody_mount_flags parent)
      | Some m \<Rightarrow> Custody (Some parent) part (mnt_guest m) (mnt_flags m))"

text \<open>The loop over the parts of a path. \<open>start\<close> is where the first of the parts begins in the path.\<close>

fun resolve_parts :: "'s inode_ops \<Rightarrow> 's vfs \<Rightarrow> process \<Rightarrow> 32 word \<Rightarrow> (string \<Rightarrow> custody \<Rightarrow> custody option \<Rightarrow> resolution)
    \<Rightarrow> string \<Rightarrow> nat \<Rightarrow> string list \<Rightarrow> custody \<Rightarrow> custody option \<Rightarrow> resolution" where
  "resolve_parts ops v p options again path start [] custody out_parent = (Returns custody, custody_parent custody)"
| "resolve_parts ops v p options again path start (part # parts) parent out_parent =
     (if \<not> is_directory (md_mode (custody_metadata ops v parent)) then (Fails ENOTDIR, out_parent)
      else if \<not> may_execute p (custody_metadata ops v parent) then (Fails EACCES, out_parent)
      else if part = ''..'' then
        resolve_parts ops v p options again path (start + length part + 1) parts (case custody_parent parent of None \<Rightarrow> parent | Some c \<Rightarrow> c) out_parent
      else if part = ''.'' \<or> part = [] then
        resolve_parts ops v p options again path (start + length part + 1) parts parent out_parent
      else
        case op_lookup ops (custody_inode parent) part (v_files v) of
          Inl f \<Rightarrow> (Panics f, out_parent)
        | Inr None \<Rightarrow> (Fails ENOENT, if parts \<noteq> [] then None else Some parent)
        | Inr (Some child_inode) \<Rightarrow>
            let custody = child_custody v parent part child_inode in
            if is_symlink (md_mode (custody_metadata ops v custody)) then
              follow_link ops v p options again (parts \<noteq> []) (drop (start + length part) path) parent custody out_parent
            else resolve_parts ops v p options again path (start + length part + 1) parts custody out_parent)"

text \<open>The first argument is how many levels of links are left, \<open>symlink_recursion_limit - symlink_recursion_level\<close>.\<close>

primrec resolve_path_without_veil :: "nat \<Rightarrow> 's inode_ops \<Rightarrow> 's vfs \<Rightarrow> process \<Rightarrow> 32 word \<Rightarrow> string \<Rightarrow> custody \<Rightarrow> custody option \<Rightarrow> resolution" where
  "resolve_path_without_veil 0 ops v p options path base out_parent = (Fails ELOOP, out_parent)"
| "resolve_path_without_veil (Suc left) ops v p options path base out_parent =
     (if path = [] then (Fails EINVAL, out_parent)
      else case split_view path (CHR ''/'') True of
          Inl f \<Rightarrow> (Panics f, out_parent)
        | Inr parts \<Rightarrow>
            (case root_directory p v of
               Inl f \<Rightarrow> (Panics f, out_parent)
             | Inr current_root \<Rightarrow>
                 resolve_parts ops v p options (resolve_path_without_veil left ops v p options) path 0 parts
                   (if path ! 0 = CHR ''/'' then current_root else base) out_parent))"

definition resolve_path :: "'s inode_ops \<Rightarrow> 's vfs \<Rightarrow> process \<Rightarrow> string \<Rightarrow> custody \<Rightarrow> 32 word \<Rightarrow> resolution" where
  "resolve_path ops v p path base options =
     check_veil p options (resolve_path_without_veil symlink_recursion_limit ops v p options path base None)"

subsection \<open>The calls\<close>

text \<open>The base name of a path.\<close>

definition path_basename :: "string \<Rightarrow> string result" where
  "path_basename path = and_then (make_lexical_path path) (\<lambda>p. Inr (m_basename p))"

definition with_basename :: "string \<Rightarrow> 's vfs \<Rightarrow> (string \<Rightarrow> 'a outcome \<times> 's vfs) \<Rightarrow> 'a outcome \<times> 's vfs" where
  "with_basename path v rest = (case path_basename path of Inl f \<Rightarrow> (Panics f, v) | Inr name \<Rightarrow> rest name)"

text \<open>A resolved path, or the error.\<close>

definition with_custody :: "custody outcome \<Rightarrow> 's vfs \<Rightarrow> (custody \<Rightarrow> 'a outcome \<times> 's vfs) \<Rightarrow> 'a outcome \<times> 's vfs" where
  "with_custody r v rest = proceed (r, v) (\<lambda>custody v. rest custody)"

text \<open>What a call does with an error of its own; a resolution that does not come back ends it.\<close>

definition settled :: "custody outcome \<Rightarrow> 's vfs \<Rightarrow> 'a outcome \<times> 's vfs \<Rightarrow> 'a outcome \<times> 's vfs" where
  "settled r v rest = (case r of Killed \<Rightarrow> (Killed, v) | Panics f \<Rightarrow> (Panics f, v) | Returns _ \<Rightarrow> rest | Fails _ \<Rightarrow> rest)"

text \<open>Dereferencing an \<open>out_parent\<close>.\<close>

definition deref :: "custody option \<Rightarrow> 's vfs \<Rightarrow> (custody \<Rightarrow> 'a outcome \<times> 's vfs) \<Rightarrow> 'a outcome \<times> 's vfs" where
  "deref c v rest = (case c of None \<Rightarrow> (Panics VerifyFailed, v) | Some custody \<Rightarrow> rest custody)"

definition vfs_utime :: "'s inode_ops \<Rightarrow> process \<Rightarrow> string \<Rightarrow> custody \<Rightarrow> int \<Rightarrow> int \<Rightarrow> 's vfs \<Rightarrow> unit outcome \<times> 's vfs" where
  "vfs_utime ops p path base atime mtime v =
     with_custody (fst (resolve_path ops v p path base 0)) v (\<lambda>custody.
       if \<not> is_superuser p \<and> md_uid (custody_metadata ops v custody) \<noteq> m_euid p then (Fails EACCES, v)
       else if custody_is_readonly ops v custody then (Fails EROFS, v)
       else
         proceed (on_files (op_set_atime ops (custody_inode custody) atime) v) (\<lambda>_ v.
         on_files (op_set_mtime ops (custody_inode custody) mtime) v))"

definition vfs_lookup_metadata :: "'s inode_ops \<Rightarrow> process \<Rightarrow> string \<Rightarrow> custody \<Rightarrow> 32 word \<Rightarrow> 's vfs \<Rightarrow> inode_metadata outcome" where
  "vfs_lookup_metadata ops p path base options v =
     fst (with_custody (fst (resolve_path ops v p path base options)) v (\<lambda>custody. (Returns (custody_metadata ops v custody), v)))"

record file_description =
  fd_custody :: "custody option"
  fd_inode :: inode_id
  fd_readable :: bool
  fd_writable :: bool
  fd_file_flags :: "32 word"

text \<open>\<open>FileDescription::create\<close>, \<open>set_rw_mode\<close> and \<open>set_file_flags\<close>.\<close>

definition describe :: "custody \<Rightarrow> 32 word \<Rightarrow> file_description" where
  "describe custody options = \<lparr>fd_custody = Some custody, fd_inode = custody_inode custody, fd_readable = flag options O_RDONLY,
     fd_writable = flag options O_WRONLY, fd_file_flags = options\<rparr>"

definition vfs_create :: "'s inode_ops \<Rightarrow> process \<Rightarrow> string \<Rightarrow> 32 word \<Rightarrow> mode \<Rightarrow> custody \<Rightarrow> (uid \<times> gid) option \<Rightarrow> 's vfs
    \<Rightarrow> file_description outcome \<times> 's vfs" where
  "vfs_create ops p path options mode parent_custody owner v =
     with_basename path v (\<lambda>name.
     proceed (validate_path_against_process_veil p (absolute_path parent_custody @ ''/'' @ name) options, v) (\<lambda>_ v.
       let mode = (if \<not> is_socket mode \<and> \<not> is_fifo mode \<and> \<not> is_block_device mode \<and> \<not> is_character_device mode then mode OR S_IFREG else mode) in
       if \<not> may_write p (custody_metadata ops v parent_custody) then (Fails EACCES, v)
       else if custody_is_readonly ops v parent_custody then (Fails EROFS, v)
       else
         let (uid, gid) = (case owner of Some ids \<Rightarrow> ids | None \<Rightarrow> (m_euid p, m_egid p)) in
         proceed (on_files (op_create_child ops (custody_inode parent_custody) name mode 0 uid gid) v) (\<lambda>inode v.
           (Returns (describe (Custody (Some parent_custody) name inode (custody_mount_flags parent_custody)) options), v))))"

text \<open>
  What \<open>open\<close> does with the file a path leads to. Opening a fifo or a device is the business of these: \<open>open_fifo\<close> is told
  whether it is for writing, \<open>open_device\<close> knows no device of the numbers if it gives \<open>None\<close>. \<open>preopen_fd\<close> is the
  description the inode has already; \<open>now\<close> is the time.
\<close>

definition open_existing :: "'s inode_ops \<Rightarrow> (inode_id \<Rightarrow> file_description option) \<Rightarrow> (inode_id \<Rightarrow> bool \<Rightarrow> file_description outcome)
    \<Rightarrow> (nat \<Rightarrow> nat \<Rightarrow> 32 word \<Rightarrow> file_description outcome option) \<Rightarrow> int \<Rightarrow> process \<Rightarrow> 32 word \<Rightarrow> custody \<Rightarrow> 's vfs \<Rightarrow> file_description outcome \<times> 's vfs" where
  "open_existing ops preopen_fd open_fifo open_device now p options custody v =
     (let inode = custody_inode custody; metadata = custody_metadata ops v custody; mode = md_mode metadata in
      if flag options O_DIRECTORY \<and> \<not> is_directory mode then (Fails ENOTDIR, v)
      else if flag options O_RDONLY \<and> \<not> may_read p metadata then (Fails EACCES, v)
      else if flag options O_WRONLY \<and> \<not> may_write p metadata then (Fails EACCES, v)
      else if flag options O_WRONLY \<and> is_directory mode then (Fails EISDIR, v)
      else if flag options O_EXEC \<and> (\<not> may_execute p metadata \<or> flag (custody_mount_flags custody) MS_NOEXEC) then (Fails EACCES, v)
      else case preopen_fd inode of Some description \<Rightarrow> (Returns description, v) | None \<Rightarrow>
        if is_fifo mode then
          if flag options O_WRONLY \<or> flag options O_RDONLY then
            proceed (open_fifo inode (flag options O_WRONLY), v) (\<lambda>description v.
              (Returns (description\<lparr>fd_readable := flag options O_RDONLY, fd_writable := flag options O_WRONLY,
                 fd_file_flags := options, fd_inode := inode\<rparr>), v))
          else (Fails EINVAL, v)
        else if is_character_device mode \<or> is_block_device mode then
          if flag (custody_mount_flags custody) MS_NODEV then (Fails EACCES, v)
          else case open_device (md_major metadata) (md_minor metadata) options of
              None \<Rightarrow> (Fails ENODEV, v)
            | Some r \<Rightarrow> proceed (r, v) (\<lambda>description v. (Returns (description\<lparr>fd_inode := inode\<rparr>), v))
        else if flag options O_WRONLY \<and> custody_is_readonly ops v custody then (Fails EROFS, v)
        else
          proceed
            (if flag options O_WRONLY \<and> flag options O_TRUNC then
               proceed (on_files (op_truncate ops inode 0) v) (\<lambda>_ v. (Returns (), snd (on_files (op_set_mtime ops inode now) v)))
             else (Returns (), v)) (\<lambda>_ v.
          (Returns (describe custody options), v)))"

definition vfs_open :: "'s inode_ops \<Rightarrow> (inode_id \<Rightarrow> file_description option) \<Rightarrow> (inode_id \<Rightarrow> bool \<Rightarrow> file_description outcome)
    \<Rightarrow> (nat \<Rightarrow> nat \<Rightarrow> 32 word \<Rightarrow> file_description outcome option) \<Rightarrow> int \<Rightarrow> process \<Rightarrow> string \<Rightarrow> 32 word \<Rightarrow> mode \<Rightarrow> custody \<Rightarrow> (uid \<times> gid) option
    \<Rightarrow> 's vfs \<Rightarrow> file_description outcome \<times> 's vfs" where
  "vfs_open ops preopen_fd open_fifo open_device now p path options mode base owner v =
     (if flag options O_CREAT \<and> flag options O_DIRECTORY then (Fails EINVAL, v)
      else
        let (custody_or_error, parent_custody) = resolve_path ops v p path base options in
        settled custody_or_error v (
        if flag options O_CREAT \<and> parent_custody = None then (Fails ENOENT, v)
        else if flag options O_CREAT \<and> custody_or_error = Fails ENOENT then
          deref parent_custody v (\<lambda>parent_custody. vfs_create ops p path options mode parent_custody owner v)
        else with_custody custody_or_error v (\<lambda>custody.
          if flag options O_CREAT \<and> flag options O_EXCL then (Fails EEXIST, v)
          else open_existing ops preopen_fd open_fifo open_device now p options custody v)))"

text \<open>
  \<open>mknod\<close>, \<open>mkdir\<close> and \<open>symlink\<close> begin in the same way: the path must not exist, and its parent must.
\<close>

definition new_entry :: "'s inode_ops \<Rightarrow> process \<Rightarrow> string \<Rightarrow> custody \<Rightarrow> 's vfs \<Rightarrow> (custody \<Rightarrow> string \<Rightarrow> 'a outcome \<times> 's vfs) \<Rightarrow> 'a outcome \<times> 's vfs" where
  "new_entry ops p path base v rest =
     (let (existing, parent_custody) = resolve_path ops v p path base 0 in
      settled existing v (
        case existing of
          Returns _ \<Rightarrow> (Fails EEXIST, v)
        | Fails e \<Rightarrow>
            (case parent_custody of
               None \<Rightarrow> (Fails ENOENT, v)
             | Some parent_custody \<Rightarrow>
                 if e \<noteq> ENOENT then (Fails e, v)
                 else if \<not> may_write p (custody_metadata ops v parent_custody) then (Fails EACCES, v)
                 else if custody_is_readonly ops v parent_custody then (Fails EROFS, v)
                 else with_basename path v (rest parent_custody))))"

definition vfs_mknod :: "'s inode_ops \<Rightarrow> process \<Rightarrow> string \<Rightarrow> mode \<Rightarrow> nat \<Rightarrow> custody \<Rightarrow> 's vfs \<Rightarrow> unit outcome \<times> 's vfs" where
  "vfs_mknod ops p path mode dev base v =
     (if \<not> is_regular_file mode \<and> \<not> is_block_device mode \<and> \<not> is_character_device mode \<and> \<not> is_fifo mode \<and> \<not> is_socket mode
      then (Fails EINVAL, v)
      else new_entry ops p path base v (\<lambda>parent_custody name.
        proceed (on_files (op_create_child ops (custody_inode parent_custody) name mode dev (m_euid p) (m_egid p)) v) (\<lambda>_ v. (Returns (), v))))"

fun trim_slashes :: "string \<Rightarrow> string" where
  "trim_slashes path = (if length path > 1 \<and> last path = CHR ''/'' then trim_slashes (butlast path) else path)"

declare trim_slashes.simps [simp del]

definition vfs_mkdir :: "'s inode_ops \<Rightarrow> process \<Rightarrow> string \<Rightarrow> mode \<Rightarrow> custody \<Rightarrow> 's vfs \<Rightarrow> unit outcome \<times> 's vfs" where
  "vfs_mkdir ops p path mode base v =
     new_entry ops p (trim_slashes path) base v (\<lambda>parent_custody name.
       proceed (on_files (op_create_child ops (custody_inode parent_custody) name (S_IFDIR OR mode) 0 (m_euid p) (m_egid p)) v) (\<lambda>_ v. (Returns (), v)))"

definition vfs_symlink :: "'s inode_ops \<Rightarrow> process \<Rightarrow> string \<Rightarrow> string \<Rightarrow> custody \<Rightarrow> 's vfs \<Rightarrow> unit outcome \<times> 's vfs" where
  "vfs_symlink ops p target linkpath base v =
     new_entry ops p linkpath base v (\<lambda>parent_custody name.
       proceed (on_files (op_create_child ops (custody_inode parent_custody) name (S_IFLNK OR 0x1a4) 0 (m_euid p) (m_egid p)) v) (\<lambda>inode v.
       proceed (on_files (op_write_bytes ops inode 0 target) v) (\<lambda>_ v. (Returns (), v))))"

definition vfs_access :: "'s inode_ops \<Rightarrow> process \<Rightarrow> string \<Rightarrow> 32 word \<Rightarrow> custody \<Rightarrow> 's vfs \<Rightarrow> unit outcome" where
  "vfs_access ops p path mode base v =
     fst (with_custody (fst (resolve_path ops v p path base 0)) v (\<lambda>custody.
       let metadata = custody_metadata ops v custody in
       if flag mode 4 \<and> \<not> may_read p metadata then (Fails EACCES, v)
       else if flag mode 2 \<and> \<not> may_write p metadata then (Fails EACCES, v)
       else if flag mode 2 \<and> custody_is_readonly ops v custody then (Fails EROFS, v)
       else if flag mode 1 \<and> \<not> may_execute p metadata then (Fails EACCES, v)
       else (Returns (), v)))"

definition vfs_open_directory :: "'s inode_ops \<Rightarrow> process \<Rightarrow> string \<Rightarrow> custody \<Rightarrow> 's vfs \<Rightarrow> custody outcome" where
  "vfs_open_directory ops p path base v =
     fst (with_custody (fst (resolve_path ops v p path base 0)) v (\<lambda>custody.
       if \<not> is_directory (md_mode (custody_metadata ops v custody)) then (Fails ENOTDIR, v)
       else if \<not> may_execute p (custody_metadata ops v custody) then (Fails EACCES, v)
       else (Returns custody, v)))"

definition chmod_custody :: "'s inode_ops \<Rightarrow> process \<Rightarrow> custody \<Rightarrow> mode \<Rightarrow> 's vfs \<Rightarrow> unit outcome \<times> 's vfs" where
  "chmod_custody ops p custody mode v =
     (let metadata = custody_metadata ops v custody in
      if m_euid p \<noteq> md_uid metadata \<and> \<not> is_superuser p then (Fails EPERM, v)
      else if custody_is_readonly ops v custody then (Fails EROFS, v)
      else on_files (op_chmod ops (custody_inode custody) ((md_mode metadata AND NOT 0xfff) OR (mode AND 0xfff))) v)"

definition vfs_chmod :: "'s inode_ops \<Rightarrow> process \<Rightarrow> string \<Rightarrow> mode \<Rightarrow> custody \<Rightarrow> 's vfs \<Rightarrow> unit outcome \<times> 's vfs" where
  "vfs_chmod ops p path mode base v =
     with_custody (fst (resolve_path ops v p path base 0)) v (\<lambda>custody. chmod_custody ops p custody mode v)"

definition chown_custody :: "'s inode_ops \<Rightarrow> process \<Rightarrow> custody \<Rightarrow> uid \<Rightarrow> gid \<Rightarrow> 's vfs \<Rightarrow> unit outcome \<times> 's vfs" where
  "chown_custody ops p custody a_uid a_gid v =
     (let metadata = custody_metadata ops v custody; inode = custody_inode custody in
      if m_euid p \<noteq> md_uid metadata \<and> \<not> is_superuser p then (Fails EPERM, v)
      else if a_uid \<noteq> - 1 \<and> m_euid p \<noteq> a_uid \<and> \<not> is_superuser p then (Fails EPERM, v)
      else if a_gid \<noteq> - 1 \<and> \<not> in_group p a_gid \<and> \<not> is_superuser p then (Fails EPERM, v)
      else if custody_is_readonly ops v custody then (Fails EROFS, v)
      else
        let new_uid = (if a_uid \<noteq> - 1 then a_uid else md_uid metadata);
            new_gid = (if a_gid \<noteq> - 1 then a_gid else md_gid metadata) in
        proceed
          (if is_setuid (md_mode metadata) \<or> is_setgid (md_mode metadata)
           then on_files (op_chmod ops inode (md_mode metadata AND NOT (S_ISUID OR S_ISGID))) v
           else (Returns (), v)) (\<lambda>_ v.
        on_files (op_chown ops inode new_uid new_gid) v))"

definition vfs_chown :: "'s inode_ops \<Rightarrow> process \<Rightarrow> string \<Rightarrow> uid \<Rightarrow> gid \<Rightarrow> custody \<Rightarrow> 's vfs \<Rightarrow> unit outcome \<times> 's vfs" where
  "vfs_chown ops p path a_uid a_gid base v =
     with_custody (fst (resolve_path ops v p path base 0)) v (\<lambda>custody. chown_custody ops p custody a_uid a_gid v)"

text \<open>A sticky directory protects the files of others.\<close>

definition sticky_forbids :: "process \<Rightarrow> inode_metadata \<Rightarrow> inode_metadata \<Rightarrow> bool" where
  "sticky_forbids p parent_metadata metadata \<longleftrightarrow>
     is_sticky (md_mode parent_metadata) \<and> \<not> is_superuser p \<and> md_uid metadata \<noteq> m_euid p"

text \<open>
  \<open>rename\<close> once both paths are resolved; \<open>new_custody\<close> is \<open>None\<close> if there is nothing at the new path.
\<close>

definition rename_entries :: "'s inode_ops \<Rightarrow> process \<Rightarrow> string \<Rightarrow> string \<Rightarrow> custody \<Rightarrow> custody \<Rightarrow> custody option \<Rightarrow> custody \<Rightarrow> 's vfs \<Rightarrow> unit outcome \<times> 's vfs" where
  "rename_entries ops p old_path new_path old_custody old_parent new_custody new_parent v =
     (let md = custody_metadata ops v; old_inode = custody_inode old_custody in
      if fst (custody_inode old_parent) \<noteq> fst (custody_inode new_parent) then (Fails EXDEV, v)
      else if \<exists>new_ancestor \<in> set (new_parent # ancestors new_parent). custody_inode new_ancestor = old_inode then (Fails EDIRINTOSELF, v)
      else if \<not> may_write p (md new_parent) then (Fails EACCES, v)
      else if \<not> may_write p (md old_parent) then (Fails EACCES, v)
      else if sticky_forbids p (md old_parent) (md old_custody) then (Fails EACCES, v)
      else if custody_is_readonly ops v old_parent \<or> custody_is_readonly ops v new_parent then (Fails EROFS, v)
      else
        with_basename new_path v (\<lambda>new_basename.
        proceed
          (case new_custody of
             None \<Rightarrow> (Returns True, v)
           | Some new_custody \<Rightarrow>
               if custody_inode new_custody = old_inode then (Returns False, v)
               else if sticky_forbids p (md new_parent) (md new_custody) then (Fails EACCES, v)
               else if is_directory (md_mode (md new_custody)) \<and> \<not> is_directory (md_mode (md old_custody)) then (Fails EISDIR, v)
               else proceed (on_files (op_remove_child ops (custody_inode new_parent) new_basename) v) (\<lambda>_ v. (Returns True, v))) (\<lambda>go_on v.
        if \<not> go_on then (Returns (), v)
        else
          proceed (on_files (op_add_child ops (custody_inode new_parent) old_inode new_basename (md_mode (custody_metadata ops v old_custody))) v) (\<lambda>_ v.
          with_basename old_path v (\<lambda>old_basename.
            on_files (op_remove_child ops (custody_inode old_parent) old_basename) v)))))"

definition vfs_rename :: "'s inode_ops \<Rightarrow> process \<Rightarrow> string \<Rightarrow> string \<Rightarrow> custody \<Rightarrow> 's vfs \<Rightarrow> unit outcome \<times> 's vfs" where
  "vfs_rename ops p old_path new_path base v =
     (let (old_custody_or_error, old_parent_custody) = resolve_path ops v p old_path base O_NOFOLLOW_NOERROR in
      with_custody old_custody_or_error v (\<lambda>old_custody.
        let (new_custody_or_error, new_parent_custody) = resolve_path ops v p new_path base 0 in
        settled new_custody_or_error v (
          case new_custody_or_error of
            Fails e \<Rightarrow>
              if e \<noteq> ENOENT \<or> new_parent_custody = None then (Fails e, v)
              else
                deref old_parent_custody v (\<lambda>old_parent. deref new_parent_custody v (\<lambda>new_parent.
                  rename_entries ops p old_path new_path old_custody old_parent None new_parent v))
          | Returns new_custody \<Rightarrow>
              deref old_parent_custody v (\<lambda>old_parent. deref new_parent_custody v (\<lambda>new_parent.
                rename_entries ops p old_path new_path old_custody old_parent (Some new_custody) new_parent v)))))"

definition hard_link_allowed :: "process \<Rightarrow> inode_metadata \<Rightarrow> bool" where
  "hard_link_allowed p metadata \<longleftrightarrow>
     m_euid p = md_uid metadata
     \<or> is_regular_file (md_mode metadata) \<and> \<not> is_setuid (md_mode metadata)
       \<and> \<not> (is_setgid (md_mode metadata) \<and> md_mode metadata AND 8 \<noteq> 0) \<and> may_write p metadata"

definition vfs_link :: "'s inode_ops \<Rightarrow> process \<Rightarrow> string \<Rightarrow> string \<Rightarrow> custody \<Rightarrow> 's vfs \<Rightarrow> unit outcome \<times> 's vfs" where
  "vfs_link ops p old_path new_path base v =
     with_custody (fst (resolve_path ops v p old_path base 0)) v (\<lambda>old_custody.
       let (new_custody_or_error, parent_custody) = resolve_path ops v p new_path base 0;
           old_metadata = custody_metadata ops v old_custody in
       settled new_custody_or_error v (
         case new_custody_or_error of
           Returns _ \<Rightarrow> (Fails EEXIST, v)
         | Fails _ \<Rightarrow>
             (case parent_custody of
                None \<Rightarrow> (Fails ENOENT, v)
              | Some parent_custody \<Rightarrow>
                  if fst (custody_inode parent_custody) \<noteq> fst (custody_inode old_custody) then (Fails EXDEV, v)
                  else if \<not> may_write p (custody_metadata ops v parent_custody) then (Fails EACCES, v)
                  else if is_directory (md_mode old_metadata) then (Fails EPERM, v)
                  else if custody_is_readonly ops v parent_custody then (Fails EROFS, v)
                  else if \<not> hard_link_allowed p old_metadata then (Fails EPERM, v)
                  else with_basename new_path v (\<lambda>name.
                    on_files (op_add_child ops (custody_inode parent_custody) (custody_inode old_custody) name (md_mode old_metadata)) v))))"

definition vfs_unlink :: "'s inode_ops \<Rightarrow> process \<Rightarrow> string \<Rightarrow> custody \<Rightarrow> 's vfs \<Rightarrow> unit outcome \<times> 's vfs" where
  "vfs_unlink ops p path base v =
     (let (custody_or_error, parent_custody) = resolve_path ops v p path base (O_NOFOLLOW_NOERROR OR O_UNLINK_INTERNAL) in
      with_custody custody_or_error v (\<lambda>custody.
        let metadata = custody_metadata ops v custody in
        if is_directory (md_mode metadata) then (Fails EISDIR, v)
        else deref parent_custody v (\<lambda>parent_custody.
          let parent_metadata = custody_metadata ops v parent_custody in
          if \<not> may_write p parent_metadata then (Fails EACCES, v)
          else if sticky_forbids p parent_metadata metadata then (Fails EACCES, v)
          else if custody_is_readonly ops v parent_custody then (Fails EROFS, v)
          else with_basename path v (\<lambda>name. on_files (op_remove_child ops (custody_inode parent_custody) name) v))))"

definition vfs_rmdir :: "'s inode_ops \<Rightarrow> process \<Rightarrow> string \<Rightarrow> custody \<Rightarrow> 's vfs \<Rightarrow> unit outcome \<times> 's vfs" where
  "vfs_rmdir ops p path base v =
     (let (custody_or_error, parent_custody) = resolve_path ops v p path base 0 in
      with_custody custody_or_error v (\<lambda>custody.
        let metadata = custody_metadata ops v custody; inode = custody_inode custody in
        if \<not> is_directory (md_mode metadata) then (Fails ENOTDIR, v)
        else case parent_custody of
            None \<Rightarrow> (Fails EBUSY, v)
          | Some parent_custody \<Rightarrow>
              let parent_metadata = custody_metadata ops v parent_custody in
              if \<not> may_write p parent_metadata then (Fails EACCES, v)
              else if sticky_forbids p parent_metadata metadata then (Fails EACCES, v)
              else proceed (op_directory_entry_count ops inode (v_files v), v) (\<lambda>entries v.
                if entries \<noteq> 2 then (Fails ENOTEMPTY, v)
                else if custody_is_readonly ops v custody then (Fails EROFS, v)
                else
                  proceed (on_files (op_remove_child ops inode ''.'') v) (\<lambda>_ v.
                  proceed (on_files (op_remove_child ops inode ''..'') v) (\<lambda>_ v.
                  with_basename path v (\<lambda>name. on_files (op_remove_child ops (custody_inode parent_custody) name) v))))))"

end
