(* ===== verification/Kernel_VFSAccess.thy ===== *)
theory Kernel_VFSAccess
  imports Kernel_VFS
begin

text \<open>
  Access control in the virtual file system: the custodies the resolution of a path can lead to, and who may change the
  files. Nothing here depends on the kind of file system.
\<close>

subsection \<open>Where a resolution leads\<close>

text \<open>A property of the custody found and of the one \<open>out_parent\<close> points to.\<close>

definition leads_to :: "(custody \<Rightarrow> bool) \<Rightarrow> resolution \<Rightarrow> bool" where
  "leads_to Q resolution \<longleftrightarrow> (\<forall>c. fst resolution = Returns c \<longrightarrow> Q c) \<and> (\<forall>c. snd resolution = Some c \<longrightarrow> Q c)"

lemma leads_to_simps [simp]:
  "leads_to Q (Returns c, out) \<longleftrightarrow> Q c \<and> (\<forall>c. out = Some c \<longrightarrow> Q c)" "leads_to Q (Fails e, out) \<longleftrightarrow> (\<forall>c. out = Some c \<longrightarrow> Q c)"
  "leads_to Q (Killed, out) \<longleftrightarrow> (\<forall>c. out = Some c \<longrightarrow> Q c)" "leads_to Q (Panics f, out) \<longleftrightarrow> (\<forall>c. out = Some c \<longrightarrow> Q c)"
  by (auto simp: leads_to_def)

lemma leads_to_proceed:
  assumes "\<forall>c. snd m = Some c \<longrightarrow> Q c" "\<And>x out. m = (Returns x, out) \<Longrightarrow> leads_to Q (rest x out)"
  shows "leads_to Q (proceed m rest)"
  using assms by (cases m; cases "fst m") auto

lemma check_veil_leads: "leads_to Q resolution \<Longrightarrow> leads_to Q (check_veil p options resolution)"
  unfolding check_veil_def by (intro leads_to_proceed) (auto simp: leads_to_def)

text \<open>
  A property of custodies that holds for parents, and for the entries of directories the process may search, holds
  wherever the loop over the parts of a path leads.
\<close>

definition closed_below :: "'s inode_ops \<Rightarrow> 's vfs \<Rightarrow> process \<Rightarrow> (custody \<Rightarrow> bool) \<Rightarrow> bool" where
  "closed_below ops v p Q \<longleftrightarrow>
     (\<forall>c d. Q c \<and> custody_parent c = Some d \<longrightarrow> Q d)
     \<and> (\<forall>c name inode. Q c \<and> is_directory (md_mode (custody_metadata ops v c)) \<and> may_execute p (custody_metadata ops v c)
         \<and> op_lookup ops (custody_inode c) name (v_files v) = Inr (Some inode) \<longrightarrow> Q (child_custody v c name inode))"

lemma closed_parent: "closed_below ops v p Q \<Longrightarrow> Q c \<Longrightarrow> custody_parent c = Some d \<Longrightarrow> Q d"
  unfolding closed_below_def by blast

lemma closed_child:
  assumes "closed_below ops v p Q" "Q c" "is_directory (md_mode (custody_metadata ops v c))" "may_execute p (custody_metadata ops v c)"
    and "op_lookup ops (custody_inode c) part (v_files v) = Inr (Some inode)"
  shows "Q (child_custody v c part inode)"
  using assms unfolding closed_below_def by blast

lemma child_custody_parent [simp]: "custody_parent (child_custody v c part inode) = Some c"
  by (simp add: child_custody_def split: option.splits)

lemma resolve_as_link_leads:
  assumes "\<And>path base out. Q base \<Longrightarrow> \<forall>c. out = Some c \<longrightarrow> Q c \<Longrightarrow> leads_to Q (again path base out)" "Q base" "\<forall>c. out = Some c \<longrightarrow> Q c"
  shows "leads_to Q (resolve_as_link ops v p options again inode base out)"
  unfolding resolve_as_link_def
proof (rule leads_to_proceed)
  show "\<forall>c. snd (read_entire ops inode (v_files v), out) = Some c \<longrightarrow> Q c" using assms(3) by simp
  fix path out' assume "(read_entire ops inode (v_files v), out) = (Returns path, out')"
  then show "leads_to Q (check_veil p options (again path base out'))" using assms by (intro check_veil_leads) simp
qed

lemma follow_link_leads:
  assumes "\<And>path base out. Q base \<Longrightarrow> \<forall>c. out = Some c \<longrightarrow> Q c \<Longrightarrow> leads_to Q (again path base out)"
    and "Q parent" "Q c" "custody_parent c = Some parent" "\<forall>c. out = Some c \<longrightarrow> Q c"
  shows "leads_to Q (follow_link ops v p options again hm rest parent c out)"
proof -
  have step: "leads_to Q (proceed (resolve_as_link ops v p options again inode parent out') (\<lambda>target out.
      if \<not> hm then (Returns target, out) else again (CHR ''.'' # rest) target out))" if "\<forall>c. out' = Some c \<longrightarrow> Q c" for inode out'
  proof (rule leads_to_proceed)
    have l: "leads_to Q (resolve_as_link ops v p options again inode parent out')" by (rule resolve_as_link_leads[OF assms(1) assms(2) that])
    then show "\<forall>c. snd (resolve_as_link ops v p options again inode parent out') = Some c \<longrightarrow> Q c" by (simp add: leads_to_def)
    fix target out assume "resolve_as_link ops v p options again inode parent out' = (Returns target, out)"
    then show "leads_to Q (if \<not> hm then (Returns target, out) else again (CHR ''.'' # rest) target out)" using l assms(1) by auto
  qed
  have "leads_to Q (proceed (validate_path_against_process_veil p (absolute_path c) options, out) (\<lambda>_ out_parent.
      proceed (resolve_as_link ops v p options again (custody_inode c) parent out_parent) (\<lambda>target out.
      if \<not> hm then (Returns target, out) else again (CHR ''.'' # rest) target out)))"
    by (rule leads_to_proceed) (use assms(5) step[of _ "custody_inode c"] in simp_all)
  then show ?thesis using assms(2-5) unfolding follow_link_def by (cases hm) simp_all
qed

lemma resolve_parts_leads:
  assumes "closed_below ops v p Q" "\<And>path base out. Q base \<Longrightarrow> \<forall>c. out = Some c \<longrightarrow> Q c \<Longrightarrow> leads_to Q (again path base out)"
    and "Q custody" "\<forall>c. out = Some c \<longrightarrow> Q c"
  shows "leads_to Q (resolve_parts ops v p options again path start parts custody out)"
  using assms(3,4)
proof (induction parts arbitrary: start custody out)
  case Nil
  then show ?case using assms(1) by (auto simp: closed_below_def)
next
  case (Cons part parts)
  let ?md = "custody_metadata ops v custody"
  show ?case
  proof (cases "is_directory (md_mode ?md) \<and> may_execute p ?md")
    case False
    then show ?thesis using Cons.prems by auto
  next
    case True
    have parent: "Q (case custody_parent custody of None \<Rightarrow> custody | Some c \<Rightarrow> c)"
      using closed_parent[OF assms(1) Cons.prems(1)] Cons.prems(1) by (cases "custody_parent custody") auto
    consider "part = ''..''" | "part \<noteq> ''..''" "part = ''.'' \<or> part = []" | "part \<noteq> ''..''" "\<not> (part = ''.'' \<or> part = [])" by blast
    then show ?thesis
    proof cases
      case 1
      then show ?thesis using True Cons.IH[OF parent Cons.prems(2)] by simp
    next
      case 2
      then show ?thesis using True Cons.IH[OF Cons.prems] by auto
    next
      case 3
      show ?thesis
      proof (cases "op_lookup ops (custody_inode custody) part (v_files v)")
        case (Inl f)
        then show ?thesis using 3 True Cons.prems by simp
      next
        case (Inr found)
        show ?thesis
        proof (cases found)
          case None
          then show ?thesis using Inr 3 True Cons.prems(1) by simp
        next
          case (Some inode)
          have child: "Q (child_custody v custody part inode)" using closed_child[OF assms(1) Cons.prems(1)] True Inr Some by simp
          have "leads_to Q (follow_link ops v p options again hm rest custody (child_custody v custody part inode) out)" for hm rest
            by (rule follow_link_leads[OF assms(2) Cons.prems(1) child child_custody_parent Cons.prems(2)])
          then show ?thesis using Inr Some 3 True Cons.IH[OF child Cons.prems(2)] by (simp add: Let_def)
        qed
      qed
    qed
  qed
qed

lemma resolve_leads_without_veil:
  assumes "closed_below ops v p Q" "\<And>root. root_directory p v = Inr root \<Longrightarrow> Q root" "Q base" "\<forall>c. out = Some c \<longrightarrow> Q c"
  shows "leads_to Q (resolve_path_without_veil left ops v p options path base out)"
  using assms(3,4)
proof (induction left arbitrary: path base out)
  case (Suc left)
  have "leads_to Q (resolve_parts ops v p options (resolve_path_without_veil left ops v p options) path start parts c out)" if "Q c" for start parts c
    by (rule resolve_parts_leads[OF assms(1) Suc.IH that Suc.prems(2)])
  then show ?case using Suc.prems assms(2) by (auto split: sum.splits)
qed simp

lemma resolve_leads:
  assumes "closed_below ops v p Q" "\<And>root. root_directory p v = Inr root \<Longrightarrow> Q root" "Q base"
  shows "leads_to Q (resolve_path ops v p path base options)"
  unfolding resolve_path_def by (intro check_veil_leads resolve_leads_without_veil) (use assms in auto)

text \<open>The root is among the ancestors.\<close>

definition below :: "custody \<Rightarrow> custody \<Rightarrow> bool" where
  "below root c \<longleftrightarrow> c = root \<or> root \<in> set (ancestors c)"

text \<open>All directories on the way from the root are directories the process may search.\<close>

definition searchable :: "'s inode_ops \<Rightarrow> 's vfs \<Rightarrow> process \<Rightarrow> custody \<Rightarrow> bool" where
  "searchable ops v p c \<longleftrightarrow> (\<forall>a \<in> set (ancestors c). is_directory (md_mode (custody_metadata ops v a)) \<and> may_execute p (custody_metadata ops v a))"

lemma ancestors_parent: "custody_parent c = Some d \<Longrightarrow> ancestors c = d # ancestors d"
  by (cases c) auto

lemma closed_below_below: "custody_parent root = None \<Longrightarrow> closed_below ops v p (below root)"
  by (auto simp: closed_below_def below_def ancestors_parent)

lemma closed_below_searchable: "closed_below ops v p (searchable ops v p)"
  by (auto simp: closed_below_def searchable_def ancestors_parent)

lemma ancestors_root: "custody_parent root = None \<Longrightarrow> ancestors root = []"
  by (cases root) auto

text \<open>What the calls rely on: the paths of a process lead below its root, through directories it may search.\<close>

definition reaches :: "'s inode_ops \<Rightarrow> 's vfs \<Rightarrow> process \<Rightarrow> custody \<Rightarrow> bool" where
  "reaches ops v p c \<longleftrightarrow> (\<exists>root. root_directory p v = Inr root \<and> custody_parent root = None \<and> below root c) \<and> searchable ops v p c"

lemma resolve_reaches:
  assumes "reaches ops v p base"
  shows "leads_to (reaches ops v p) (resolve_path ops v p path base options)"
proof -
  obtain root where root: "root_directory p v = Inr root" "custody_parent root = None" "below root base" "searchable ops v p base"
    using assms by (auto simp: reaches_def)
  have "leads_to (below root) (resolve_path ops v p path base options)"
    by (rule resolve_leads[OF closed_below_below[OF root(2)]]) (use root in \<open>auto simp: below_def\<close>)
  moreover have "leads_to (searchable ops v p) (resolve_path ops v p path base options)"
    by (rule resolve_leads[OF closed_below_searchable]) (use root in \<open>auto simp: searchable_def ancestors_root\<close>)
  ultimately show ?thesis using root by (auto simp: leads_to_def reaches_def)
qed

text \<open>A path that is found has passed the veil.\<close>

lemma resolve_veil: "resolve_path ops v p path base options = (Returns c, out) \<Longrightarrow> validate_path_against_process_veil p (absolute_path c) options = Returns ()"
  unfolding resolve_path_def check_veil_def by (auto simp: proceed_Returns)

subsection \<open>Who may change the files\<close>

datatype request = Open string "32 word" mode "(uid \<times> gid) option" | Mknod string mode nat | Mkdir string mode | Symlink string string
  | Link string string | Unlink string | Rmdir string | Rename string string | Chmod string mode | Chown string uid gid | Utime string int int

text \<open>What a request leaves of the files; the first arguments are those of \<open>open\<close>.\<close>

fun perform :: "'s inode_ops \<Rightarrow> (inode_id \<Rightarrow> file_description option) \<Rightarrow> (inode_id \<Rightarrow> bool \<Rightarrow> file_description outcome)
    \<Rightarrow> (nat \<Rightarrow> nat \<Rightarrow> 32 word \<Rightarrow> file_description outcome option) \<Rightarrow> int \<Rightarrow> process \<Rightarrow> custody \<Rightarrow> request \<Rightarrow> 's vfs \<Rightarrow> 's vfs" where
  "perform ops pre fifo dev now p base (Open path options mode owner) v = snd (vfs_open ops pre fifo dev now p path options mode base owner v)"
| "perform ops pre fifo dev now p base (Mknod path mode d) v = snd (vfs_mknod ops p path mode d base v)"
| "perform ops pre fifo dev now p base (Mkdir path mode) v = snd (vfs_mkdir ops p path mode base v)"
| "perform ops pre fifo dev now p base (Symlink target path) v = snd (vfs_symlink ops p target path base v)"
| "perform ops pre fifo dev now p base (Link old_path new_path) v = snd (vfs_link ops p old_path new_path base v)"
| "perform ops pre fifo dev now p base (Unlink path) v = snd (vfs_unlink ops p path base v)"
| "perform ops pre fifo dev now p base (Rmdir path) v = snd (vfs_rmdir ops p path base v)"
| "perform ops pre fifo dev now p base (Rename old_path new_path) v = snd (vfs_rename ops p old_path new_path base v)"
| "perform ops pre fifo dev now p base (Chmod path mode) v = snd (vfs_chmod ops p path mode base v)"
| "perform ops pre fifo dev now p base (Chown path uid gid) v = snd (vfs_chown ops p path uid gid base v)"
| "perform ops pre fifo dev now p base (Utime path atime mtime) v = snd (vfs_utime ops p path base atime mtime v)"

text \<open>
  The custody that justifies a change: of the file itself, which must be one's own, for a change of its attributes, and
  else of the directory, or of the file to be truncated, which one must be allowed to write to. Its mount must not be
  read-only; for \<open>rmdir\<close> the code asks that of the directory to be removed.
\<close>

fun justifies :: "'s inode_ops \<Rightarrow> 's vfs \<Rightarrow> process \<Rightarrow> request \<Rightarrow> custody \<Rightarrow> bool" where
  "justifies ops v p (Chmod _ _) c \<longleftrightarrow> (is_superuser p \<or> md_uid (custody_metadata ops v c) = m_euid p) \<and> \<not> custody_is_readonly ops v c"
| "justifies ops v p (Chown _ _ _) c \<longleftrightarrow> (is_superuser p \<or> md_uid (custody_metadata ops v c) = m_euid p) \<and> \<not> custody_is_readonly ops v c"
| "justifies ops v p (Utime _ _ _) c \<longleftrightarrow> (is_superuser p \<or> md_uid (custody_metadata ops v c) = m_euid p) \<and> \<not> custody_is_readonly ops v c"
| "justifies ops v p (Rmdir _) c \<longleftrightarrow> may_write p (custody_metadata ops v c)"
| "justifies ops v p _ c \<longleftrightarrow> may_write p (custody_metadata ops v c) \<and> \<not> custody_is_readonly ops v c"

lemma proceed_changed:
  assumes "snd (proceed m rest) \<noteq> v" "snd m = v"
  shows "\<exists>x. m = (Returns x, v) \<and> snd (rest x v) \<noteq> v"
  using assms by (cases m; cases "fst m") auto

lemma with_custody_changed: "snd (with_custody r v rest) \<noteq> v \<Longrightarrow> \<exists>c. r = Returns c \<and> snd (rest c) \<noteq> v"
  unfolding with_custody_def by (auto dest!: proceed_changed)

lemma with_basename_changed: "snd (with_basename path v rest) \<noteq> v \<Longrightarrow> \<exists>name. path_basename path = Inr name \<and> snd (rest name) \<noteq> v"
  by (auto simp: with_basename_def split: sum.splits)

lemma deref_changed: "snd (deref c v rest) \<noteq> v \<Longrightarrow> \<exists>d. c = Some d \<and> snd (rest d) \<noteq> v"
  by (auto simp: deref_def split: option.splits)

lemma settled_changed: "snd (settled r v rest) \<noteq> v \<Longrightarrow> ((\<exists>c. r = Returns c) \<or> (\<exists>e. r = Fails e)) \<and> snd rest \<noteq> v"
  by (auto simp: settled_def split: outcome.splits)

lemma new_entry_changed:
  assumes "snd (new_entry ops p path base v rest) \<noteq> v"
  shows "\<exists>parent. resolve_path ops v p path base 0 = (Fails ENOENT, Some parent) \<and> may_write p (custody_metadata ops v parent) \<and> \<not> custody_is_readonly ops v parent"
proof -
  obtain r out where r: "resolve_path ops v p path base 0 = (r, out)" by (cases "resolve_path ops v p path base 0")
  show ?thesis using assms settled_changed[of r v] unfolding new_entry_def r Let_def
    by (cases r) (auto simp: settled_def split: option.splits if_splits)
qed

lemma snd_leads: "leads_to Q (r, Some c) \<Longrightarrow> Q c"
  by (simp add: leads_to_def)

lemma changes_mk:
  assumes "reaches ops v p base" "req = Mknod path mode d \<or> req = Mkdir path mode \<or> req = Symlink target path" "perform ops pre fifo dev now p base req v \<noteq> v"
  shows "\<exists>c. reaches ops v p c \<and> justifies ops v p req c"
proof -
  obtain path' c where c: "resolve_path ops v p path' base 0 = (Fails ENOENT, Some c)" "may_write p (custody_metadata ops v c)" "\<not> custody_is_readonly ops v c"
    using assms(2,3) by (auto simp: vfs_mknod_def vfs_mkdir_def vfs_symlink_def split: if_splits dest!: new_entry_changed)
  moreover have "reaches ops v p c" using resolve_reaches[OF assms(1), of path' 0] c(1) by simp
  ultimately show ?thesis using assms(2) by auto
qed

lemma changes_attributes:
  assumes "reaches ops v p base" "req = Chmod path mode \<or> req = Chown path uid gid \<or> req = Utime path atime mtime" "perform ops pre fifo dev now p base req v \<noteq> v"
  shows "\<exists>c. reaches ops v p c \<and> justifies ops v p req c"
proof -
  obtain rest c where c: "fst (resolve_path ops v p path base 0) = Returns c" "snd (rest c) \<noteq> v"
    and rest: "rest = (\<lambda>c. chmod_custody ops p c mode v) \<or> rest = (\<lambda>c. chown_custody ops p c uid gid v)
      \<or> rest = (\<lambda>custody. if \<not> is_superuser p \<and> md_uid (custody_metadata ops v custody) \<noteq> m_euid p then (Fails EACCES, v)
       else if custody_is_readonly ops v custody then (Fails EROFS, v)
       else
         proceed (on_files (op_set_atime ops (custody_inode custody) atime) v) (\<lambda>_ v.
         on_files (op_set_mtime ops (custody_inode custody) mtime) v))"
    using assms(2,3) by (auto simp: vfs_chmod_def vfs_chown_def vfs_utime_def dest!: with_custody_changed)
  have "(is_superuser p \<or> md_uid (custody_metadata ops v c) = m_euid p) \<and> \<not> custody_is_readonly ops v c"
    using c(2) rest by (auto simp: chmod_custody_def chown_custody_def Let_def split: if_splits)
  moreover have "reaches ops v p c" using resolve_reaches[OF assms(1), of path 0] c(1) by (auto simp: leads_to_def)
  ultimately show ?thesis using assms(2) by auto
qed

lemma changes_open:
  assumes "reaches ops v p base" "req = Open path options mode owner" "perform ops pre fifo dev now p base req v \<noteq> v"
  shows "\<exists>c. reaches ops v p c \<and> justifies ops v p req c"
proof -
  obtain r out where r: "resolve_path ops v p path base options = (r, out)" by (cases "resolve_path ops v p path base options")
  have l: "leads_to (reaches ops v p) (r, out)" using resolve_reaches[OF assms(1), of path options] r by simp
  have o: "snd (vfs_open ops pre fifo dev now p path options mode base owner v) \<noteq> v" using assms by simp
  consider c where "out = Some c" "snd (vfs_create ops p path options mode c owner v) \<noteq> v"
    | c where "r = Returns c" "snd (open_existing ops pre fifo dev now p options c v) \<noteq> v"
    using o unfolding vfs_open_def r by (auto simp: Let_def split: if_splits dest!: settled_changed deref_changed with_custody_changed)
  then show ?thesis
  proof cases
    case 1
    then have "may_write p (custody_metadata ops v c) \<and> \<not> custody_is_readonly ops v c"
      unfolding vfs_create_def by (auto simp: Let_def split: if_splits dest!: with_basename_changed proceed_changed)
    then show ?thesis using 1(1) snd_leads[of _ r c] l assms(2) by auto
  next
    case 2
    then have "may_write p (custody_metadata ops v c) \<and> \<not> custody_is_readonly ops v c"
      unfolding open_existing_def by (auto simp: Let_def split: if_splits option.splits dest!: proceed_changed)
    then show ?thesis using 2 l assms(2) by auto
  qed
qed

lemma changes_unlink:
  assumes "reaches ops v p base" "req = Unlink path" "perform ops pre fifo dev now p base req v \<noteq> v"
  shows "\<exists>c. reaches ops v p c \<and> justifies ops v p req c"
proof -
  let ?options = "O_NOFOLLOW_NOERROR OR O_UNLINK_INTERNAL"
  obtain r out where r: "resolve_path ops v p path base ?options = (r, out)" by (cases "resolve_path ops v p path base ?options")
  have "snd (vfs_unlink ops p path base v) \<noteq> v" using assms by simp
  then obtain c where "out = Some c" "may_write p (custody_metadata ops v c) \<and> \<not> custody_is_readonly ops v c"
    unfolding vfs_unlink_def r by (auto simp: Let_def split: if_splits dest!: deref_changed with_custody_changed)
  then show ?thesis using snd_leads[of _ r c] resolve_reaches[OF assms(1), of path ?options] r assms(2) by auto
qed

lemma changes_rmdir:
  assumes "reaches ops v p base" "req = Rmdir path" "perform ops pre fifo dev now p base req v \<noteq> v"
  shows "\<exists>c. reaches ops v p c \<and> justifies ops v p req c"
proof -
  obtain r out where r: "resolve_path ops v p path base 0 = (r, out)" by (cases "resolve_path ops v p path base 0")
  have "snd (vfs_rmdir ops p path base v) \<noteq> v" using assms by simp
  then obtain c where "out = Some c" "may_write p (custody_metadata ops v c)"
    unfolding vfs_rmdir_def r by (auto simp: Let_def split: if_splits option.splits dest!: with_custody_changed)
  then show ?thesis using snd_leads[of _ r c] resolve_reaches[OF assms(1), of path 0] r assms(2) by auto
qed

lemma changes_link:
  assumes "reaches ops v p base" "req = Link old_path new_path" "perform ops pre fifo dev now p base req v \<noteq> v"
  shows "\<exists>c. reaches ops v p c \<and> justifies ops v p req c"
proof -
  obtain r out where r: "resolve_path ops v p new_path base 0 = (r, out)" by (cases "resolve_path ops v p new_path base 0")
  have "snd (vfs_link ops p old_path new_path base v) \<noteq> v" using assms by simp
  then obtain c where "out = Some c" "may_write p (custody_metadata ops v c) \<and> \<not> custody_is_readonly ops v c"
    unfolding vfs_link_def r by (auto simp: Let_def split: if_splits option.splits outcome.splits dest!: settled_changed with_custody_changed)
  then show ?thesis using snd_leads[of _ r c] resolve_reaches[OF assms(1), of new_path 0] r assms(2) by auto
qed

lemma rename_entries_changed:
  assumes "snd (rename_entries ops p old_path new_path old_custody old_parent new_custody new_parent v) \<noteq> v"
  shows "may_write p (custody_metadata ops v old_parent) \<and> \<not> custody_is_readonly ops v old_parent
    \<and> may_write p (custody_metadata ops v new_parent) \<and> \<not> custody_is_readonly ops v new_parent"
  using assms unfolding rename_entries_def by (auto simp: Let_def split: if_splits)

lemma changes_rename:
  assumes "reaches ops v p base" "req = Rename old_path new_path" "perform ops pre fifo dev now p base req v \<noteq> v"
  shows "\<exists>c. reaches ops v p c \<and> justifies ops v p req c"
proof -
  obtain r out where r: "resolve_path ops v p new_path base 0 = (r, out)" by (cases "resolve_path ops v p new_path base 0")
  obtain r' out' where r': "resolve_path ops v p old_path base O_NOFOLLOW_NOERROR = (r', out')" by (cases "resolve_path ops v p old_path base O_NOFOLLOW_NOERROR")
  have "snd (vfs_rename ops p old_path new_path base v) \<noteq> v" using assms by simp
  then obtain c where "out = Some c" "may_write p (custody_metadata ops v c) \<and> \<not> custody_is_readonly ops v c"
    unfolding vfs_rename_def r r'
    by (auto simp: Let_def split: if_splits outcome.splits dest!: settled_changed with_custody_changed deref_changed rename_entries_changed)
  then show ?thesis using snd_leads[of _ r c] resolve_reaches[OF assms(1), of new_path 0] r assms(2) by auto
qed

lemma changes_justified:
  assumes "reaches ops v p base" "perform ops pre fifo dev now p base req v \<noteq> v"
  shows "\<exists>c. reaches ops v p c \<and> justifies ops v p req c"
proof (cases req)
  case (Open path options mode owner)
  then show ?thesis using changes_open[OF assms(1) _ assms(2)] by blast
next
  case (Mknod path mode d)
  then show ?thesis using changes_mk[OF assms(1) _ assms(2)] by blast
next
  case (Mkdir path mode)
  then show ?thesis using changes_mk[OF assms(1) _ assms(2)] by blast
next
  case (Symlink target path)
  then show ?thesis using changes_mk[OF assms(1) _ assms(2)] by blast
next
  case (Link old new)
  then show ?thesis using changes_link[OF assms(1) _ assms(2)] by blast
next
  case (Unlink path)
  then show ?thesis using changes_unlink[OF assms(1) _ assms(2)] by blast
next
  case (Rmdir path)
  then show ?thesis using changes_rmdir[OF assms(1) _ assms(2)] by blast
next
  case (Rename old new)
  then show ?thesis using changes_rename[OF assms(1) _ assms(2)] by blast
next
  case (Chmod path mode)
  then show ?thesis using changes_attributes[OF assms(1) _ assms(2)] by blast
next
  case (Chown path u g)
  then show ?thesis using changes_attributes[OF assms(1) _ assms(2)] by blast
next
  case (Utime path a m)
  then show ?thesis using changes_attributes[OF assms(1) _ assms(2)] by blast
qed

end
