(* ===== verification/Kernel_InodeLayer.thy ===== *)
theory Kernel_InodeLayer
  imports Kernel_TmpFS
begin

text \<open>
  What the virtual file system relies on of the inodes of a file system, as the locales \<open>inode_layer\<close> (the effect of the
  operations on directories) and \<open>inode_invariant\<close> (every operation keeps the file system well-formed), and their
  interpretation on TmpFS.
\<close>

declare split_paired_All [simp del] split_paired_Ex [simp del]

subsection \<open>What the virtual file system relies on\<close>

text \<open>Names that stand for an entry of a directory.\<close>

definition entry_name :: "string \<Rightarrow> bool" where
  "entry_name name \<longleftrightarrow> name \<noteq> ''.'' \<and> name \<noteq> ''..''"

locale inode_layer =
  fixes ops :: "'s inode_ops" and ok :: "'s \<Rightarrow> bool" and room :: "nat \<Rightarrow> 's \<Rightarrow> bool" and present :: "inode_id \<Rightarrow> 's \<Rightarrow> bool"
  assumes remove_child: "ok s \<Longrightarrow> entry_name name \<Longrightarrow> op_remove_child ops d name s = (Returns (), s') \<Longrightarrow>
      ok s' \<and> (\<forall>e n. op_lookup ops e n s' = (if e = d \<and> n = name then Inr None else op_lookup ops e n s))
      \<and> (\<forall>i. op_metadata ops i s' = op_metadata ops i s) \<and> (\<forall>i. present i s' = present i s)"
    and remove_fails: "op_remove_child ops d name s = (Fails e, s') \<Longrightarrow> s' = s"
    and add_child: "ok s \<Longrightarrow> entry_name name \<Longrightarrow> present c s \<Longrightarrow> op_add_child ops d c name mode s = (Returns (), s') \<Longrightarrow>
      ok s' \<and> (\<forall>e n. op_lookup ops e n s' = (if e = d \<and> n = name then Inr (Some c) else op_lookup ops e n s))
      \<and> (\<forall>i. op_metadata ops i s' = op_metadata ops i s) \<and> (\<forall>i. present i s' = present i s)"
    and add_fails: "op_add_child ops d c name mode s = (Fails e, s') \<Longrightarrow> s' = s"
    and create_child: "ok s \<Longrightarrow> entry_name name \<Longrightarrow> room (fst d) s \<Longrightarrow> op_create_child ops d name mode 0 uid gid s = (Returns c, s') \<Longrightarrow>
      ok s' \<and> \<not> present c s \<and> (\<forall>i. present i s' = (i = c \<or> present i s)) \<and> op_lookup ops d name s' = Inr (Some c)
      \<and> md_mode (op_metadata ops c s') = mode \<and> md_uid (op_metadata ops c s') = uid \<and> md_gid (op_metadata ops c s') = gid
      \<and> (\<forall>e n. e \<noteq> c \<and> (e \<noteq> d \<or> n \<noteq> name) \<longrightarrow> op_lookup ops e n s' = op_lookup ops e n s)
      \<and> (\<forall>i. i \<noteq> c \<longrightarrow> op_metadata ops i s' = op_metadata ops i s)"
    and found_present: "ok s \<Longrightarrow> op_lookup ops d name s = Inr (Some c) \<Longrightarrow> present c s"

subsection \<open>What TmpFS provides\<close>

definition inode_ok :: "inode_id \<Rightarrow> tmpfs_inode \<Rightarrow> tmpfs \<Rightarrow> bool" where
  "inode_ok i inode fs \<longleftrightarrow> snd i < m_next_inode_index fs (fst i) \<and> content_ok inode \<and> distinct (map fst (ti_children inode))
     \<and> (\<forall>c \<in> snd ` set (ti_children inode). m_inodes fs c \<noteq> None) \<and> m_inodes fs (ti_parent inode) \<noteq> None"

definition tmpfs_ok :: "tmpfs \<Rightarrow> bool" where
  "tmpfs_ok fs \<longleftrightarrow> region_ok fs \<and> (\<forall>i inode. m_inodes fs i = Some inode \<longrightarrow> inode_ok i inode fs)"

text \<open>There are inode numbers left.\<close>

definition tmpfs_room :: "nat \<Rightarrow> tmpfs \<Rightarrow> bool" where
  "tmpfs_room fsid fs \<longleftrightarrow> m_next_inode_index fs fsid + 1 < 2 ^ 32"

definition tmpfs_present :: "inode_id \<Rightarrow> tmpfs \<Rightarrow> bool" where
  "tmpfs_present i fs \<longleftrightarrow> m_inodes fs i \<noteq> None"

lemma tmpfs_okD: "tmpfs_ok fs \<Longrightarrow> m_inodes fs i = Some inode \<Longrightarrow> inode_ok i inode fs"
  by (simp add: tmpfs_ok_def)

lemma ok_put:
  assumes "tmpfs_ok fs" "m_inodes fs i \<noteq> None" "inode_ok i inode fs"
  shows "tmpfs_ok (put_inode i inode fs)"
proof -
  have "inode_ok j x (put_inode i inode fs)" if "inode_ok j x fs" for j x using that assms(2) by (auto simp: inode_ok_def)
  then show ?thesis using assms by (simp add: tmpfs_ok_def)
qed

lemma delete_snd: "snd ` set (AList.delete name xs) \<subseteq> snd ` set xs"
  by (induction xs) auto

lemma update_snd: "snd ` set (AList.update name c xs) \<subseteq> insert c (snd ` set xs)"
  by (induction xs) auto

lemma content_ok_children [simp]: "content_ok (inode\<lparr>ti_children := xs\<rparr>) = content_ok inode"
  by (simp add: content_ok_def split: option.splits)

lemma inode_ok_children:
  assumes "inode_ok d inode fs" "distinct (map fst xs)" "snd ` set xs \<subseteq> C \<union> snd ` set (ti_children inode)" "\<forall>c \<in> C. m_inodes fs c \<noteq> None"
  shows "inode_ok d (inode\<lparr>ti_children := xs\<rparr>) fs"
proof -
  have "\<forall>c \<in> snd ` set xs. m_inodes fs c \<noteq> None" using assms unfolding inode_ok_def by blast
  then show ?thesis using assms(1,2) by (simp add: inode_ok_def)
qed

lemma metadata_put_children:
  "m_inodes fs i = Some inode \<Longrightarrow> tmpfs_metadata j (put_inode i (inode\<lparr>ti_children := xs\<rparr>) fs) = tmpfs_metadata j fs"
  by (simp add: tmpfs_metadata_def)

lemma lookup_put_children:
  assumes "m_inodes fs i = Some inode"
  shows "tmpfs_lookup e n (put_inode i (inode\<lparr>ti_children := xs\<rparr>) fs) =
    (if e = i \<and> entry_name n \<and> tmpfs_is_directory inode then Inr (case map_of xs n of None \<Rightarrow> None | Some c \<Rightarrow> get_inode c fs) else tmpfs_lookup e n fs)"
proof -
  have g: "get_inode j (put_inode i (inode\<lparr>ti_children := xs\<rparr>) fs) = get_inode j fs" for j using assms by (simp add: get_inode_def)
  show ?thesis
  proof (cases "e = i")
    case True
    then show ?thesis using assms
      by (cases "map_of xs n"; cases "tmpfs_is_directory inode") (simp_all add: tmpfs_lookup_def g entry_name_def tmpfs_is_directory_def)
  next
    case False
    then show ?thesis unfolding tmpfs_lookup_def g by simp
  qed
qed

lemma get_inode_child: "tmpfs_ok fs \<Longrightarrow> m_inodes fs i = Some inode \<Longrightarrow> map_of (ti_children inode) n = Some c \<Longrightarrow> get_inode c fs = Some c"
  using tmpfs_okD[of fs i inode] by (force simp: inode_ok_def get_inode_def dest: map_of_SomeD)

lemma tmpfs_remove_child_spec:
  assumes "tmpfs_ok fs" "entry_name name" "tmpfs_remove_child d name fs = (Returns (), fs')"
  shows "tmpfs_ok fs' \<and> (\<forall>e n. tmpfs_lookup e n fs' = (if e = d \<and> n = name then Inr None else tmpfs_lookup e n fs))
    \<and> (\<forall>i. tmpfs_metadata i fs' = tmpfs_metadata i fs) \<and> (\<forall>i. tmpfs_present i fs' = tmpfs_present i fs)"
proof -
  obtain inode where i: "m_inodes fs d = Some inode" "tmpfs_is_directory inode" and e: "fs' = put_inode d (inode\<lparr>ti_children := AList.delete name (ti_children inode)\<rparr>) fs"
    using assms by (auto simp: tmpfs_remove_child_def with_inode_def entry_name_def split: option.splits if_splits)
  have k: "inode_ok d inode fs" by (rule tmpfs_okD[OF assms(1) i(1)])
  have "inode_ok d (inode\<lparr>ti_children := AList.delete name (ti_children inode)\<rparr>) fs"
    by (rule inode_ok_children[OF k, of _ "{}"]) (use k delete_snd[of name "ti_children inode"] in \<open>simp_all add: inode_ok_def distinct_delete\<close>)
  then have "tmpfs_ok fs'" unfolding e using ok_put[OF assms(1)] i by simp
  moreover have "tmpfs_lookup a n fs' = (if a = d \<and> n = name then Inr None else tmpfs_lookup a n fs)" for a n
    using i assms(2) unfolding e lookup_put_children[OF i(1)]
    by (auto simp: tmpfs_lookup_def entry_name_def delete_conv' split: option.splits)
  moreover have "tmpfs_metadata j fs' = tmpfs_metadata j fs" for j unfolding e by (rule metadata_put_children[OF i(1)])
  moreover have "tmpfs_present j fs' = tmpfs_present j fs" for j using i(1) unfolding e by (simp add: tmpfs_present_def)
  ultimately show ?thesis by blast
qed

lemma tmpfs_add_child_spec:
  assumes "tmpfs_ok fs" "entry_name name" "tmpfs_present c fs" "tmpfs_add_child d c name mode fs = (Returns (), fs')"
  shows "tmpfs_ok fs' \<and> (\<forall>e n. tmpfs_lookup e n fs' = (if e = d \<and> n = name then Inr (Some c) else tmpfs_lookup e n fs))
    \<and> (\<forall>i. tmpfs_metadata i fs' = tmpfs_metadata i fs) \<and> (\<forall>i. tmpfs_present i fs' = tmpfs_present i fs)"
proof -
  obtain inode where i: "m_inodes fs d = Some inode" "tmpfs_is_directory inode" and e: "fs' = put_inode d (inode\<lparr>ti_children := AList.update name c (ti_children inode)\<rparr>) fs"
    using assms by (auto simp: tmpfs_add_child_def with_inode_def split: option.splits if_splits)
  have k: "inode_ok d inode fs" by (rule tmpfs_okD[OF assms(1) i(1)])
  have "inode_ok d (inode\<lparr>ti_children := AList.update name c (ti_children inode)\<rparr>) fs"
    by (rule inode_ok_children[OF k, of _ "{c}"])
      (use k update_snd[of name c "ti_children inode"] assms(3) in \<open>simp_all add: inode_ok_def distinct_update tmpfs_present_def\<close>)
  then have "tmpfs_ok fs'" unfolding e using ok_put[OF assms(1)] i by simp
  moreover have "tmpfs_lookup a n fs' = (if a = d \<and> n = name then Inr (Some c) else tmpfs_lookup a n fs)" for a n
    using i assms(2,3) unfolding e lookup_put_children[OF i(1)]
    by (auto simp: tmpfs_lookup_def entry_name_def update_conv' get_inode_def tmpfs_present_def split: option.splits)
  moreover have "tmpfs_metadata j fs' = tmpfs_metadata j fs" for j unfolding e by (rule metadata_put_children[OF i(1)])
  moreover have "tmpfs_present j fs' = tmpfs_present j fs" for j using i(1) unfolding e by (simp add: tmpfs_present_def)
  ultimately show ?thesis by blast
qed

lemma next_inode_sel [simp]:
  "m_inodes (snd (next_inode_index fsid fs)) = m_inodes fs" "m_readonly (snd (next_inode_index fsid fs)) = m_readonly fs"
  "kbuffer_region (snd (next_inode_index fsid fs)) = kbuffer_region fs" "name_max (snd (next_inode_index fsid fs)) = name_max fs"
  "fst (next_inode_index fsid fs) = m_next_inode_index fs fsid"
  "m_next_inode_index (snd (next_inode_index fsid fs)) = (m_next_inode_index fs)(fsid := usize (m_next_inode_index fs fsid + 1))"
  by (simp_all add: next_inode_index_def)

text \<open>A new inode changes nothing about the others.\<close>

lemma fresh_index: "tmpfs_ok fs \<Longrightarrow> m_inodes fs (fsid, m_next_inode_index fs fsid) = None"
  using tmpfs_okD[of fs "(fsid, m_next_inode_index fs fsid)"] by (fastforce simp: inode_ok_def)

lemma lookup_fresh:
  assumes "tmpfs_ok fs" "m_inodes fs c = None" "m_inodes fs' = (m_inodes fs)(c \<mapsto> inode)" "e \<noteq> c"
  shows "tmpfs_lookup e n fs' = tmpfs_lookup e n fs"
proof (cases "m_inodes fs e")
  case None
  then show ?thesis using assms(3,4) by (simp add: tmpfs_lookup_def)
next
  case (Some x)
  then have k: "inode_ok e x fs" using assms(1) by (rule tmpfs_okD[rotated])
  then have "ti_parent x \<noteq> c" using assms(2) by (auto simp: inode_ok_def)
  moreover have "j \<noteq> c" if "map_of (ti_children x) n = Some j" for j
    using get_inode_child[OF assms(1) Some that] assms(2) by (auto simp: get_inode_def)
  ultimately show ?thesis using assms(3,4) Some by (auto simp: tmpfs_lookup_def get_inode_def split: option.splits)
qed

lemma ok_fresh:
  assumes "tmpfs_ok fs" "tmpfs_room fsid fs" "fs1 = put_inode (fsid, m_next_inode_index fs fsid) inode (snd (next_inode_index fsid fs))"
    and "content_ok inode" "ti_children inode = []" "m_inodes fs1 (ti_parent inode) \<noteq> None"
  shows "tmpfs_ok fs1"
proof -
  have u: "usize (Suc (m_next_inode_index fs fsid)) = Suc (m_next_inode_index fs fsid)" using assms(2) by (simp add: tmpfs_room_def usize_def)
  have "inode_ok j x fs1" if "m_inodes fs j = Some x" for j x
    using tmpfs_okD[OF assms(1) that] unfolding assms(3) by (auto simp: inode_ok_def u)
  moreover have "inode_ok (fsid, m_next_inode_index fs fsid) inode fs1" using assms(4-6) unfolding assms(3) by (simp add: inode_ok_def u)
  moreover have "region_ok fs1" using assms(1) unfolding assms(3) by (simp add: tmpfs_ok_def region_ok_def)
  ultimately show ?thesis by (simp add: tmpfs_ok_def assms(3))
qed

lemma tmpfs_create_child_spec:
  assumes "tmpfs_ok fs" "entry_name name" "tmpfs_room (fst d) fs" "tmpfs_create_child d name mode 0 uid gid fs = (Returns c, fs')"
  shows "tmpfs_ok fs' \<and> \<not> tmpfs_present c fs \<and> (\<forall>i. tmpfs_present i fs' = (i = c \<or> tmpfs_present i fs)) \<and> tmpfs_lookup d name fs' = Inr (Some c)
    \<and> md_mode (tmpfs_metadata c fs') = mode \<and> md_uid (tmpfs_metadata c fs') = uid \<and> md_gid (tmpfs_metadata c fs') = gid
    \<and> (\<forall>e n. e \<noteq> c \<and> (e \<noteq> d \<or> n \<noteq> name) \<longrightarrow> tmpfs_lookup e n fs' = tmpfs_lookup e n fs)
    \<and> (\<forall>i. i \<noteq> c \<longrightarrow> tmpfs_metadata i fs' = tmpfs_metadata i fs)"
proof -
  define inode where "inode = \<lparr>ti_metadata = no_metadata\<lparr>md_mode := mode, md_uid := uid, md_gid := gid, md_atime := kgettimeofday fs, md_ctime := kgettimeofday fs,
    md_mtime := kgettimeofday fs\<rparr>, ti_parent = d, ti_content = None, ti_children = []\<rparr>"
  define fs1 where "fs1 = put_inode (fst d, m_next_inode_index fs (fst d)) inode (snd (next_inode_index (fst d) fs))"
  have c: "c = (fst d, m_next_inode_index fs (fst d))" and a: "tmpfs_add_child d c name mode fs1 = (Returns (), fs')"
    using assms(4) unfolding fs1_def inode_def
    by (auto simp: tmpfs_create_child_def tmpfs_create_def Let_def proceed_Returns split_def)
  have n: "m_inodes fs c = None" unfolding c by (rule fresh_index[OF assms(1)])
  have m: "m_inodes fs1 = (m_inodes fs)(c \<mapsto> inode)" by (simp add: fs1_def c)
  have "m_inodes fs1 d \<noteq> None" using a by (auto simp: tmpfs_add_child_def with_inode_def split: option.splits)
  then have "tmpfs_ok fs1"
    by (intro ok_fresh[OF assms(1,3) fs1_def]) (simp_all add: inode_def content_ok_def no_metadata_def)
  have p: "tmpfs_present i fs1 = (i = c \<or> tmpfs_present i fs)" for i by (simp add: tmpfs_present_def m)
  then have s: "tmpfs_ok fs'" "tmpfs_lookup e n fs' = (if e = d \<and> n = name then Inr (Some c) else tmpfs_lookup e n fs1)"
    "tmpfs_metadata i fs' = tmpfs_metadata i fs1" "tmpfs_present i fs' = tmpfs_present i fs1" for e n i
    using tmpfs_add_child_spec[OF \<open>tmpfs_ok fs1\<close> assms(2) _ a] by simp_all
  have md: "tmpfs_metadata c fs1 = ti_metadata inode" "i \<noteq> c \<Longrightarrow> tmpfs_metadata i fs1 = tmpfs_metadata i fs" for i by (simp_all add: tmpfs_metadata_def m)
  have l: "tmpfs_lookup e k fs' = tmpfs_lookup e k fs" if "e \<noteq> c \<and> (e \<noteq> d \<or> k \<noteq> name)" for e k
    using s(2)[of e k] lookup_fresh[OF assms(1) n m, of e k] that by auto
  have "\<not> tmpfs_present c fs" using n by (simp add: tmpfs_present_def)
  moreover have "md_mode (tmpfs_metadata c fs') = mode" "md_uid (tmpfs_metadata c fs') = uid" "md_gid (tmpfs_metadata c fs') = gid"
    by (simp_all add: s(3) md(1) inode_def)
  ultimately show ?thesis using s(1) s(2)[of d name] s(3,4) p md(2) l by simp
qed

lemma tmpfs_ops_sel [simp]:
  "op_metadata tmpfs_ops = tmpfs_metadata" "op_lookup tmpfs_ops = tmpfs_lookup" "op_create_child tmpfs_ops = tmpfs_create_child"
  "op_add_child tmpfs_ops = tmpfs_add_child" "op_remove_child tmpfs_ops = tmpfs_remove_child" "op_read_bytes tmpfs_ops = tmpfs_read_bytes"
  "op_is_readonly tmpfs_ops fsid fs = m_readonly fs fsid" "op_write_bytes tmpfs_ops = tmpfs_write_bytes"
  "op_chmod tmpfs_ops = tmpfs_chmod" "op_chown tmpfs_ops = tmpfs_chown" "op_truncate tmpfs_ops = tmpfs_truncate"
  "op_set_atime tmpfs_ops = tmpfs_set_atime" "op_set_mtime tmpfs_ops = tmpfs_set_mtime"
  by (simp_all add: tmpfs_ops_def)

lemma tmpfs_remove_fails: "tmpfs_remove_child d name fs = (Fails e, fs') \<Longrightarrow> fs' = fs"
  by (cases "m_inodes fs d") (simp_all add: tmpfs_remove_child_def with_inode_def split: option.splits if_splits)

lemma tmpfs_add_fails: "tmpfs_add_child d c name mode fs = (Fails e, fs') \<Longrightarrow> fs' = fs"
  by (cases "m_inodes fs d") (simp_all add: tmpfs_add_child_def with_inode_def split: if_splits)

lemma tmpfs_lookup_present: "tmpfs_lookup d name fs = Inr (Some c) \<Longrightarrow> tmpfs_ok fs \<Longrightarrow> tmpfs_present c fs"
  by (cases "m_inodes fs d") (auto simp: tmpfs_lookup_def tmpfs_present_def get_inode_def and_then_Inr_iff split: option.splits if_splits)

interpretation tmpfs_layer: inode_layer tmpfs_ops tmpfs_ok tmpfs_room tmpfs_present
proof (unfold_locales, unfold tmpfs_ops_sel, goal_cases)
  case 1 then show ?case by (rule tmpfs_remove_child_spec)
next
  case 2 then show ?case by (rule tmpfs_remove_fails)
next
  case 3 then show ?case by (rule tmpfs_add_child_spec)
next
  case 4 then show ?case by (rule tmpfs_add_fails)
next
  case 5 then show ?case by (rule tmpfs_create_child_spec)
next
  case 6 then show ?case using tmpfs_lookup_present by blast
qed

subsection \<open>Every operation keeps the file system well-formed\<close>

text \<open>Well-formed as before, and no inode is lost.\<close>

definition preserves :: "('s \<Rightarrow> bool) \<Rightarrow> (inode_id \<Rightarrow> 's \<Rightarrow> bool) \<Rightarrow> 's \<Rightarrow> 's \<Rightarrow> bool" where
  "preserves ok present s s' \<longleftrightarrow> ok s' \<and> (\<forall>i. present i s \<longrightarrow> present i s')"

lemma preserves_refl: "ok s \<Longrightarrow> preserves ok present s s"
  by (simp add: preserves_def)

lemma preserves_trans: "preserves ok present s t \<Longrightarrow> preserves ok present t u \<Longrightarrow> preserves ok present s u"
  by (simp add: preserves_def)

locale inode_invariant = inode_layer +
  assumes keep_remove: "ok s \<Longrightarrow> preserves ok present s (snd (op_remove_child ops d name s))"
    and keep_add: "ok s \<Longrightarrow> present c s \<Longrightarrow> preserves ok present s (snd (op_add_child ops d c name mode s))"
    and keep_create: "ok s \<Longrightarrow> room (fst d) s \<Longrightarrow> present d s \<Longrightarrow> preserves ok present s (snd (op_create_child ops d name mode dev uid gid s))"
    and created: "ok s \<Longrightarrow> op_create_child ops d name mode dev uid gid s = (Returns c, s') \<Longrightarrow> present c s'"
    and keep_write: "ok s \<Longrightarrow> preserves ok present s (snd (op_write_bytes ops i offset data s))"
    and keep_chmod: "ok s \<Longrightarrow> preserves ok present s (snd (op_chmod ops i mode s))"
    and keep_chown: "ok s \<Longrightarrow> preserves ok present s (snd (op_chown ops i uid gid s))"
    and keep_truncate: "ok s \<Longrightarrow> preserves ok present s (snd (op_truncate ops i n s))"
    and keep_atime: "ok s \<Longrightarrow> preserves ok present s (snd (op_set_atime ops i time s))"
    and keep_mtime: "ok s \<Longrightarrow> preserves ok present s (snd (op_set_mtime ops i time s))"

abbreviation keeps :: "tmpfs \<Rightarrow> tmpfs \<Rightarrow> bool" where "keeps \<equiv> preserves tmpfs_ok tmpfs_present"

lemma keeps_put:
  assumes "tmpfs_ok fs" "m_inodes fs i = Some inode" "inode_ok i inode' fs"
  shows "keeps fs (put_inode i inode' fs)"
  using ok_put[OF assms(1) _ assms(3)] assms(2) by (simp add: preserves_def tmpfs_present_def)

lemma with_inode_keeps:
  assumes "tmpfs_ok fs" "\<And>inode. m_inodes fs i = Some inode \<Longrightarrow> inode_ok i inode fs \<Longrightarrow> keeps fs (snd (rest inode))"
  shows "keeps fs (snd (with_inode i fs rest))"
  using assms tmpfs_okD[OF assms(1)] by (cases "m_inodes fs i") (simp_all add: with_inode_def preserves_refl)

lemma put_and_notify_keeps:
  assumes "tmpfs_ok fs" "m_inodes fs i = Some inode" "inode_ok i inode' fs"
  shows "keeps fs (snd (put_and_notify i inode' fs))"
  using keeps_put[OF assms] assms(1) by (simp add: put_and_notify_def preserves_refl)

lemma proceed_keeps:
  assumes "keeps fs (snd m)" "\<And>x fs'. m = (Returns x, fs') \<Longrightarrow> keeps fs' (snd (rest x fs'))"
  shows "keeps fs (snd (proceed m rest))"
proof (cases m)
  case (Pair r fs')
  then show ?thesis using assms preserves_trans by (cases r) fastforce+
qed

text \<open>What of an inode its well-formedness depends on.\<close>

lemma inode_ok_metadata:
  "md_size md = md_size (ti_metadata inode) \<Longrightarrow> inode_ok i (inode\<lparr>ti_metadata := md\<rparr>) fs = inode_ok i inode fs"
  by (simp add: inode_ok_def content_ok_def split: option.splits)

lemma inode_ok_content:
  "inode_ok i inode fs \<Longrightarrow> content_ok (inode\<lparr>ti_content := content, ti_metadata := md\<rparr>) \<Longrightarrow> inode_ok i (inode\<lparr>ti_content := content, ti_metadata := md\<rparr>) fs"
  by (simp add: inode_ok_def)

lemma attributes_keep:
  assumes "tmpfs_ok fs"
  shows "keeps fs (snd (tmpfs_chmod i mode fs))" "keeps fs (snd (tmpfs_chown i uid gid fs))"
    "keeps fs (snd (tmpfs_set_atime i time fs))" "keeps fs (snd (tmpfs_set_mtime i time fs))"
  unfolding tmpfs_chmod_def tmpfs_chown_def tmpfs_set_atime_def tmpfs_set_mtime_def
  by (rule with_inode_keeps[OF assms], rule put_and_notify_keeps[OF assms], assumption, simp add: inode_ok_metadata)+

lemma page_round_up_ge: "n \<le> page_round_up n"
proof -
  have "n + 4095 = (n + 4095) div 4096 * 4096 + (n + 4095) mod 4096" by simp
  moreover have "(n + 4095) mod 4096 \<le> 4095" using mod_less_divisor[of 4096 "n + 4095"] by linarith
  ultimately show ?thesis unfolding page_round_up_def by linarith
qed

lemma try_create_capacity: "region_ok fs \<Longrightarrow> kb_try_create (kbuffer_region fs) n = Some b \<Longrightarrow> n \<le> kb_capacity b"
  using page_round_up_ge[of n] by (auto simp: kb_try_create_def region_ok_def kb_capacity_def)

lemma truncated_content_spec:
  assumes "truncated_content content prev_size n fs = (Returns content', fs')" "region_ok fs"
  shows "fs' = fs \<and> (case content' of None \<Rightarrow> n = 0 | Some b \<Rightarrow> n \<le> kb_capacity b)"
  using assms try_create_capacity[OF assms(2)]
  by (auto simp: truncated_content_def kb_set_size_def verify_def kb_capacity_def split: option.splits if_splits sum.splits dest!: copy_into_Inr) metis

lemma truncate_keeps:
  assumes "tmpfs_ok fs"
  shows "keeps fs (snd (tmpfs_truncate i n fs))"
proof -
  have r: "region_ok fs" using assms by (simp add: tmpfs_ok_def)
  have "keeps fs (snd (proceed (truncated_content (ti_content inode) (md_size (ti_metadata inode)) n fs) (\<lambda>content fs.
       put_and_notify i (inode\<lparr>ti_content := content, ti_metadata := (ti_metadata inode)\<lparr>md_size := n\<rparr>\<rparr>) fs)))"
    if i: "m_inodes fs i = Some inode" "inode_ok i inode fs" for inode
  proof (rule proceed_keeps)
    show "keeps fs (snd (truncated_content (ti_content inode) (md_size (ti_metadata inode)) n fs))"
      using assms by (auto simp: truncated_content_def preserves_refl split: option.splits sum.splits)
    fix content fs' assume "truncated_content (ti_content inode) (md_size (ti_metadata inode)) n fs = (Returns content, fs')"
    from truncated_content_spec[OF this r] have c: "fs' = fs" "case content of None \<Rightarrow> n = 0 | Some b \<Rightarrow> n \<le> kb_capacity b" by auto
    then have "inode_ok i (inode\<lparr>ti_content := content, ti_metadata := (ti_metadata inode)\<lparr>md_size := n\<rparr>\<rparr>) fs"
      by (intro inode_ok_content[OF i(2)]) (simp add: content_ok_def split: option.splits)
    then show "keeps fs' (snd (put_and_notify i (inode\<lparr>ti_content := content, ti_metadata := (ti_metadata inode)\<lparr>md_size := n\<rparr>\<rparr>) fs'))"
      unfolding c(1) by (rule put_and_notify_keeps[OF assms i(1)])
  qed
  then show ?thesis unfolding tmpfs_truncate_def by (intro with_inode_keeps[OF assms]) (simp add: assms preserves_refl)
qed

lemma prepare_keeps: "tmpfs_ok fs \<Longrightarrow> keeps fs (snd (prepare_to_write_data i fs))"
  using attributes_keep(1)[of fs i] by (simp add: prepare_to_write_data_def Let_def preserves_refl)

lemma grown_keeps: "tmpfs_ok fs \<Longrightarrow> snd (grown_content content old_size new_size fs) = fs"
  by (auto simp: grown_content_def split: option.splits sum.splits)

lemma grow_for_write_keeps:
  assumes "tmpfs_ok fs" "m_inodes fs i = Some inode"
  shows "keeps fs (snd (grow_for_write i end_offset inode fs))"
proof (cases "end_offset > md_size (ti_metadata inode)")
  case False
  then show ?thesis using assms by (simp add: grow_for_write_def Let_def preserves_refl)
next
  case True
  have i: "inode_ok i inode fs" "region_ok fs" using assms tmpfs_okD by (auto simp: tmpfs_ok_def)
  have c: "case ti_content inode of None \<Rightarrow> md_size (ti_metadata inode) = 0 | Some c \<Rightarrow> md_size (ti_metadata inode) \<le> kb_capacity c"
    using i(1) by (simp add: inode_ok_def content_ok_def)
  have "keeps fs (snd (proceed (grown_content (ti_content inode) (md_size (ti_metadata inode)) end_offset fs) (\<lambda>content fs.
          proceed (put_and_notify i (inode\<lparr>ti_content := Some content, ti_metadata := (ti_metadata inode)\<lparr>md_size := end_offset\<rparr>\<rparr>) fs)
            (\<lambda>_ fs. (Returns (inode\<lparr>ti_content := Some content, ti_metadata := (ti_metadata inode)\<lparr>md_size := end_offset\<rparr>\<rparr>), fs)))))"
  proof (rule proceed_keeps)
    show "keeps fs (snd (grown_content (ti_content inode) (md_size (ti_metadata inode)) end_offset fs))"
      using assms(1) by (simp add: grown_keeps preserves_refl)
    fix b fs' assume "grown_content (ti_content inode) (md_size (ti_metadata inode)) end_offset fs = (Returns b, fs')"
    note g = grown_content_spec[OF this c i(2) True]
    let ?inode = "inode\<lparr>ti_content := Some b, ti_metadata := (ti_metadata inode)\<lparr>md_size := end_offset\<rparr>\<rparr>"
    have "inode_ok i ?inode fs" by (rule inode_ok_content[OF i(1)]) (simp add: content_ok_def g(2))
    then have k: "keeps fs (snd (put_and_notify i ?inode fs))" by (rule put_and_notify_keeps[OF assms])
    then show "keeps fs' (snd (proceed (put_and_notify i ?inode fs') (\<lambda>_ fs. (Returns ?inode, fs))))"
      unfolding g(1) by (rule proceed_keeps) (use k in \<open>auto simp: preserves_def\<close>)
  qed
  then show ?thesis using True by (simp add: grow_for_write_def Let_def)
qed

lemma write_content_keeps:
  assumes "tmpfs_ok fs" "m_inodes fs i = Some inode"
  shows "keeps fs (snd (write_content i offset data inode fs))"
proof -
  have i: "inode_ok i inode fs" using assms tmpfs_okD by blast
  have "keeps fs (put_inode i (inode\<lparr>ti_content := Some (b\<lparr>kb_bytes := buffer\<rparr>)\<rparr>) fs)"
    if "ti_content inode = Some b" "copy_into (kb_bytes b) offset data = Inr buffer" for b buffer
  proof (rule keeps_put[OF assms])
    have "length buffer = length (kb_bytes b)" using copy_into_Inr[OF that(2)] by auto
    then show "inode_ok i (inode\<lparr>ti_content := Some (b\<lparr>kb_bytes := buffer\<rparr>)\<rparr>) fs" using i that(1) by (simp add: inode_ok_def content_ok_def kb_capacity_def)
  qed
  then show ?thesis using assms(1) by (auto simp: write_content_def preserves_refl split: option.splits sum.splits)
qed

lemma write_keeps:
  assumes "tmpfs_ok fs"
  shows "keeps fs (snd (tmpfs_write_bytes i offset data fs))"
proof -
  have g: "keeps fs (snd (proceed (grow_for_write i (offset + length data) inode fs) (write_content i offset data)))"
    if "tmpfs_ok fs" "m_inodes fs i = Some inode" for fs inode
  proof (rule proceed_keeps)
    show k: "keeps fs (snd (grow_for_write i (offset + length data) inode fs))" by (rule grow_for_write_keeps[OF that])
    fix inode' fs' assume g: "grow_for_write i (offset + length data) inode fs = (Returns inode', fs')"
    have "content_ok inode" "region_ok fs" using that tmpfs_okD by (auto simp: tmpfs_ok_def inode_ok_def)
    from grow_for_write_spec(1)[OF g this that(2)] show "keeps fs' (snd (write_content i offset data inode' fs'))"
      by (rule write_content_keeps[rotated]) (use k g in \<open>simp add: preserves_def\<close>)
  qed
  have "keeps fs (snd (proceed (prepare_to_write_data i fs) (\<lambda>_ fs. with_inode i fs (\<lambda>inode.
       proceed (grow_for_write i (offset + length data) inode fs) (write_content i offset data)))))"
  proof (rule proceed_keeps)
    show k: "keeps fs (snd (prepare_to_write_data i fs))" using assms by (rule prepare_keeps)
    fix x fs' assume "prepare_to_write_data i fs = (Returns x, fs')"
    then have "tmpfs_ok fs'" using k by (simp add: preserves_def)
    then show "keeps fs' (snd (with_inode i fs' (\<lambda>inode. proceed (grow_for_write i (offset + length data) inode fs') (write_content i offset data))))"
      by (intro with_inode_keeps g)
  qed
  then show ?thesis unfolding tmpfs_write_bytes_def by (intro with_inode_keeps[OF assms]) (simp add: assms preserves_refl)
qed

lemma remove_keeps:
  assumes "tmpfs_ok fs"
  shows "keeps fs (snd (tmpfs_remove_child d name fs))"
proof -
  have "keeps fs (put_inode d (inode\<lparr>ti_children := AList.delete name (ti_children inode)\<rparr>) fs)"
    if "m_inodes fs d = Some inode" "inode_ok d inode fs" for inode
    by (rule keeps_put[OF assms that(1)], rule inode_ok_children[OF that(2), of _ "{}"])
      (use that delete_snd[of name "ti_children inode"] in \<open>simp_all add: inode_ok_def distinct_delete\<close>)
  then show ?thesis unfolding tmpfs_remove_child_def
    by (intro with_inode_keeps[OF assms]) (simp add: assms preserves_refl split: option.splits)
qed

lemma add_keeps:
  assumes "tmpfs_ok fs" "tmpfs_present c fs"
  shows "keeps fs (snd (tmpfs_add_child d c name mode fs))"
proof -
  have "keeps fs (put_inode d (inode\<lparr>ti_children := AList.update name c (ti_children inode)\<rparr>) fs)"
    if "m_inodes fs d = Some inode" "inode_ok d inode fs" for inode
    by (rule keeps_put[OF assms(1) that(1)], rule inode_ok_children[OF that(2), of _ "{c}"])
      (use that update_snd[of name c "ti_children inode"] assms(2) in \<open>simp_all add: inode_ok_def distinct_update tmpfs_present_def\<close>)
  then show ?thesis unfolding tmpfs_add_child_def by (intro with_inode_keeps[OF assms(1)]) (simp add: assms preserves_refl)
qed

lemma create_keeps:
  assumes "tmpfs_ok fs" "tmpfs_room (fst d) fs" "tmpfs_present d fs"
  shows "keeps fs (snd (tmpfs_create_child d name mode dev uid gid fs))"
proof -
  define inode where "inode = \<lparr>ti_metadata = no_metadata\<lparr>md_mode := mode, md_uid := uid, md_gid := gid, md_atime := kgettimeofday fs, md_ctime := kgettimeofday fs,
    md_mtime := kgettimeofday fs\<rparr>, ti_parent = d, ti_content = None, ti_children = []\<rparr>"
  define c where "c = (fst d, m_next_inode_index fs (fst d))"
  define fs1 where "fs1 = put_inode c inode (snd (next_inode_index (fst d) fs))"
  have m: "m_inodes fs1 = (m_inodes fs)(c \<mapsto> inode)" by (simp add: fs1_def)
  have "tmpfs_ok fs1"
    by (rule ok_fresh[OF assms(1,2) fs1_def[unfolded c_def]]) (use assms(3) in \<open>simp_all add: inode_def content_ok_def no_metadata_def m tmpfs_present_def\<close>)
  moreover have "tmpfs_present i fs1 = (i = c \<or> tmpfs_present i fs)" for i by (simp add: tmpfs_present_def m)
  ultimately have k: "keeps fs fs1" "keeps fs1 (snd (tmpfs_add_child d c name mode fs1))" by (simp_all add: preserves_def add_keeps[unfolded preserves_def])
  have "keeps fs (snd (proceed (tmpfs_add_child d c name mode fs1) (\<lambda>_ fs. (Returns c, fs))))"
    by (rule proceed_keeps) (use preserves_trans[OF k] in \<open>auto simp: preserves_def\<close>)
  moreover have "tmpfs_create_child d name mode dev uid gid fs =
      (if dev \<noteq> 0 then (Fails ENOTSUP, fs) else proceed (tmpfs_add_child d c name mode fs1) (\<lambda>_ fs. (Returns c, fs)))"
    unfolding fs1_def inode_def c_def by (simp add: tmpfs_create_child_def tmpfs_create_def Let_def split_def)
  ultimately show ?thesis using assms(1) by (simp add: preserves_refl)
qed

lemma tmpfs_created: "tmpfs_create_child d name mode dev uid gid fs = (Returns c, fs') \<Longrightarrow> tmpfs_present c fs'"
  by (auto simp: tmpfs_create_child_def tmpfs_create_def Let_def split_def proceed_Returns tmpfs_add_child_def with_inode_def tmpfs_present_def
      split: if_splits option.splits)

interpretation tmpfs_invariant: inode_invariant tmpfs_ops tmpfs_ok tmpfs_room tmpfs_present
proof (unfold_locales, unfold tmpfs_ops_sel, goal_cases)
  case 1 then show ?case by (rule remove_keeps)
next
  case 2 then show ?case by (rule add_keeps)
next
  case 3 then show ?case by (rule create_keeps)
next
  case 4 then show ?case using tmpfs_created by blast
next
  case 5 then show ?case by (rule write_keeps)
next
  case 6 then show ?case by (rule attributes_keep)
next
  case 7 then show ?case by (rule attributes_keep)
next
  case 8 then show ?case by (rule truncate_keeps)
next
  case 9 then show ?case by (rule attributes_keep)
next
  case 10 then show ?case by (rule attributes_keep)
qed

end
