(* ===== verification/Kernel_VFSCalls.thy ===== *)
theory Kernel_VFSCalls
  imports Kernel_VFSAccess Kernel_InodeLayer
begin

text \<open>
  The calls of the virtual file system on a file system that keeps the laws of \<open>Kernel_InodeLayer\<close>: what they change, and
  that they keep the files well-formed; with the properties for TmpFS.
\<close>

declare split_paired_All [simp del] split_paired_Ex [simp del]

subsection \<open>The last part of a path\<close>

definition last_part :: "string \<Rightarrow> string" where
  "last_part path = last (split_parts (\<lambda>ch. ch = CHR ''/'') path [])"

text \<open>A part that names an entry, not the directory or its parent.\<close>

definition proper_part :: "string \<Rightarrow> bool" where
  "proper_part part \<longleftrightarrow> part \<noteq> [] \<and> entry_name part"

lemma last_part_rest:
  assumes "parts \<noteq> []" "\<forall>part \<in> set parts. CHR ''/'' \<notin> set part"
  shows "last_part (CHR ''.'' # CHR ''/'' # join (CHR ''/'') parts) = last parts"
proof -
  have "CHR ''.'' # CHR ''/'' # join (CHR ''/'') parts = join (CHR ''/'') (''.'' # parts)" using assms(1) by (cases parts) simp_all
  moreover have "split_parts (\<lambda>ch. ch = CHR ''/'') (join (CHR ''/'') (''.'' # parts)) [] = ''.'' # parts"
    by (rule split_parts_join) (use assms in auto)
  ultimately show ?thesis using assms(1) by (simp add: last_part_def)
qed

lemma canonical_loop_last:
  "proper_part part \<Longrightarrow> \<exists>ps. canonical_parts_loop is_absolute (parts @ [part]) acc = ps @ [part]"
  by (induction parts arbitrary: acc) (auto simp: proper_part_def entry_name_def)

lemma basename_last_part:
  assumes "proper_part (last_part path)" "path \<noteq> []"
  shows "path_basename path = Inr (last_part path)"
proof -
  obtain ps where s: "split_parts (\<lambda>ch. ch = CHR ''/'') path [] = ps @ [last_part path]"
    using split_parts_nonempty[of _ path "[]"] by (metis append_butlast_last_id last_part_def)
  have "kept False (ps @ [last_part path]) = kept False ps @ [last_part path]" using assms(1) by (simp add: kept_def proper_part_def)
  then obtain qs where "path_parts path = qs @ [last_part path]"
    using canonical_loop_last[OF assms(1)] by (simp add: path_parts_def s) blast
  then show ?thesis using assms(2)
    by (auto simp: path_basename_def make_lexical_path_def canonicalize_def split_view_spec path_parts_def[symmetric] Let_def split: option.splits)
qed

text \<open>
  Where a path leads that does not end at a directory, if a link at its end is not followed: to the entry its last part
  names.
\<close>

definition ends_at :: "'s inode_ops \<Rightarrow> 's vfs \<Rightarrow> string \<Rightarrow> resolution \<Rightarrow> bool" where
  "ends_at ops v name resolution \<longleftrightarrow> (\<forall>c. fst resolution = Returns c \<longrightarrow> is_directory (md_mode (custody_metadata ops v c))
     \<or> proper_part name \<and> (\<exists>parent i. snd resolution = Some parent \<and> c = child_custody v parent name i
          \<and> op_lookup ops (custody_inode parent) name (v_files v) = Inr (Some i)))"

lemma ends_at_simps [simp]:
  "ends_at ops v name (Fails e, out)" "ends_at ops v name (Killed, out)" "ends_at ops v name (Panics f, out)"
  "ends_at ops v name (Returns c, out) \<longleftrightarrow> is_directory (md_mode (custody_metadata ops v c))
     \<or> proper_part name \<and> (\<exists>parent i. out = Some parent \<and> c = child_custody v parent name i
          \<and> op_lookup ops (custody_inode parent) name (v_files v) = Inr (Some i))"
  by (simp_all add: ends_at_def)

lemma ends_at_proceed:
  assumes "\<And>x out. m = (Returns x, out) \<Longrightarrow> ends_at ops v name (rest x out)"
  shows "ends_at ops v name (proceed m rest)"
  using assms by (cases m; cases "fst m") auto

lemma follow_link_ends:
  assumes again: "\<And>path base out. searchable ops v p base \<Longrightarrow> \<forall>c. out = Some c \<longrightarrow> searchable ops v p c \<Longrightarrow> ends_at ops v (last_part path) (again path base out)"
    and leads: "\<And>path base out. searchable ops v p base \<Longrightarrow> \<forall>c. out = Some c \<longrightarrow> searchable ops v p c \<Longrightarrow> leads_to (searchable ops v p) (again path base out)"
    and "flag options O_NOFOLLOW_NOERROR" "searchable ops v p parent" "\<forall>c. out = Some c \<longrightarrow> searchable ops v p c"
    and "hm \<longrightarrow> last_part (CHR ''.'' # rest) = name"
    and "\<not> hm \<longrightarrow> proper_part name \<and> custody = child_custody v parent name i \<and> op_lookup ops (custody_inode parent) name (v_files v) = Inr (Some i)"
  shows "ends_at ops v name (follow_link ops v p options again hm rest parent custody out)"
proof (cases hm)
  case False
  then show ?thesis using assms(3,7) by (simp add: follow_link_def)
next
  case True
  have q: "leads_to (searchable ops v p) (resolve_as_link ops v p options again inode parent out)" for inode
    by (rule resolve_as_link_leads[OF _ assms(4,5)]) (rule leads)
  have "ends_at ops v name (again (CHR ''.'' # rest) target out')" if "resolve_as_link ops v p options again inode parent out = (Returns target, out')" for inode target out'
  proof -
    have "searchable ops v p target" "\<forall>c. out' = Some c \<longrightarrow> searchable ops v p c" using q[of inode] unfolding that by simp_all
    from again[OF this, of "CHR ''.'' # rest"] show ?thesis using assms(6) True by simp
  qed
  then have l: "ends_at ops v name (proceed (resolve_as_link ops v p options again inode parent out) (again (CHR ''.'' # rest)))" for inode
    by (rule ends_at_proceed)
  have "ends_at ops v name (proceed (r, out) (\<lambda>_ out. proceed (resolve_as_link ops v p options again inode parent out) (again (CHR ''.'' # rest))))"
    for r :: "unit outcome" and inode
    by (rule ends_at_proceed) (use l in auto)
  then show ?thesis using True by (simp add: follow_link_def)
qed

lemma searchable_child: "closed_below ops v p Q \<Longrightarrow> searchable ops v p c \<Longrightarrow> is_directory (md_mode (custody_metadata ops v c)) \<Longrightarrow> may_execute p (custody_metadata ops v c)
    \<Longrightarrow> searchable ops v p (child_custody v c part inode)"
  by (auto simp: searchable_def ancestors_parent)

lemma searchable_parent: "searchable ops v p c \<Longrightarrow> custody_parent c = Some d \<Longrightarrow> searchable ops v p d \<and> is_directory (md_mode (custody_metadata ops v d))"
  by (auto simp: searchable_def ancestors_parent)

lemma resolve_parts_ends:
  assumes again: "\<And>path base out. searchable ops v p base \<Longrightarrow> \<forall>c. out = Some c \<longrightarrow> searchable ops v p c \<Longrightarrow> ends_at ops v (last_part path) (again path base out)"
    and leads: "\<And>path base out. searchable ops v p base \<Longrightarrow> \<forall>c. out = Some c \<longrightarrow> searchable ops v p c \<Longrightarrow> leads_to (searchable ops v p) (again path base out)"
    and options: "flag options O_NOFOLLOW_NOERROR" and out: "\<forall>c. out = Some c \<longrightarrow> searchable ops v p c"
    and "searchable ops v p custody" "parts \<noteq> []" "drop start path = join (CHR ''/'') parts" "\<forall>part \<in> set parts. CHR ''/'' \<notin> set part"
  shows "ends_at ops v (last parts) (resolve_parts ops v p options again path start parts custody out)"
  using assms(5-8)
proof (induction parts arbitrary: start custody)
  case (Cons part parts)
  let ?md = "custody_metadata ops v custody"
  let ?up = "case custody_parent custody of None \<Rightarrow> custody | Some c \<Rightarrow> c"
  show ?case
  proof (cases "is_directory (md_mode ?md) \<and> may_execute p ?md")
    case False
    then show ?thesis by auto
  next
    case True
    have up: "searchable ops v p ?up" "is_directory (md_mode (custody_metadata ops v ?up))"
      using searchable_parent[OF Cons.prems(1)] Cons.prems(1) True by (auto split: option.splits)
    have child: "searchable ops v p (child_custody v custody part inode)" for inode
      using searchable_child[OF closed_below_searchable Cons.prems(1)] True by blast
    have rest: "drop (start + length part) path = CHR ''/'' # join (CHR ''/'') parts" if "parts \<noteq> []"
    proof -
      have "drop (start + length part) path = drop (length part) (join (CHR ''/'') (part # parts))"
        using Cons.prems(3) by (metis add.commute drop_drop)
      then show ?thesis using that by (cases parts) simp_all
    qed
    have go_on: "ends_at ops v (last (part # parts)) (resolve_parts ops v p options again path (start + length part + 1) parts c out)"
      if "searchable ops v p c" "parts \<noteq> []" for c
    proof -
      have "drop (start + length part + 1) path = join (CHR ''/'') parts"
        using rest[OF that(2)] by (metis drop_Suc_Cons drop_drop drop0 One_nat_def add.commute)
      then show ?thesis using Cons.IH[OF that(1,2)] Cons.prems(4) that(2) by simp
    qed
    consider "part = ''..''" | "part \<noteq> ''..''" "part = ''.'' \<or> part = []" | "part \<noteq> ''..''" "\<not> (part = ''.'' \<or> part = [])" by blast
    then show ?thesis
    proof cases
      case 1
      then show ?thesis using True go_on[OF up(1)] up(2) by (cases "parts = []") auto
    next
      case 2
      then show ?thesis using True go_on[OF Cons.prems(1)] by (cases "parts = []") auto
    next
      case 3
      then have pp: "proper_part part" by (simp add: proper_part_def entry_name_def)
      show ?thesis
      proof (cases "op_lookup ops (custody_inode custody) part (v_files v)")
        case (Inl f)
        then show ?thesis using 3 True by simp
      next
        case (Inr found)
        show ?thesis
        proof (cases found)
          case None
          then show ?thesis using Inr 3 True by simp
        next
          case (Some inode)
          let ?c = "child_custody v custody part inode"
          have "ends_at ops v (last (part # parts)) (follow_link ops v p options again (parts \<noteq> []) (drop (start + length part) path) custody ?c out)"
          proof (rule follow_link_ends[OF again leads options Cons.prems(1) out])
            show "parts \<noteq> [] \<longrightarrow> last_part (CHR ''.'' # drop (start + length part) path) = last (part # parts)"
              using last_part_rest[of parts] rest Cons.prems(4) by simp
            show "\<not> parts \<noteq> [] \<longrightarrow> proper_part (last (part # parts)) \<and> ?c = child_custody v custody (last (part # parts)) inode
              \<and> op_lookup ops (custody_inode custody) (last (part # parts)) (v_files v) = Inr (Some inode)"
              using pp Inr Some by simp
          qed
          moreover have "ends_at ops v (last (part # parts)) (resolve_parts ops v p options again path (start + length part + 1) parts ?c out)"
            using go_on[OF child] pp Inr Some by (cases "parts = []") auto
          ultimately show ?thesis using Inr Some 3 True by (simp add: Let_def)
        qed
      qed
    qed
  qed
qed simp

lemma resolve_ends_without_veil:
  assumes "flag options O_NOFOLLOW_NOERROR" "\<And>root. root_directory p v = Inr root \<Longrightarrow> searchable ops v p root"
    and "searchable ops v p base" "\<forall>c. out = Some c \<longrightarrow> searchable ops v p c"
  shows "ends_at ops v (last_part path) (resolve_path_without_veil left ops v p options path base out)"
  using assms(3,4)
proof (induction left arbitrary: path base out)
  case (Suc left)
  let ?parts = "split_parts (\<lambda>ch. ch = CHR ''/'') path []"
  have "ends_at ops v (last ?parts) (resolve_parts ops v p options (resolve_path_without_veil left ops v p options) path 0 ?parts c out)"
    if "searchable ops v p c" for c
    by (rule resolve_parts_ends[OF Suc.IH _ assms(1) Suc.prems(2) that])
      (use resolve_leads_without_veil[OF closed_below_searchable assms(2)] split_parts_nonempty split_parts_free[of "[]" "\<lambda>ch. ch = CHR ''/''" path]
        in \<open>auto simp: join_split_parts\<close>)
  then show ?case using Suc.prems(1) assms(2) by (auto simp: split_view_spec kept_def last_part_def split: sum.splits)
qed simp

lemma resolve_ends:
  assumes "flag options O_NOFOLLOW_NOERROR" "reaches ops v p base"
  shows "ends_at ops v (last_part path) (resolve_path ops v p path base options)"
proof -
  obtain root where root: "root_directory p v = Inr root" "custody_parent root = None" "searchable ops v p base"
    using assms(2) by (auto simp: reaches_def)
  then have "searchable ops v p root" by (simp add: searchable_def ancestors_root)
  then have e: "ends_at ops v (last_part path) (resolve_path_without_veil symlink_recursion_limit ops v p options path base None)"
    using root by (intro resolve_ends_without_veil[OF assms(1)]) auto
  show ?thesis unfolding resolve_path_def check_veil_def
  proof (rule ends_at_proceed)
    fix c out assume "resolve_path_without_veil symlink_recursion_limit ops v p options path base None = (Returns c, out)"
    with e have "ends_at ops v (last_part path) (Returns c, out)" by simp
    then show "ends_at ops v (last_part path) (proceed (validate_path_against_process_veil p (absolute_path c) options, out) (\<lambda>_ out_parent. (Returns c, out_parent)))"
      by (intro ends_at_proceed) auto
  qed
qed

text \<open>A path that is found is not empty.\<close>

lemma resolve_nonempty: "resolve_path ops v p path base options = (Returns c, out) \<Longrightarrow> path \<noteq> []"
  by (auto simp: resolve_path_def check_veil_def proceed_Returns symlink_recursion_limit_def numeral_eq_Suc)

subsection \<open>What the calls change\<close>

text \<open>An entry of a directory and no other.\<close>

definition only_entry :: "'s inode_ops \<Rightarrow> inode_id \<Rightarrow> string \<Rightarrow> inode_id option \<Rightarrow> 's \<Rightarrow> 's \<Rightarrow> bool" where
  "only_entry ops d name entry s s' \<longleftrightarrow>
     (\<forall>e n. op_lookup ops e n s' = (if e = d \<and> n = name then Inr entry else op_lookup ops e n s)) \<and> (\<forall>i. op_metadata ops i s' = op_metadata ops i s)"

context inode_layer
begin

lemma unlink_spec:
  assumes "ok (v_files v)" "reaches ops v p base" "vfs_unlink ops p path base v = (Returns (), v')"
  shows "\<exists>parent i. op_lookup ops (custody_inode parent) (last_part path) (v_files v) = Inr (Some i)
    \<and> resolve_path ops v p path base (O_NOFOLLOW_NOERROR OR O_UNLINK_INTERNAL) = (Returns (child_custody v parent (last_part path) i), Some parent)
    \<and> only_entry ops (custody_inode parent) (last_part path) None (v_files v) (v_files v') \<and> v' = v\<lparr>v_files := v_files v'\<rparr> \<and> ok (v_files v')"
proof -
  let ?options = "O_NOFOLLOW_NOERROR OR O_UNLINK_INTERNAL"
  obtain r out where r: "resolve_path ops v p path base ?options = (r, out)" by (cases "resolve_path ops v p path base ?options")
  obtain c parent name where c: "r = Returns c" "\<not> is_directory (md_mode (custody_metadata ops v c))" "out = Some parent" "path_basename path = Inr name"
    and f: "on_files (op_remove_child ops (custody_inode parent) name) v = (Returns (), v')"
    using assms(3) unfolding vfs_unlink_def r
    by (auto simp: with_custody_def proceed_Returns Let_def deref_def with_basename_def split: if_splits option.splits sum.splits)
  have "ends_at ops v (last_part path) (Returns c, Some parent)"
    using resolve_ends[OF _ assms(2), of ?options path] r c by (simp add: flag_def)
  then obtain i where i: "proper_part (last_part path)" "c = child_custody v parent (last_part path) i"
    "op_lookup ops (custody_inode parent) (last_part path) (v_files v) = Inr (Some i)" using c(2) by auto
  have name: "name = last_part path" using basename_last_part[OF i(1)] resolve_nonempty[of ops v p path base ?options] r c by simp
  obtain s' where s': "op_remove_child ops (custody_inode parent) name (v_files v) = (Returns (), s')" "v' = v\<lparr>v_files := s'\<rparr>"
    using f by (auto simp: on_files_def split: prod.splits)
  show ?thesis using remove_child[OF assms(1) _ s'(1)] i r c s'(2) name by (auto simp: only_entry_def proper_part_def)
qed

lemma on_files_Returns: "on_files f v = (Returns x, v') \<longleftrightarrow> (\<exists>s'. f (v_files v) = (Returns x, s') \<and> v' = v\<lparr>v_files := s'\<rparr>)"
  by (auto simp: on_files_def split: prod.splits)

lemma mkdir_spec:
  assumes "ok (v_files v)" "\<forall>fsid. room fsid (v_files v)" "proper_part (last_part (trim_slashes path))" "vfs_mkdir ops p path mode base v = (Returns (), v')"
  shows "\<exists>parent d. resolve_path ops v p (trim_slashes path) base 0 = (Fails ENOENT, Some parent)
    \<and> may_write p (custody_metadata ops v parent) \<and> \<not> custody_is_readonly ops v parent
    \<and> \<not> present d (v_files v) \<and> op_lookup ops (custody_inode parent) (last_part (trim_slashes path)) (v_files v') = Inr (Some d)
    \<and> md_mode (op_metadata ops d (v_files v')) = S_IFDIR OR mode \<and> md_uid (op_metadata ops d (v_files v')) = m_euid p
    \<and> md_gid (op_metadata ops d (v_files v')) = m_egid p
    \<and> (\<forall>e n. e \<noteq> d \<and> (e \<noteq> custody_inode parent \<or> n \<noteq> last_part (trim_slashes path)) \<longrightarrow> op_lookup ops e n (v_files v') = op_lookup ops e n (v_files v))
    \<and> (\<forall>i. i \<noteq> d \<longrightarrow> op_metadata ops i (v_files v') = op_metadata ops i (v_files v)) \<and> v' = v\<lparr>v_files := v_files v'\<rparr> \<and> ok (v_files v')"
proof -
  let ?path = "trim_slashes path"
  have ne: "?path \<noteq> []" using assms(3) by (auto simp: proper_part_def last_part_def)
  obtain r out where r: "resolve_path ops v p ?path base 0 = (r, out)" by (cases "resolve_path ops v p ?path base 0")
  obtain parent d s' where c: "r = Fails ENOENT" "out = Some parent" "may_write p (custody_metadata ops v parent)" "\<not> custody_is_readonly ops v parent"
    and f: "op_create_child ops (custody_inode parent) (last_part ?path) (S_IFDIR OR mode) 0 (m_euid p) (m_egid p) (v_files v) = (Returns d, s')" "v' = v\<lparr>v_files := s'\<rparr>"
    using assms(4) unfolding vfs_mkdir_def new_entry_def r
    by (cases r) (auto simp: settled_def with_basename_def basename_last_part[OF assms(3) ne] proceed_Returns on_files_Returns split: if_splits option.splits)
  from create_child[OF assms(1) _ _ f(1)] assms(2,3) have "ok s' \<and> \<not> present d (v_files v) \<and> op_lookup ops (custody_inode parent) (last_part ?path) s' = Inr (Some d)
      \<and> md_mode (op_metadata ops d s') = S_IFDIR OR mode \<and> md_uid (op_metadata ops d s') = m_euid p \<and> md_gid (op_metadata ops d s') = m_egid p
      \<and> (\<forall>e n. e \<noteq> d \<and> (e \<noteq> custody_inode parent \<or> n \<noteq> last_part ?path) \<longrightarrow> op_lookup ops e n s' = op_lookup ops e n (v_files v))
      \<and> (\<forall>i. i \<noteq> d \<longrightarrow> op_metadata ops i s' = op_metadata ops i (v_files v))"
    by (simp add: proper_part_def)
  moreover have "v_files v' = s'" "v' = v\<lparr>v_files := v_files v'\<rparr>" using f(2) by simp_all
  ultimately show ?thesis using r c by metis
qed

text \<open>A file moves: the entry is gone where it was and is where it went, and no other entry changes.\<close>

lemma rename_spec:
  assumes "ok (v_files v)" "rename_entries ops p old_path new_path old_custody old_parent None new_parent v = (Returns (), v')"
    and "path_basename old_path = Inr old_name" "path_basename new_path = Inr new_name" "entry_name old_name" "entry_name new_name"
    and "present (custody_inode old_custody) (v_files v)" "(custody_inode old_parent, old_name) \<noteq> (custody_inode new_parent, new_name)"
  shows "op_lookup ops (custody_inode new_parent) new_name (v_files v') = Inr (Some (custody_inode old_custody))
    \<and> op_lookup ops (custody_inode old_parent) old_name (v_files v') = Inr None
    \<and> (\<forall>e n. (e, n) \<noteq> (custody_inode new_parent, new_name) \<and> (e, n) \<noteq> (custody_inode old_parent, old_name) \<longrightarrow> op_lookup ops e n (v_files v') = op_lookup ops e n (v_files v))
    \<and> (\<forall>i. op_metadata ops i (v_files v') = op_metadata ops i (v_files v)) \<and> ok (v_files v')"
proof -
  obtain s1 s2 where s: "op_add_child ops (custody_inode new_parent) (custody_inode old_custody) new_name (md_mode (custody_metadata ops v old_custody)) (v_files v) = (Returns (), s1)"
    "op_remove_child ops (custody_inode old_parent) old_name s1 = (Returns (), s2)" "v_files v' = s2"
    using assms(2-4) unfolding rename_entries_def by (auto simp: Let_def with_basename_def proceed_Returns on_files_Returns split: if_splits)
  note a = add_child[OF assms(1,6,7) s(1)]
  then have "ok s1" by blast
  note b = remove_child[OF this assms(5) s(2)]
  show ?thesis using a b assms(8) unfolding s(3) by auto
qed

end

subsection \<open>The calls keep the file system well-formed\<close>

definition vfs_preserves :: "('s \<Rightarrow> bool) \<Rightarrow> (inode_id \<Rightarrow> 's \<Rightarrow> bool) \<Rightarrow> 's vfs \<Rightarrow> 's vfs \<Rightarrow> bool" where
  "vfs_preserves ok present v v' \<longleftrightarrow> preserves ok present (v_files v) (v_files v') \<and> v_mounts v' = v_mounts v \<and> v_root_inode v' = v_root_inode v"

text \<open>The inodes a custody refers to exist.\<close>

definition custody_present :: "(inode_id \<Rightarrow> 's \<Rightarrow> bool) \<Rightarrow> 's vfs \<Rightarrow> custody \<Rightarrow> bool" where
  "custody_present present v c \<longleftrightarrow> (\<forall>a \<in> set (c # ancestors c). present (custody_inode a) (v_files v))"

definition vfs_ok :: "('s \<Rightarrow> bool) \<Rightarrow> (inode_id \<Rightarrow> 's \<Rightarrow> bool) \<Rightarrow> process \<Rightarrow> custody \<Rightarrow> 's vfs \<Rightarrow> bool" where
  "vfs_ok ok present p base v \<longleftrightarrow> ok (v_files v) \<and> (\<forall>m \<in> set (v_mounts v). present (mnt_guest m) (v_files v))
     \<and> (\<forall>root. root_directory p v = Inr root \<longrightarrow> custody_present present v root) \<and> custody_present present v base"

lemma vfs_preserves_ok:
  assumes "vfs_ok ok present p base v" "vfs_preserves ok present v v'"
  shows "vfs_ok ok present p base v'"
proof -
  have "root_directory p v' = root_directory p v" using assms(2) by (simp add: vfs_preserves_def root_directory_def root_custody_def split: option.splits)
  then show ?thesis using assms unfolding vfs_ok_def vfs_preserves_def preserves_def custody_present_def by auto
qed

lemma vfs_preserves_proceed:
  assumes "vfs_preserves ok present v (snd m)" "\<And>x v'. m = (Returns x, v') \<Longrightarrow> vfs_preserves ok present v v' \<Longrightarrow> vfs_preserves ok present v (snd (rest x v'))"
  shows "vfs_preserves ok present v (snd (proceed m rest))"
proof (cases m)
  case (Pair r v')
  then show ?thesis using assms by (cases r) auto
qed

context inode_invariant
begin

lemma same: "ok (v_files v) \<Longrightarrow> vfs_preserves ok present v v"
  by (simp add: vfs_preserves_def preserves_refl)

lemma preserved_ok: "vfs_preserves ok present v v' \<Longrightarrow> ok (v_files v')"
  by (simp add: vfs_preserves_def preserves_def)

lemma on_files_preserves:
  assumes "vfs_preserves ok present v v'" "preserves ok present (v_files v') (snd (f (v_files v')))"
  shows "vfs_preserves ok present v (snd (on_files f v'))"
  using assms preserves_trans by (auto simp: on_files_def vfs_preserves_def split: prod.splits)

lemma with_custody_preserves:
  "ok (v_files v) \<Longrightarrow> (\<And>c. r = Returns c \<Longrightarrow> vfs_preserves ok present v (snd (rest c))) \<Longrightarrow> vfs_preserves ok present v (snd (with_custody r v rest))"
  unfolding with_custody_def by (rule vfs_preserves_proceed) (auto simp: same)

lemma settled_preserves:
  "ok (v_files v) \<Longrightarrow> (\<And>c. r = Returns c \<Longrightarrow> vfs_preserves ok present v (snd rest)) \<Longrightarrow> (\<And>e. r = Fails e \<Longrightarrow> vfs_preserves ok present v (snd rest))
    \<Longrightarrow> vfs_preserves ok present v (snd (settled r v rest))"
  by (simp add: settled_def same split: outcome.splits)

lemma deref_preserves:
  "ok (v_files v) \<Longrightarrow> (\<And>d. c = Some d \<Longrightarrow> vfs_preserves ok present v (snd (rest d))) \<Longrightarrow> vfs_preserves ok present v (snd (deref c v rest))"
  by (simp add: deref_def same split: option.splits)

lemma with_basename_preserves:
  "vfs_preserves ok present v v' \<Longrightarrow> (\<And>name. vfs_preserves ok present v (snd (rest name))) \<Longrightarrow> vfs_preserves ok present v (snd (with_basename path v' rest))"
  by (simp add: with_basename_def split: sum.splits)

lemma resolve_present:
  assumes "vfs_ok ok present p base v"
  shows "leads_to (custody_present present v) (resolve_path ops v p path base options)"
proof (rule resolve_leads)
  have "custody_present present v (child_custody v c name inode)"
    if "custody_present present v c" "op_lookup ops (custody_inode c) name (v_files v) = Inr (Some inode)" for c name inode
  proof -
    have "present inode (v_files v)" using found_present[OF _ that(2)] assms by (simp add: vfs_ok_def)
    moreover have "present (mnt_guest m) (v_files v)" if "find_mount_for_host inode v = Some m" for m
      using that assms unfolding find_mount_for_host_def vfs_ok_def by (auto simp: find_Some_iff)
    ultimately show ?thesis using that(1) by (auto simp: custody_present_def child_custody_def split: option.splits)
  qed
  moreover have "custody_present present v d" if "custody_present present v c" "custody_parent c = Some d" for c d
    using that by (auto simp: custody_present_def ancestors_parent)
  ultimately show "closed_below ops v p (custody_present present v)" unfolding closed_below_def by blast
qed (use assms in \<open>auto simp: vfs_ok_def\<close>)

lemma resolve_present_found:
  "vfs_ok ok present p base v \<Longrightarrow> resolve_path ops v p path base options = (Returns c, out) \<Longrightarrow> present (custody_inode c) (v_files v)"
  "vfs_ok ok present p base v \<Longrightarrow> resolve_path ops v p path base options = (r, Some d) \<Longrightarrow> present (custody_inode d) (v_files v)"
  using resolve_present[of p base v path options] by (auto simp: leads_to_def custody_present_def)

lemmas keeps_calls = same on_files_preserves vfs_preserves_proceed with_custody_preserves settled_preserves deref_preserves with_basename_preserves
lemmas keeps_ops = keep_remove keep_add keep_create keep_write keep_chmod keep_chown keep_truncate keep_atime keep_mtime

lemma utime_keeps: "ok (v_files v) \<Longrightarrow> vfs_preserves ok present v (snd (vfs_utime ops p path base atime mtime v))"
  unfolding vfs_utime_def by (auto intro!: keeps_calls keeps_ops simp: preserved_ok)

lemma chmod_keeps: "ok (v_files v) \<Longrightarrow> vfs_preserves ok present v (snd (vfs_chmod ops p path mode base v))"
  unfolding vfs_chmod_def chmod_custody_def Let_def by (auto intro!: keeps_calls keeps_ops)

lemma chown_keeps: "ok (v_files v) \<Longrightarrow> vfs_preserves ok present v (snd (vfs_chown ops p path uid gid base v))"
  unfolding vfs_chown_def chown_custody_def Let_def by (auto intro!: keeps_calls keeps_ops simp: preserved_ok)

lemma unlink_keeps: "ok (v_files v) \<Longrightarrow> vfs_preserves ok present v (snd (vfs_unlink ops p path base v))"
  unfolding vfs_unlink_def Let_def split_def by (auto intro!: keeps_calls keeps_ops)

text \<open>The new inode of a file system with room for it.\<close>

lemma create_preserves:
  assumes "vfs_ok ok present p base v" "\<forall>fsid. room fsid (v_files v)" "present (custody_inode parent) (v_files v)"
  shows "vfs_preserves ok present v (snd (on_files (op_create_child ops (custody_inode parent) name mode dev uid gid) v))"
  using assms keep_create by (intro on_files_preserves same) (auto simp: vfs_ok_def)

lemma new_entry_keeps:
  assumes "vfs_ok ok present p base v"
    and "\<And>parent name. present (custody_inode parent) (v_files v) \<Longrightarrow> vfs_preserves ok present v (snd (rest parent name))"
  shows "vfs_preserves ok present v (snd (new_entry ops p path base v rest))"
proof -
  obtain r out where r: "resolve_path ops v p path base 0 = (r, out)" by (cases "resolve_path ops v p path base 0")
  have o: "ok (v_files v)" using assms(1) by (simp add: vfs_ok_def)
  have "vfs_preserves ok present v (snd (rest parent name))" if "out = Some parent" for parent name
    using assms(2) resolve_present_found(2)[OF assms(1)] r that by blast
  then show ?thesis using o unfolding new_entry_def r Let_def by (auto intro!: settled_preserves with_basename_preserves simp: same split: outcome.splits option.splits)
qed

lemma mk_keeps:
  assumes "vfs_ok ok present p base v" "\<forall>fsid. room fsid (v_files v)"
  shows "vfs_preserves ok present v (snd (vfs_mknod ops p path mode dev base v))" "vfs_preserves ok present v (snd (vfs_mkdir ops p path mode base v))"
    "vfs_preserves ok present v (snd (vfs_symlink ops p target path base v))"
proof -
  have o: "ok (v_files v)" using assms(1) by (simp add: vfs_ok_def)
  have c: "vfs_preserves ok present v (snd (proceed (on_files (op_create_child ops (custody_inode parent) name m dev uid gid) v) rest))"
    if "present (custody_inode parent) (v_files v)" "\<And>i v'. vfs_preserves ok present v v' \<Longrightarrow> vfs_preserves ok present v (snd (rest i v'))"
    for parent name m dev uid gid and rest :: "inode_id \<Rightarrow> 'a vfs \<Rightarrow> unit outcome \<times> 'a vfs"
    using create_preserves[OF assms that(1)] that(2) by (rule vfs_preserves_proceed)
  have w: "vfs_preserves ok present v (snd (proceed (on_files (op_write_bytes ops i 0 target) v') (\<lambda>_ v. (Returns (), v))))"
    if "vfs_preserves ok present v v'" for i v'
    using that by (auto intro!: vfs_preserves_proceed on_files_preserves keep_write simp: preserved_ok)
  show "vfs_preserves ok present v (snd (vfs_mknod ops p path mode dev base v))"
    unfolding vfs_mknod_def by (auto simp: same o intro!: new_entry_keeps[OF assms(1)] c)
  show "vfs_preserves ok present v (snd (vfs_mkdir ops p path mode base v))"
    unfolding vfs_mkdir_def by (auto intro!: new_entry_keeps[OF assms(1)] c)
  show "vfs_preserves ok present v (snd (vfs_symlink ops p target path base v))"
    unfolding vfs_symlink_def by (auto intro!: new_entry_keeps[OF assms(1)] c w)
qed

lemma branch_keeps:
  "vfs_preserves ok present v (snd a) \<Longrightarrow> vfs_preserves ok present v (snd b) \<Longrightarrow> vfs_preserves ok present v (snd (if c then a else b))"
  "vfs_preserves ok present v (snd a) \<Longrightarrow> (\<And>x. vfs_preserves ok present v (snd (f x))) \<Longrightarrow> vfs_preserves ok present v (snd (case y of None \<Rightarrow> a | Some x \<Rightarrow> f x))"
  by (simp_all split: option.splits)

lemma open_existing_keeps:
  assumes "ok (v_files v)"
  shows "vfs_preserves ok present v (snd (open_existing ops pre fifo dev now p options c v))"
proof -
  have e: "vfs_preserves ok present v (snd (r, v))" for r :: "file_description outcome" by (simp add: same assms)
  have q: "vfs_preserves ok present v (snd (proceed (r, v) (\<lambda>d v. (f d, v))))" for r and f :: "file_description \<Rightarrow> file_description outcome"
    by (rule vfs_preserves_proceed) (auto simp: same assms)
  have t: "vfs_preserves ok present v (snd (if flag options O_WRONLY \<and> flag options O_TRUNC
      then proceed (on_files (op_truncate ops i 0) v) (\<lambda>_ v. (Returns (), snd (on_files (op_set_mtime ops i now) v))) else (Returns (), v)))" for i
    using assms by (intro branch_keeps vfs_preserves_proceed) (auto intro!: on_files_preserves keep_truncate keep_mtime simp: same preserved_ok)
  have u: "vfs_preserves ok present v (snd (proceed (if flag options O_WRONLY \<and> flag options O_TRUNC
      then proceed (on_files (op_truncate ops i 0) v) (\<lambda>_ v. (Returns (), snd (on_files (op_set_mtime ops i now) v))) else (Returns (), v)) (\<lambda>_ v. (Returns (describe c options), v))))" for i
    using t by (rule vfs_preserves_proceed) auto
  show ?thesis unfolding open_existing_def Let_def by (intro branch_keeps e q u)
qed

lemma open_keeps:
  assumes "vfs_ok ok present p base v" "\<forall>fsid. room fsid (v_files v)"
  shows "vfs_preserves ok present v (snd (vfs_open ops pre fifo dev now p path options mode base owner v))"
proof -
  have o: "ok (v_files v)" using assms(1) by (simp add: vfs_ok_def)
  obtain r out where r: "resolve_path ops v p path base options = (r, out)" by (cases "resolve_path ops v p path base options")
  have c: "vfs_preserves ok present v (snd (vfs_create ops p path options mode parent owner v))" if "out = Some parent" for parent
    using o create_preserves[OF assms resolve_present_found(2)[OF assms(1)]] r that unfolding vfs_create_def Let_def
    by (auto intro!: with_basename_preserves vfs_preserves_proceed simp: same split: prod.splits)
  show ?thesis using o c open_existing_keeps[OF o] unfolding vfs_open_def r Let_def
    by (auto intro!: settled_preserves deref_preserves with_custody_preserves simp: same)
qed

lemma link_keeps:
  assumes "vfs_ok ok present p base v"
  shows "vfs_preserves ok present v (snd (vfs_link ops p old_path new_path base v))"
proof -
  have o: "ok (v_files v)" using assms(1) by (simp add: vfs_ok_def)
  have "present (custody_inode c) (v_files v)" if "fst (resolve_path ops v p old_path base 0) = Returns c" for c
    using resolve_present_found(1)[OF assms] that by (metis prod.collapse)
  then show ?thesis using o unfolding vfs_link_def Let_def split_def
    by (auto intro!: with_custody_preserves settled_preserves with_basename_preserves on_files_preserves keep_add simp: same split: outcome.splits option.splits)
qed

lemma rename_entries_keeps:
  assumes "ok (v_files v)" "present (custody_inode old_custody) (v_files v)"
  shows "vfs_preserves ok present v (snd (rename_entries ops p old_path new_path old_custody old_parent new_custody new_parent v))"
proof -
  have p: "present (custody_inode old_custody) (v_files v')" if "vfs_preserves ok present v v'" for v'
    using assms(2) that by (simp add: vfs_preserves_def preserves_def)
  show ?thesis using assms unfolding rename_entries_def Let_def
    by (auto intro!: vfs_preserves_proceed with_basename_preserves on_files_preserves keep_add keep_remove simp: same p preserved_ok split: option.splits)
qed

lemma rename_keeps:
  assumes "vfs_ok ok present p base v"
  shows "vfs_preserves ok present v (snd (vfs_rename ops p old_path new_path base v))"
proof -
  have o: "ok (v_files v)" using assms(1) by (simp add: vfs_ok_def)
  obtain r out where r: "resolve_path ops v p old_path base O_NOFOLLOW_NOERROR = (r, out)" by (cases "resolve_path ops v p old_path base O_NOFOLLOW_NOERROR")
  have "present (custody_inode c) (v_files v)" if "r = Returns c" for c using resolve_present_found(1)[OF assms] r that by blast
  then show ?thesis using o unfolding vfs_rename_def r Let_def split_def
    by (auto intro!: with_custody_preserves settled_preserves deref_preserves rename_entries_keeps simp: same split: outcome.splits option.splits)
qed

lemma rmdir_keeps: "ok (v_files v) \<Longrightarrow> vfs_preserves ok present v (snd (vfs_rmdir ops p path base v))"
  unfolding vfs_rmdir_def Let_def split_def
  by (auto intro!: keeps_calls keeps_ops simp: preserved_ok split: option.splits)

lemma perform_keeps:
  assumes "vfs_ok ok present p base v" "\<forall>fsid. room fsid (v_files v)"
  shows "vfs_preserves ok present v (perform ops pre fifo dev now p base req v)"
proof -
  have "ok (v_files v)" using assms(1) by (simp add: vfs_ok_def)
  then show ?thesis using mk_keeps[OF assms] open_keeps[OF assms] link_keeps[OF assms(1)] rename_keeps[OF assms(1)]
      rmdir_keeps unlink_keeps chmod_keeps chown_keeps utime_keeps
    by (cases req) simp_all
qed

end

subsection \<open>An example\<close>

text \<open>A root with a writable file system on \<open>/tmp\<close>, which holds a file \<open>note\<close> and a link \<open>link\<close> to \<open>gone\<close>, which is not there.\<close>

definition example_inode :: "mode \<Rightarrow> uid \<Rightarrow> inode_id \<Rightarrow> string \<Rightarrow> (string \<times> inode_id) list \<Rightarrow> tmpfs_inode" where
  "example_inode mode uid parent content children =
     \<lparr>ti_metadata = no_metadata\<lparr>md_mode := mode, md_uid := uid, md_gid := uid, md_size := length content\<rparr>, ti_parent = parent,
      ti_content = (if content = [] then None else Some \<lparr>kb_bytes = content, kb_size = length content\<rparr>), ti_children = children\<rparr>"

definition example_files :: tmpfs where
  "example_files =
     \<lparr>m_inodes = [(1, 1) \<mapsto> example_inode 0x41ed 0 (1, 1) [] [(''tmp'', (1, 2))],
                  (1, 2) \<mapsto> example_inode 0x41ed 0 (1, 1) [] [],
                  (2, 1) \<mapsto> example_inode 0x41ff 0 (2, 1) [] [(''note'', (2, 2)), (''link'', (2, 3))],
                  (2, 2) \<mapsto> example_inode 0x81a4 100 (2, 1) ''hello'' [],
                  (2, 3) \<mapsto> example_inode 0xa1a4 100 (2, 1) ''gone'' []],
      m_next_inode_index = (\<lambda>_. 4), m_readonly = (\<lambda>_. False), kbuffer_region = (\<lambda>n. Some (replicate n (CHR 0x00))), name_max = 255, kgettimeofday = 0\<rparr>"

definition example_root :: custody where "example_root = Custody None [] (1, 1) root_mount_flags"
definition example_tmp :: custody where "example_tmp = Custody (Some example_root) ''tmp'' (2, 1) 0"

definition example_vfs :: "tmpfs vfs" where
  "example_vfs = \<lparr>v_files = example_files, v_root_inode = Some (1, 1),
     v_mounts = [\<lparr>mnt_guest = (1, 1), mnt_guest_fs = 1, mnt_host_custody = None, mnt_flags = root_mount_flags\<rparr>,
                 \<lparr>mnt_guest = (2, 1), mnt_guest_fs = 2, mnt_host_custody = Some (Custody (Some example_root) ''tmp'' (1, 2) root_mount_flags), mnt_flags = 0\<rparr>]\<rparr>"

definition example_process :: process where "example_process = new_process 100 100 None"

lemmas example_defs = example_files_def example_inode_def example_vfs_def example_root_def example_tmp_def example_process_def new_process_def

lemma example_reaches: "reaches tmpfs_ops example_vfs example_process example_root"
  unfolding reaches_def by (intro conjI exI[of _ example_root]) code_simp+

lemma example_ok: "tmpfs_ok example_files" "\<forall>fsid. tmpfs_room fsid example_files" "vfs_ok tmpfs_ok tmpfs_present example_process example_root example_vfs"
proof -
  show k: "tmpfs_ok example_files"
    by (auto simp: tmpfs_ok_def region_ok_def inode_ok_def content_ok_def kb_capacity_def no_metadata_def example_defs split: if_splits)
  show "\<forall>fsid. tmpfs_room fsid example_files" by (simp add: tmpfs_room_def example_defs)
  show "vfs_ok tmpfs_ok tmpfs_present example_process example_root example_vfs"
    using k by (auto simp: vfs_ok_def custody_present_def tmpfs_present_def root_directory_def root_custody_def example_defs)
qed

subsection \<open>Properties of the virtual file system\<close>

text \<open>Links are read to the end.\<close>

lemma read_entire_loop_contents:
  assumes "file_ok i fs"
  shows "read_entire_loop tmpfs_ops i fs offset builder = Some (Returns (builder @ drop offset (file_contents i fs)))"
proof (induction "length (file_contents i fs) - offset" arbitrary: offset builder rule: less_induct)
  case less
  let ?chunk = "take 4096 (drop offset (file_contents i fs))"
  have r: "tmpfs_read_bytes i offset 4096 fs = Returns ?chunk" by (rule read_bytes_spec[OF assms])
  show ?case
  proof (cases "length ?chunk < 4096")
    case True
    then have "?chunk = drop offset (file_contents i fs)" by simp
    then show ?thesis using True by (subst read_entire_loop.simps) (simp add: r)
  next
    case False
    then have l: "length ?chunk = 4096" "offset + 4096 \<le> length (file_contents i fs)" by auto
    have "read_entire_loop tmpfs_ops i fs (offset + length ?chunk) (builder @ ?chunk) = Some (Returns ((builder @ ?chunk) @ drop (offset + length ?chunk) (file_contents i fs)))"
      by (rule less) (use l in simp)
    moreover have "?chunk @ drop (offset + length ?chunk) (file_contents i fs) = drop offset (file_contents i fs)"
      unfolding l(1) by (metis add.commute append_take_drop_id drop_drop)
    moreover have "?chunk \<noteq> []" using l by (metis list.size(3) zero_neq_numeral)
    ultimately show ?thesis using l(1) by (subst read_entire_loop.simps) (simp add: r)
  qed
qed

lemma read_entire_contents: "file_ok i fs \<Longrightarrow> read_entire tmpfs_ops i fs = Returns (file_contents i fs)"
  by (simp add: read_entire_def read_entire_loop_contents)


lemma example_note: "resolve_path tmpfs_ops example_vfs example_process ''/tmp/../tmp/note'' example_root 0
    = (Returns (Custody (Some example_tmp) ''note'' (2, 2) 0), Some example_tmp)"
  by code_simp



abbreviation example_perform :: "request \<Rightarrow> tmpfs vfs" where
  "example_perform req \<equiv> perform tmpfs_ops (\<lambda>_. None) (\<lambda>_ _. Fails ENOTSUP) (\<lambda>_ _ _. None) 0 example_process example_root req example_vfs"

lemma example_mkdir: "m_inodes (v_files (example_perform (Mkdir ''/tmp/sub/'' 0x1ed))) (2, 4) \<noteq> None"
  "vfs_mkdir tmpfs_ops example_process ''/tmp/sub/'' 0x1ed example_root example_vfs = (Returns (), example_perform (Mkdir ''/tmp/sub/'' 0x1ed))"
proof -
  show "m_inodes (v_files (example_perform (Mkdir ''/tmp/sub/'' 0x1ed))) (2, 4) \<noteq> None" by code_simp
  have "fst (vfs_mkdir tmpfs_ops example_process ''/tmp/sub/'' 0x1ed example_root example_vfs) = Returns ()" by code_simp
  then show "vfs_mkdir tmpfs_ops example_process ''/tmp/sub/'' 0x1ed example_root example_vfs = (Returns (), example_perform (Mkdir ''/tmp/sub/'' 0x1ed))"
    by (metis perform.simps(3) prod.collapse)
qed


text \<open>
  C10: C: a call of \<open>unlink\<close> that succeeds on TmpFS takes away the entry that the last part of the path names, in the directory the
  rest of the path leads to, and changes no other entry and no metadata; the mounts stay as they are.
\<close>

theorem unlink_removes_entry:
  assumes "tmpfs_ok (v_files v)" "reaches tmpfs_ops v p base" "vfs_unlink tmpfs_ops p path base v = (Returns (), v')"
  shows "\<exists>parent i. tmpfs_lookup (custody_inode parent) (last_part path) (v_files v) = Inr (Some i)
    \<and> resolve_path tmpfs_ops v p path base (O_NOFOLLOW_NOERROR OR O_UNLINK_INTERNAL) = (Returns (child_custody v parent (last_part path) i), Some parent)
    \<and> only_entry tmpfs_ops (custody_inode parent) (last_part path) None (v_files v) (v_files v') \<and> v' = v\<lparr>v_files := v_files v'\<rparr> \<and> tmpfs_ok (v_files v')"
  using tmpfs_layer.unlink_spec[OF assms] by simp

theorem unlink_removes_entry_witness:
  "tmpfs_ok (v_files (example_perform (Unlink ''/tmp/note'')))
    \<and> tmpfs_lookup (2, 1) ''note'' (v_files (example_perform (Unlink ''/tmp/note''))) = Inr None"
proof -
  have "fst (vfs_unlink tmpfs_ops example_process ''/tmp/note'' example_root example_vfs) = Returns ()" by code_simp
  then have "vfs_unlink tmpfs_ops example_process ''/tmp/note'' example_root example_vfs = (Returns (), example_perform (Unlink ''/tmp/note''))"
    by (metis perform.simps(6) prod.collapse)
  moreover have "tmpfs_ok (v_files example_vfs)" using example_ok by (simp add: example_vfs_def)
  ultimately have "tmpfs_ok (v_files (example_perform (Unlink ''/tmp/note'')))" using unlink_removes_entry[OF _ example_reaches] by blast
  moreover have "tmpfs_lookup (2, 1) ''note'' (v_files (example_perform (Unlink ''/tmp/note''))) = Inr None" by code_simp
  ultimately show ?thesis by blast
qed

text \<open>
  C11: C: a call of \<open>mkdir\<close> that succeeds on TmpFS makes a directory that was not there, with the mode asked for and the ids of the
  process, under the last part of the path; nothing else changes.
\<close>

theorem mkdir_makes_directory:
  assumes "tmpfs_ok (v_files v)" "\<forall>fsid. tmpfs_room fsid (v_files v)" "proper_part (last_part (trim_slashes path))"
    and "vfs_mkdir tmpfs_ops p path mode base v = (Returns (), v')"
  shows "\<exists>parent d. resolve_path tmpfs_ops v p (trim_slashes path) base 0 = (Fails ENOENT, Some parent)
    \<and> may_write p (custody_metadata tmpfs_ops v parent) \<and> \<not> custody_is_readonly tmpfs_ops v parent
    \<and> \<not> tmpfs_present d (v_files v) \<and> tmpfs_lookup (custody_inode parent) (last_part (trim_slashes path)) (v_files v') = Inr (Some d)
    \<and> md_mode (tmpfs_metadata d (v_files v')) = S_IFDIR OR mode \<and> md_uid (tmpfs_metadata d (v_files v')) = m_euid p
    \<and> md_gid (tmpfs_metadata d (v_files v')) = m_egid p
    \<and> (\<forall>e n. e \<noteq> d \<and> (e \<noteq> custody_inode parent \<or> n \<noteq> last_part (trim_slashes path)) \<longrightarrow> tmpfs_lookup e n (v_files v') = tmpfs_lookup e n (v_files v))
    \<and> (\<forall>i. i \<noteq> d \<longrightarrow> tmpfs_metadata i (v_files v') = tmpfs_metadata i (v_files v)) \<and> v' = v\<lparr>v_files := v_files v'\<rparr> \<and> tmpfs_ok (v_files v')"
  using tmpfs_layer.mkdir_spec[OF assms] by simp

theorem mkdir_makes_directory_witness:
  "tmpfs_ok (v_files (example_perform (Mkdir ''/tmp/sub/'' 0x1ed)))
    \<and> tmpfs_lookup (2, 1) ''sub'' (v_files (example_perform (Mkdir ''/tmp/sub/'' 0x1ed))) = Inr (Some (2, 4))"
proof -
  have "proper_part (last_part (trim_slashes ''/tmp/sub/''))" by code_simp
  moreover have "tmpfs_ok (v_files example_vfs)" "\<forall>fsid. tmpfs_room fsid (v_files example_vfs)" using example_ok by (simp_all add: example_vfs_def)
  ultimately have "tmpfs_ok (v_files (example_perform (Mkdir ''/tmp/sub/'' 0x1ed)))"
    using mkdir_makes_directory[OF _ _ _ example_mkdir(2)] by blast
  moreover have "tmpfs_lookup (2, 1) ''sub'' (v_files (example_perform (Mkdir ''/tmp/sub/'' 0x1ed))) = Inr (Some (2, 4))" by code_simp
  ultimately show ?thesis by blast
qed




end
