(* ===== verification/Kernel_Unveil.thy ===== *)
theory Kernel_Unveil
  imports Kernel_VFSCalls
begin

text \<open>
  The call \<open>unveil\<close> (\<open>Kernel/Syscalls/unveil.cpp\<close>) and the veil of a process: which paths its calls can reach.
\<close>

declare split_paired_All [simp del] split_paired_Ex [simp del]

subsection \<open>The call\<close>

text \<open>\<open>get_syscall_path_argument\<close>; the longest path is a constant of the C library.\<close>

fun get_syscall_path_argument :: "nat \<Rightarrow> string_argument \<Rightarrow> string outcome" where
  "get_syscall_path_argument path_max path =
     (if argument_length path = 0 then Fails EINVAL
      else if argument_length path > path_max then Fails ENAMETOOLONG
      else case path of UserString _ (Some s) \<Rightarrow> Returns s | _ \<Rightarrow> Fails EFAULT)"

fun unveil_permissions :: "string \<Rightarrow> 32 word \<Rightarrow> 32 word option" where
  "unveil_permissions [] new_permissions = Some new_permissions"
| "unveil_permissions (permission # rest) new_permissions =
     (if permission = CHR ''r'' then unveil_permissions rest (new_permissions OR Unveil_Read)
      else if permission = CHR ''w'' then unveil_permissions rest (new_permissions OR Unveil_Write)
      else if permission = CHR ''x'' then unveil_permissions rest (new_permissions OR Unveil_Execute)
      else if permission = CHR ''c'' then unveil_permissions rest (new_permissions OR Unveil_CreateOrRemove)
      else if permission = CHR ''b'' then unveil_permissions rest (new_permissions OR Unveil_Browse)
      else None)"

text \<open>The path as it is looked up later.\<close>

definition new_unveiled_path :: "'s inode_ops \<Rightarrow> 's vfs \<Rightarrow> process \<Rightarrow> string \<Rightarrow> 32 word \<Rightarrow> string outcome" where
  "new_unveiled_path ops v p path new_permissions =
     (case root_directory p v of
        Inl f \<Rightarrow> Panics f
      | Inr root \<Rightarrow>
          (case resolve_path_without_veil symlink_recursion_limit ops v p 0 path root None of
             (Returns custody, _) \<Rightarrow> Returns (absolute_path custody)
           | (Fails e, parent_custody) \<Rightarrow>
               (case parent_custody of
                  Some parent \<Rightarrow>
                    if e = ENOENT \<and> flag new_permissions Unveil_CreateOrRemove then
                      (case path_basename path of Inl f \<Rightarrow> Panics f | Inr name \<Rightarrow> Returns (absolute_path parent @ ''/'' @ name))
                    else Fails e
                | None \<Rightarrow> Fails e)
           | (Killed, _) \<Rightarrow> Killed | (Panics f, _) \<Rightarrow> Panics f))"

text \<open>The metadata of a node between: those of its parent, under its own path.\<close>

definition inherited_metadata :: "unveil_node \<Rightarrow> string \<Rightarrow> unveil_metadata option" where
  "inherited_metadata parent it = map_option (\<lambda>m. \<lparr>full_path = full_path m @ ''/'' @ it, permissions = permissions m,
     explicitly_unveiled = False, unveil_inherited_from_root = unveil_inherited_from_root m\<rparr>) (m_metadata parent)"

definition unveil_path :: "string \<Rightarrow> 32 word \<Rightarrow> process \<Rightarrow> int outcome \<times> process" where
  "unveil_path path new_permissions p =
     (case make_lexical_path path of
        Inl f \<Rightarrow> (Panics f, p)
      | Inr lexical_path \<Rightarrow>
          let parts = m_parts lexical_path;
              (it, matching_node) = traverse_until_last_accessible_node (m_unveiled_paths p) parts;
              used = take (length parts - length it) parts in
          (case metadata_value matching_node of
             Inl f \<Rightarrow> (Panics f, p)
           | Inr m \<Rightarrow>
               if it = [] then
                 if (permissions m \<noteq> 0 \<or> \<not> unveil_inherited_from_root m) \<and> new_permissions AND NOT (permissions m) \<noteq> 0 then (Fails EPERM, p)
                 else (Returns 0, p\<lparr>m_unveiled_paths := change_at used (\<lambda>node. set_metadata node
                   \<lparr>full_path = full_path m, permissions = new_permissions, explicitly_unveiled = True, unveil_inherited_from_root = False\<rparr>) (m_unveiled_paths p)\<rparr>)
               else
                 let p = p\<lparr>m_unveiled_paths := change_at used (trie_insert it
                   \<lparr>full_path = path, permissions = new_permissions, explicitly_unveiled = True, unveil_inherited_from_root = False\<rparr>
                   inherited_metadata) (m_unveiled_paths p)\<rparr> in
                 if m_veil_state p = VeilLocked then (Panics VerifyFailed, p)
                 else (Returns 0, p\<lparr>m_veil_state := VeilDropped\<rparr>)))"

fun is_null_argument :: "string_argument \<Rightarrow> bool" where
  "is_null_argument (NullString _) = True"
| "is_null_argument (UserString _ _) = False"

definition sys_unveil :: "'s inode_ops \<Rightarrow> nat \<Rightarrow> 's vfs \<Rightarrow> (string_argument \<times> string_argument) option \<Rightarrow> process \<Rightarrow> int outcome \<times> process" where
  "sys_unveil ops path_max v params p =
     (case params of
        None \<Rightarrow> (Fails EFAULT, p)
      | Some (path, perms) \<Rightarrow>
          if is_null_argument path \<and> is_null_argument perms then (Returns 0, p\<lparr>m_veil_state := VeilLocked\<rparr>)
          else if m_veil_state p = VeilLocked then (Fails EPERM, p)
          else if is_null_argument path \<or> is_null_argument perms then (Fails EINVAL, p)
          else if argument_length perms > 5 then (Fails EINVAL, p)
          else
            proceed (get_syscall_path_argument path_max path, p) (\<lambda>path p.
            if path = [] \<or> path ! 0 \<noteq> CHR ''/'' then (Fails EINVAL, p)
            else
              proceed (copied_argument perms, p) (\<lambda>perms p.
              case unveil_permissions (case perms of None \<Rightarrow> [] | Some s \<Rightarrow> s) 0 of
                None \<Rightarrow> (Fails EINVAL, p)
              | Some new_permissions \<Rightarrow>
                  proceed (new_unveiled_path ops v p path new_permissions, p) (\<lambda>path p.
                  unveil_path path new_permissions p))))"

subsection \<open>What a process has unveiled\<close>

text \<open>The permissions that hold for a path, given by its parts.\<close>

definition unveiled :: "process \<Rightarrow> string list \<Rightarrow> 32 word option" where
  "unveiled p parts = map_option permissions (last_metadata (m_unveiled_paths p) parts)"

lemma inherited_inherits: "inherits permissions inherited_metadata"
  by (simp add: inherits_def inherited_metadata_def)

lemma trie_insert_at:
  assumes "traverse_until_last_accessible_node t parts = (it, n)"
  shows "change_at (take (length parts - length it) parts) (trie_insert it m provide) t = trie_insert parts m provide t"
proof -
  obtain used where u: "parts = used @ it" "traverse_until_last_accessible_node t used = ([], n)" "it = [] \<or> map_of (m_children n) (hd it) = None"
    using traverse_parts[OF assms] by blast
  have "traverse_until_last_accessible_node n it = (it, n)" using u(3) by (cases it) auto
  then have "change_at used (trie_insert it m provide) t = change_at used (insert_loop it m provide) t"
    using u(2) by (induction used "trie_insert it m provide" t rule: change_at.induct) (auto simp: trie_insert_def split: option.splits)
  then show ?thesis using assms u(1) by (simp add: trie_insert_def)
qed

text \<open>
  What \<open>unveil\<close> does for the parts of a path. A node that is there gets other permissions, none it did not have unless it
  has its permissions from the root and has none; else the path and all below it get the permissions. Other paths keep
  theirs.
\<close>

definition unveil_effect :: "process \<Rightarrow> string list \<Rightarrow> 32 word \<Rightarrow> process \<Rightarrow> bool" where
  "unveil_effect p parts perms p' \<longleftrightarrow>
     unveiled p' parts = Some perms \<and> (\<forall>q. \<not> prefix parts q \<longrightarrow> unveiled p' q = unveiled p q)
     \<and> (if has_node (m_unveiled_paths p) parts
        then (\<exists>m. last_metadata (m_unveiled_paths p) parts = Some m \<and> (perms AND NOT (permissions m) = 0 \<or> permissions m = 0 \<and> unveil_inherited_from_root m))
          \<and> m_veil_state p' = m_veil_state p
        else m_veil_state p' = VeilDropped \<and> (\<forall>q. prefix parts q \<longrightarrow> unveiled p' q = Some perms))
     \<and> p' = p\<lparr>m_veil_state := m_veil_state p', m_unveiled_paths := m_unveiled_paths p'\<rparr>"

lemma unveil_path_effect:
  assumes "unveil_path path perms p = (Returns r, p')" "make_lexical_path path = Inr lp"
  shows "unveil_effect p (m_parts lp) perms p'"
proof -
  let ?t = "m_unveiled_paths p" and ?parts = "m_parts lp"
  obtain it n where t: "traverse_until_last_accessible_node ?t ?parts = (it, n)" by (cases "traverse_until_last_accessible_node ?t ?parts")
  obtain m where m: "m_metadata n = Some m" using assms t by (auto simp: unveil_path_def metadata_value_def split: option.splits)
  show ?thesis
  proof (cases "it = []")
    case True
    let ?f = "\<lambda>node. set_metadata node \<lparr>full_path = full_path m, permissions = perms, explicitly_unveiled = True, unveil_inherited_from_root = False\<rparr>"
    have t': "traverse_until_last_accessible_node ?t ?parts = ([], n)" using t True by simp
    have p': "p' = p\<lparr>m_unveiled_paths := change_at ?parts ?f ?t\<rparr>" "perms AND NOT (permissions m) = 0 \<or> permissions m = 0 \<and> unveil_inherited_from_root m"
      using assms t' m by (auto simp: unveil_path_def metadata_value_def split: if_splits)
    have "has_node ?t ?parts" "last_metadata ?t ?parts = Some m" using t' m by (simp_all add: has_node_def last_metadata_def)
    then show ?thesis using p' change_at_last[OF t', of ?f] by (auto simp: unveil_effect_def unveiled_def)
  next
    case False
    let ?m = "\<lparr>full_path = path, permissions = perms, explicitly_unveiled = True, unveil_inherited_from_root = False\<rparr>"
    have p': "p' = p\<lparr>m_unveiled_paths := trie_insert ?parts ?m inherited_metadata ?t, m_veil_state := VeilDropped\<rparr>"
      using assms t m False trie_insert_at[OF t, of ?m inherited_metadata] by (auto simp: unveil_path_def metadata_value_def Let_def split: if_splits)
    have "unveiled p' q = (if prefix ?parts q then Some perms else unveiled p q)" for q
      using trie_insert_last[OF inherited_inherits t m False, of ?m q] p' by (simp add: unveiled_def)
    then show ?thesis using p' t False by (simp add: unveil_effect_def has_node_def)
  qed
qed

lemma sys_unveil_effect:
  assumes "sys_unveil ops path_max v (Some (UserString n (Some path), UserString k (Some s))) p = (Returns r, p')"
  shows "m_veil_state p \<noteq> VeilLocked \<and> (\<exists>perms found lp. unveil_permissions s 0 = Some perms \<and> new_unveiled_path ops v p path perms = Returns found
    \<and> make_lexical_path found = Inr lp \<and> unveil_effect p (m_parts lp) perms p')"
proof -
  obtain perms found where u: "m_veil_state p \<noteq> VeilLocked" "unveil_permissions s 0 = Some perms" "new_unveiled_path ops v p path perms = Returns found"
    "unveil_path found perms p = (Returns r, p')"
    using assms by (auto simp: sys_unveil_def proceed_Returns split: if_splits option.splits)
  moreover obtain lp where "make_lexical_path found = Inr lp" using u(4) by (cases "make_lexical_path found") (auto simp: unveil_path_def)
  ultimately show ?thesis using unveil_path_effect by blast
qed

lemma locked_unveil: "m_veil_state p = VeilLocked \<Longrightarrow> snd (sys_unveil ops path_max v params p) = p"
  by (cases params) (auto simp: sys_unveil_def split: prod.splits)

text \<open>What has passed the veil of a process that has one.\<close>

lemma validated_unveiled:
  assumes "validate_path_against_process_veil p path options = Returns ()" "m_veil_state p \<noteq> VeilNone" "path \<noteq> ''/usr/lib/Loader.so''"
  shows "\<exists>lp perms. make_lexical_path path = Inr lp \<and> unveiled p (m_parts lp) = Some perms \<and> permissions_suffice perms options"
  using assms
  by (auto simp: validate_path_against_process_veil_def find_matching_unveiled_path_def and_then_Inr_iff metadata_value_def unveiled_def last_metadata_def
      split: sum.splits bool.splits option.splits if_splits)

subsection \<open>Properties of the veil\<close>


abbreviation unveil_tmp :: "(string_argument \<times> string_argument) option" where
  "unveil_tmp \<equiv> Some (UserString 4 (Some ''/tmp''), UserString 2 (Some ''rc''))"

definition veiled_process :: process where
  "veiled_process = snd (sys_unveil tmpfs_ops 4096 example_vfs unveil_tmp example_process)"

lemma veiled_note: "resolve_path tmpfs_ops example_vfs veiled_process ''/tmp/note'' example_root O_RDONLY = (Returns (Custody (Some example_tmp) ''note'' (2, 2) 0), Some example_tmp)"
  by code_simp




lemma new_unveiled_root:
  assumes "root_directory p v = Inr root" "custody_parent root = None" "is_directory (md_mode (custody_metadata ops v root))" "may_execute p (custody_metadata ops v root)"
  shows "new_unveiled_path ops v p ''/'' perms = Returns ''/''"
  using assms by (simp add: new_unveiled_path_def symlink_recursion_limit_def numeral_eq_Suc split_view_spec kept_def absolute_path_def)

lemma lexical_root: "\<exists>lp. make_lexical_path ''/'' = Inr lp \<and> m_parts lp = []"
  by (simp add: make_lexical_path_def canonicalize_def split_view_spec kept_def)

text \<open>
  C39: C: unveiling the root directory does not drop the veil. The call returns successfully and the process can still reach
  every path, with all permissions.
\<close>

theorem unveil_root_ignored:
  assumes "root_directory p v = Inr root" "custody_parent root = None" "is_directory (md_mode (custody_metadata ops v root))" "may_execute p (custody_metadata ops v root)"
    and "m_veil_state p = VeilNone" "m_metadata (m_unveiled_paths p) = Some m" "permissions m = 0" "unveil_inherited_from_root m"
    and "unveil_permissions s 0 = Some perms" "length s \<le> 5" "0 < path_max"
  shows "\<exists>p'. sys_unveil ops path_max v (Some (UserString 1 (Some ''/''), UserString (length s) (Some s))) p = (Returns 0, p')
    \<and> validate_path_against_process_veil p' path options = Returns ()"
proof -
  obtain lp where "make_lexical_path ''/'' = Inr lp" "m_parts lp = []" using lexical_root by blast
  then have "\<exists>p'. unveil_path ''/'' perms p = (Returns 0, p') \<and> m_veil_state p' = VeilNone"
    using assms(5-8) by (simp add: unveil_path_def metadata_value_def)
  then show ?thesis using assms(5,9-11) new_unveiled_root[OF assms(1-4)]
    by (auto simp: sys_unveil_def validate_path_against_process_veil_def)
qed

theorem unveil_root_ignored_witness:
  "\<exists>p'. sys_unveil tmpfs_ops 4096 example_vfs (Some (UserString 1 (Some ''/''), UserString (length ''r'') (Some ''r''))) example_process = (Returns 0, p')
    \<and> validate_path_against_process_veil p' ''/etc/shadow'' O_WRONLY = Returns ()"
  by (rule unveil_root_ignored[of _ _ example_root _ "\<lparr>full_path = ''/'', permissions = 0, explicitly_unveiled = False, unveil_inherited_from_root = True\<rparr>" _ Unveil_Read])
    code_simp+

end
