(* ===== verification/Spec2Isabelle.thy ===== *)
theory Spec2Isabelle
  imports Kernel_ExpandableHeap Kernel_RangeAllocator Kernel_Lock AK_Base64 AK_Hex AK_LexicalPath AK_IPv4Address AK_Streams AK_Json AK_Time Kernel_Unveil
begin

text \<open>
  A verification development of prana-os, an operating system for i386: a C++ kernel (\<open>src/Kernel\<close>), the template and
  utility library \<open>AK\<close> that kernel and userland share (\<open>src/AK\<close>), and a userland. Modelled are the parts with a contract
  of their own: the containers, codecs and parsers of \<open>AK\<close>; of the kernel the heap, the address ranges, the locks, the
  rights of a process, and the virtual file system with the in-memory file system below it.

  \<^bold>\<open>Conventions.\<close> The machine has 32-bit addresses and sizes: \<open>size_t\<close> values are naturals below \<open>2\<^sup>3\<^sup>2\<close>, \<open>usize\<close> and \<open>usub\<close>
  wrap around as the machine does (theory \<open>Prelude\<close>). Bytes and bit operations are words. An operation that can fail
  returns \<open>fault + 'a\<close>: a failed \<open>VERIFY\<close>, a reached \<open>VERIFY_NOT_REACHED\<close>, an access out of bounds, behaviour that C++
  leaves undefined, or a loop that does not end. Loops are recursive functions with a measure; where a loop may not
  end it is a \<^theory_text>\<open>partial_function\<close> into options. Strings are lists of characters, views that may be null are
  options of them.

  \<^bold>\<open>Bitmaps and heaps.\<close> \<open>AK_Bitmap\<close> and \<open>AK_BitmapSearch\<close> model \<open>AK/BitmapView.h\<close> and \<open>AK/Bitmap.h\<close>; their lemmas give
  every operation's effect on the bits. \<open>AK_BitmapRanges\<close> states the contract the heap needs of them as the locale
  \<open>range_bitmap\<close> and interprets it on the model. \<open>Kernel_Heap\<close> models \<open>Kernel::Heap\<close> (\<open>Kernel/Heap/Heap.h\<close>) with its chunk
  memory; \<open>heap_reach\<close> are the states its clients reach. \<open>Kernel_ExpandableHeap\<close> adds the chain of subheaps; the source of
  more memory is an argument, with the locale \<open>memory_provider\<close> for what the heap relies on.

  \<^bold>\<open>Address ranges.\<close> \<open>AK_BinarySearch\<close> models \<open>AK/BinarySearch.h\<close>, \<open>Kernel_RangeAllocator\<close> the ranges and the range
  allocator of \<open>Kernel/VM\<close>; the locale \<open>address_pool\<close> gives the clients' view, that no two owners get the same address.

  \<^bold>\<open>Locks.\<close> \<open>Kernel_Lock\<close> models \<open>Kernel/Lock.cpp\<close> and \<open>Kernel/WaitQueue.cpp\<close> as a system of threads: \<open>lock_step\<close> is one
  step of one thread, between two accesses to the spin flag or the queue. The invariant \<open>lock_inv\<close> holds in every
  reachable state; mutual exclusion and that no wake-up is lost follow from it.

  \<^bold>\<open>Processes.\<close> \<open>Kernel_Process\<close> models the ids, promises and umask of \<open>Kernel/Process.h\<close> and the calls that change them
  (\<open>Kernel/Syscalls/setuid.cpp\<close>, \<open>pledge.cpp\<close>, \<open>umask.cpp\<close>, and the parts of \<open>fork.cpp\<close> and \<open>execve.cpp\<close> that touch them). A call
  is a function from the process to an \<open>outcome\<close> (it returns, fails with an error number, ends the process, or panics the
  kernel) and the process afterwards. The reachability lemmas show that no sequence of calls gives an unprivileged
  process an id it did not hold, or a promise it gave up.

  \<^bold>\<open>Files.\<close> \<open>Kernel_TmpFS\<close> models \<open>Kernel/FileSystem/TmpFS.cpp\<close>, the inode base class and its metadata: a file system is a
  map from inode numbers to inodes, an inode operation a function on it. \<open>Kernel_VFS\<close> models
  \<open>Kernel/FileSystem/VirtualFileSystem.cpp\<close> and \<open>Custody.cpp\<close> over the record \<open>inode_ops\<close> of the virtual functions of \<open>Inode\<close>,
  so every file system can be put below it: mounts, path resolution with symbolic links and mount points, the veil, and
  the operations on paths. \<open>Kernel_InodeLayer\<close> states what the layer above relies on as the locales \<open>inode_layer\<close> (which
  inode an operation may change) and \<open>inode_invariant\<close> (what it keeps), and interprets both on TmpFS. \<open>Kernel_VFSAccess\<close>
  shows that resolution stays below the root directory and passes only through directories the process may search, and
  that an operation changes files only where the process has the rights. \<open>Kernel_VFSCalls\<close> has the effect of the
  operations on directories and that all keep the file system well-formed. \<open>AK_Trie\<close> (\<open>AK/Trie.h\<close>) is the tree that
  \<open>Kernel_Unveil\<close> (\<open>Kernel/Syscalls/unveil.cpp\<close>, \<open>Kernel/UnveilNode.h\<close>) keeps the veil in.

  \<^bold>\<open>Strings and parsers.\<close> \<open>AK_MemMem\<close> (\<open>AK/MemMem.h\<close>) has the two substring searches and their equality with the first
  occurrence; \<open>AK_StringUtils\<close> the functions of \<open>AK/StringUtils.cpp\<close> and \<open>AK/StringView.cpp\<close>; \<open>AK_GenericLexer\<close> the
  lexer that \<open>AK_Format\<close> (\<open>AK/Format.cpp\<close>) and \<open>AK_Json\<close> (the JSON classes) build on; \<open>AK_LexicalPath\<close>, \<open>AK_IPv4Address\<close>
  the two classes of these names.

  \<^bold>\<open>Time.\<close> \<open>AK_Time\<close> models \<open>AK/Time.h\<close> and \<open>AK/Time.cpp\<close>: the amounts of time, kept as 64-bit seconds and 32-bit
  nanoseconds with saturation, and the calendar functions; its lemmas give the integer each operation computes.

  \<^bold>\<open>Codecs.\<close> \<open>AK_Base64\<close>, \<open>AK_Hex\<close> (\<open>AK/Hex.cpp\<close> and the percent-encoding of \<open>AK/URLParser.cpp\<close>), \<open>AK_Utf8\<close>
  (\<open>AK/Utf8View.cpp\<close>, \<open>AK/StringBuilder.cpp\<close>), \<open>AK_Streams\<close> (\<open>AK/MemoryStream.h\<close>, \<open>AK/LEB128.h\<close>): round trips, and the inputs
  on which they fail.

  \<^bold>\<open>Fuel.\<close> The JSON parser's mutual recursion is bounded by twice the length of the text plus one; \<open>json_parse_ends\<close> shows
  that this is enough for every text.

  \<^bold>\<open>Not modelled.\<close> Code that is mostly an exchange with hardware: \<open>Kernel/Arch\<close>, \<open>Interrupts\<close>, \<open>ACPI\<close>, \<open>PCI\<close>, \<open>Storage\<close>,
  \<open>VirtIO\<close>, \<open>Devices\<close>, \<open>TTY\<close>, \<open>Time\<close>, and the page tables and page faults of \<open>Kernel/VM\<close>: its meaning is the device's, which
  no source here describes. The scheduler, threads and signals: their steps are context switches in assembly; the
  model of the locks has the blocking and waking that other parts rely on. The network stack and the on-disk and
  synthetic file systems (\<open>Ext2\<close>, \<open>ProcFS\<close>, \<open>DevFS\<close>, \<open>Plan9\<close>); the record \<open>inode_ops\<close> is where they would be put. The graphical
  programs of the userland call libraries that are not in this repository. Of \<open>AK\<close>: floating point, reference counting
  and smart pointers (values of the model have no identity), the layout of hash tables and strings in memory.
\<close>

end
